(* ===== verification/Prelude.thy ===== *)
theory Prelude
  imports Main "HOL-Library.Word" "HOL-Library.Monad_Syntax"
begin

text \<open>
  What every component of the ZeOS model shares: the machine types of
  \<open>include/types.h\<close>, the error numbers of \<open>include/errno.h\<close> the system calls return,
  the two shapes of loop (a \<open>fold\<close> over the index list of a \<open>for\<close> statement, and the
  same in the option monad for a body that can fault), and the lemma collections the
  component proofs use.
\<close>

unbundle bit_operations_syntax

section \<open>Machine types\<close>

text \<open>
  The code is compiled with \<open>gcc -m32\<close>: \<open>int\<close>, \<open>long\<close> and pointers have 32 bits. A C \<open>int\<close> is
  the same word read by \<^const>\<open>sint\<close>. \<open>None\<close> of an option result is a machine fault (a
  dereference of \<open>NULL\<close> or of a pointer that is not what the code takes it for).
\<close>

type_synonym Byte = "8 word"
type_synonym Word16 = "16 word"
type_synonym DWord = "32 word"
type_synonym u64 = "64 word"

section \<open>Error numbers (include/errno.h)\<close>

definition ESRCH :: DWord where "ESRCH = 3"
definition EBADF :: DWord where "EBADF = 9"
definition EAGAIN :: DWord where "EAGAIN = 11"
definition ENOMEM :: DWord where "ENOMEM = 12"
definition EACCES :: DWord where "EACCES = 13"
definition EFAULT :: DWord where "EFAULT = 14"
definition EINVAL :: DWord where "EINVAL = 22"
definition ENOSYS :: DWord where "ENOSYS = 38"

lemmas errno_defs = ESRCH_def EBADF_def EAGAIN_def ENOMEM_def EACCES_def EFAULT_def
  EINVAL_def ENOSYS_def

section \<open>Lemma collections\<close>

named_theorems kframe \<open>what an operation leaves alone\<close>
named_theorems kdefs \<open>unfoldings of the straight-line operations of the kernel\<close>

section \<open>Loops\<close>

text \<open>\<open>for (i = a; i < b; i++) body\<close> is \<^term>\<open>fold body [a..<b]\<close>; a body that can fault is run by \<open>mfold\<close>.\<close>

primrec mfold :: "('a \<Rightarrow> 's \<Rightarrow> 's option) \<Rightarrow> 'a list \<Rightarrow> 's \<Rightarrow> 's option" where
  "mfold f [] s = Some s"
| "mfold f (x # xs) s = (case f x s of None \<Rightarrow> None | Some s' \<Rightarrow> mfold f xs s')"

lemma mfold_append:
  "mfold f (xs @ ys) s = (case mfold f xs s of None \<Rightarrow> None | Some s' \<Rightarrow> mfold f ys s')"
  by (induction xs arbitrary: s) (auto split: option.splits)

text \<open>The invariant rules: \<open>I done s\<close> speaks of the indices done so far.\<close>

lemma fold_invariant_prefix:
  assumes "I [] s"
    and "\<And>done x rest s. zs = done @ x # rest \<Longrightarrow> I done s \<Longrightarrow> I (done @ [x]) (f x s)"
  shows "I zs (fold f zs s)"
  using assms
proof (induction zs rule: rev_induct)
  case Nil
  then show ?case by simp
next
  case (snoc z zs)
  have "I zs (fold f zs s)"
    by (rule snoc.IH) (use snoc.prems in \<open>auto\<close>)
  then show ?case using snoc.prems(2)[of zs z "[]"] by simp
qed

lemma mfold_invariant_prefix:
  assumes "I [] s"
    and "\<And>done x rest s. zs = done @ x # rest \<Longrightarrow> I done s
           \<Longrightarrow> \<exists>s'. f x s = Some s' \<and> I (done @ [x]) s'"
  shows "\<exists>s'. mfold f zs s = Some s' \<and> I zs s'"
  using assms
proof (induction zs rule: rev_induct)
  case Nil
  then show ?case by simp
next
  case (snoc z zs)
  have "\<exists>s'. mfold f zs s = Some s' \<and> I zs s'"
    by (rule snoc.IH) (use snoc.prems in \<open>auto\<close>)
  then obtain s' where s': "mfold f zs s = Some s'" "I zs s'" by blast
  with snoc.prems(2)[of zs z "[]" s'] show ?case by (auto simp: mfold_append)
qed

lemma fold_preserves:
  assumes "P s" and "\<And>x s. x \<in> set xs \<Longrightarrow> P s \<Longrightarrow> P (f x s)"
  shows "P (fold f xs s)"
  using assms by (induction xs arbitrary: s) auto

text \<open>An operation repeated \<open>n\<close> times.\<close>

primrec repeat_op :: "nat \<Rightarrow> ('s \<Rightarrow> 's option) \<Rightarrow> 's \<Rightarrow> 's option" where
  "repeat_op 0 f s = Some s"
| "repeat_op (Suc n) f s = Option.bind (f s) (repeat_op n f)"

lemma repeat_op_add: "repeat_op (m + n) f s = Option.bind (repeat_op m f s) (repeat_op n f)"
  by (induction m arbitrary: s) (auto split: bind_splits)

lemma repeat_op_Suc: "repeat_op (Suc n) f s = Option.bind (repeat_op n f s) f"
  using repeat_op_add[of n 1 f s] by (cases "repeat_op n f s") (auto split: bind_splits)

text \<open>The option monad.\<close>

lemma bind_SomeI: "m = Some x \<Longrightarrow> f x = r \<Longrightarrow> Option.bind m f = r"
  by simp

section \<open>Signed words\<close>

lemma uint_less32: "uint (w :: DWord) < 4294967296" and uint_nonneg32: "0 \<le> uint (w :: DWord)"
  using unsigned_less[of w, where 'a = int] by simp_all

lemma int_wrap32:
  assumes "0 \<le> (x::int)" "x < 4294967296"
  shows "x div 2147483648 = (if x < 2147483648 then 0 else 1)"
    and "(x + 1) mod 4294967296 = (if x = 4294967295 then 0 else x + 1)"
    and "(x - 1) mod 4294967296 = (if x = 0 then 4294967295 else x - 1)"
proof -
  show "x div 2147483648 = (if x < 2147483648 then 0 else 1)"
    using assms int_div_pos_eq[of x 2147483648 1 "x - 2147483648"] by (auto simp: div_pos_pos_trivial)
  show "(x + 1) mod 4294967296 = (if x = 4294967295 then 0 else x + 1)" using assms by auto
  show "(x - 1) mod 4294967296 = (if x = 0 then 4294967295 else x - 1)" using assms by auto
qed

lemma sint_word32: "sint (w :: DWord) = (if uint w < 2147483648 then uint w else uint w - 4294967296)"
proof -
  note u = uint_nonneg32[of w] uint_less32[of w]
  have "sint w = signed_take_bit 31 (uint w)" by (simp add: sint_uint)
  also have "\<dots> = uint w - 4294967296 * of_bool (odd (uint w div 2147483648))"
    using u by (simp add: signed_take_bit_eq_take_bit_minus bit_iff_odd take_bit_int_eq_self)
  finally show ?thesis unfolding int_wrap32(1)[OF u] by simp
qed

lemma sint_small32: "n \<le> 2147483648 \<Longrightarrow> 0 \<le> sint (w :: DWord) \<and> sint w < int n \<longleftrightarrow> unat w < n"
  using uint_less32[of w] nat_less_iff[OF uint_nonneg32[of w], of n]
  unfolding sint_word32 unat_eq_nat_uint by (auto split: if_splits)

lemma sint_succ32: "sint (w :: DWord) < 2147483647 \<Longrightarrow> sint (w + 1) = sint w + 1"
  unfolding sint_word32 uint_word_ariths
  using uint_less32[of w] uint_nonneg32[of w] int_wrap32(2)[of "uint w"] by (auto split: if_splits)

lemma sint_pred32: "- 2147483648 < sint (w :: DWord) \<Longrightarrow> sint (w - 1) = sint w - 1"
  unfolding sint_word32 uint_word_ariths
  using uint_less32[of w] uint_nonneg32[of w] int_wrap32(3)[of "uint w"] by (auto split: if_splits)

section \<open>Bit fields\<close>

text \<open>
  A C bit field of \<open>n\<close> bits at bit \<open>lo\<close> of a 32-bit union: reading and assigning it.
\<close>

definition get_bits :: "nat \<Rightarrow> nat \<Rightarrow> DWord \<Rightarrow> DWord" where
  "get_bits lo n e = drop_bit lo e AND mask n"

definition set_bits :: "nat \<Rightarrow> nat \<Rightarrow> DWord \<Rightarrow> DWord \<Rightarrow> DWord" where
  "set_bits lo n v e = (e AND NOT (push_bit lo (mask n))) OR push_bit lo (v AND mask n)"

lemma get_set_bits_same:
  "lo + n \<le> 32 \<Longrightarrow> get_bits lo n (set_bits lo n v e) = v AND mask n"
  by (rule bit_word_eqI) (auto simp: get_bits_def set_bits_def bit_simps)

lemma get_set_bits_other:
  "lo' + n' \<le> lo \<or> lo + n \<le> lo' \<Longrightarrow> get_bits lo' n' (set_bits lo n v e) = get_bits lo' n' e"
  by (rule bit_word_eqI)
     (auto simp: get_bits_def set_bits_def bit_simps dest: bit_imp_le_length)

lemmas bitfield_simps = get_set_bits_same get_set_bits_other

end
