(* ===== verification/Linked_List.thy ===== *)
theory Linked_List
  imports Prelude
begin

text \<open>
  The intrusive, circular, doubly linked lists of \<open>list.c\<close>, at the level of their pointers: a
  heap gives the \<open>next\<close> and \<open>prev\<close> field of every \<open>struct list_head\<close> node, \<open>None\<close> is \<open>NULL\<close>,
  and every operation performs the source's reads and writes in the source's order; a
  dereference of \<open>NULL\<close> is a fault. A family of disjoint queues is represented by a map from
  the head node of each queue to the sequence of its members, and the locale \<open>queue_store\<close>
  is what the scheduler and the semaphores rely on.
\<close>

section \<open>The heap of list nodes\<close>

record 'n lheap =
  nxt :: "'n \<Rightarrow> 'n option"
  prv :: "'n \<Rightarrow> 'n option"

definition get_next :: "'n option \<Rightarrow> 'n lheap \<Rightarrow> 'n option option" where
  "get_next p h = (case p of None \<Rightarrow> None | Some a \<Rightarrow> Some (nxt h a))"

definition get_prev :: "'n option \<Rightarrow> 'n lheap \<Rightarrow> 'n option option" where
  "get_prev p h = (case p of None \<Rightarrow> None | Some a \<Rightarrow> Some (prv h a))"

definition set_next :: "'n option \<Rightarrow> 'n option \<Rightarrow> 'n lheap \<Rightarrow> 'n lheap option" where
  "set_next p v h = (case p of None \<Rightarrow> None | Some a \<Rightarrow> Some (h\<lparr>nxt := (nxt h)(a := v)\<rparr>))"

definition set_prev :: "'n option \<Rightarrow> 'n option \<Rightarrow> 'n lheap \<Rightarrow> 'n lheap option" where
  "set_prev p v h = (case p of None \<Rightarrow> None | Some a \<Rightarrow> Some (h\<lparr>prv := (prv h)(a := v)\<rparr>))"

section \<open>The operations of list.c\<close>

definition INIT_LIST_HEAD :: "'n option \<Rightarrow> 'n lheap \<Rightarrow> 'n lheap option" where
  "INIT_LIST_HEAD l h = do { h \<leftarrow> set_next l l h; set_prev l l h }"

text \<open>\<open>__list_add\<close>\<close>

definition list_add_between :: "'n option \<Rightarrow> 'n option \<Rightarrow> 'n option \<Rightarrow> 'n lheap \<Rightarrow> 'n lheap option" where
  "list_add_between new prev' next' h = do {
     h \<leftarrow> set_prev next' new h;
     h \<leftarrow> set_next new next' h;
     h \<leftarrow> set_prev new prev' h;
     set_next prev' new h }"

definition list_add :: "'n option \<Rightarrow> 'n option \<Rightarrow> 'n lheap \<Rightarrow> 'n lheap option" where
  "list_add new head h = do { n \<leftarrow> get_next head h; list_add_between new head n h }"

definition list_add_tail :: "'n option \<Rightarrow> 'n option \<Rightarrow> 'n lheap \<Rightarrow> 'n lheap option" where
  "list_add_tail new head h = do { p \<leftarrow> get_prev head h; list_add_between new p head h }"

text \<open>\<open>__list_del\<close>\<close>

definition list_del_between :: "'n option \<Rightarrow> 'n option \<Rightarrow> 'n lheap \<Rightarrow> 'n lheap option" where
  "list_del_between prev' next' h = do { h \<leftarrow> set_prev next' prev' h; set_next prev' next' h }"

definition list_del :: "'n option \<Rightarrow> 'n lheap \<Rightarrow> 'n lheap option" where
  "list_del entry h = do {
     p \<leftarrow> get_prev entry h;
     n \<leftarrow> get_next entry h;
     h \<leftarrow> list_del_between p n h;
     h \<leftarrow> set_next entry None h;
     set_prev entry None h }"

definition list_is_last :: "'n option \<Rightarrow> 'n option \<Rightarrow> 'n lheap \<Rightarrow> bool option" where
  "list_is_last l head h = do { n \<leftarrow> get_next l h; Some (n = head) }"

definition list_empty :: "'n option \<Rightarrow> 'n lheap \<Rightarrow> bool option" where
  "list_empty head h = do { n \<leftarrow> get_next head h; Some (n = head) }"

text \<open>The macro \<open>list_first\<close>, and \<open>list_for_each\<close> as the sequence of the nodes it visits, at most
  \<open>fuel\<close> of them.\<close>

definition list_first :: "'n option \<Rightarrow> 'n lheap \<Rightarrow> 'n option option" where
  "list_first head h = get_next head h"

fun visit_from :: "nat \<Rightarrow> 'n option \<Rightarrow> 'n option \<Rightarrow> 'n lheap \<Rightarrow> 'n list option" where
  "visit_from 0 pos head h = None"
| "visit_from (Suc fuel) pos head h =
     (if pos = head then Some []
      else do { n \<leftarrow> get_next pos h; rest \<leftarrow> visit_from fuel n head h; Some (the pos # rest) })"

definition list_for_each :: "nat \<Rightarrow> 'n option \<Rightarrow> 'n lheap \<Rightarrow> 'n list option" where
  "list_for_each fuel head h = do { pos \<leftarrow> get_next head h; visit_from fuel pos head h }"

lemmas pointer_defs = get_next_def get_prev_def set_next_def set_prev_def

section \<open>What a list represents\<close>

text \<open>Consecutive nodes of a path point at each other.\<close>

fun chain :: "'n lheap \<Rightarrow> 'n list \<Rightarrow> bool" where
  "chain h (a # b # cs) \<longleftrightarrow> nxt h a = Some b \<and> prv h b = Some a \<and> chain h (b # cs)"
| "chain h _ \<longleftrightarrow> True"

definition is_queue :: "'n lheap \<Rightarrow> 'n \<Rightarrow> 'n list \<Rightarrow> bool" where
  "is_queue h q xs \<longleftrightarrow> distinct (q # xs) \<and> chain h (q # xs @ [q])"

lemma chain_append: "chain h (xs @ a # ys) \<longleftrightarrow> chain h (xs @ [a]) \<and> chain h (a # ys)"
  by (induction xs rule: induct_list012) (auto simp: neq_Nil_conv)

lemma chain_snoc2: "chain h (xs @ [a, b]) \<longleftrightarrow> chain h (xs @ [a]) \<and> nxt h a = Some b \<and> prv h b = Some a"
  using chain_append[of h xs a "[b]"] by simp

lemma chain_cong:
  assumes "\<And>a. a \<in> set (butlast zs) \<Longrightarrow> nxt h' a = nxt h a"
    and "\<And>b. b \<in> set (tl zs) \<Longrightarrow> prv h' b = prv h b"
  shows "chain h' zs \<longleftrightarrow> chain h zs"
  using assms by (induction h zs rule: chain.induct) auto

lemma chain_join:
  "chain h (us @ a # b # vs) \<longleftrightarrow>
     chain h (us @ [a]) \<and> nxt h a = Some b \<and> prv h b = Some a \<and> chain h (b # vs)"
  using chain_append[of h us a "b # vs"] by simp

lemma is_queue_cong:
  assumes "\<And>a. a \<in> set (q # xs) \<Longrightarrow> nxt h' a = nxt h a \<and> prv h' a = prv h a"
  shows "is_queue h' q xs \<longleftrightarrow> is_queue h q xs"
proof -
  have "chain h' (q # xs @ [q]) \<longleftrightarrow> chain h (q # xs @ [q])"
    using assms by (intro chain_cong) (auto simp: butlast_append split: if_splits)
  then show ?thesis by (simp add: is_queue_def)
qed

text \<open>The two neighbours of a gap of the ring \<open>q # xs @ ys @ [q]\<close>, and the two paths they end.\<close>

lemma ring_split:
  assumes "distinct (q # xs @ ys)"
  obtains us a b vs where "a = last (q # xs)" "b = hd (ys @ [q])"
    "q # xs = us @ [a]" "ys @ [q] = b # vs"
    "tl (us @ [a]) = xs" "butlast (b # vs) = ys" "distinct (us @ [a])" "distinct (b # vs)"
    "insert a (set us) = insert q (set xs)" "insert b (set vs) = insert q (set ys)"
proof -
  obtain us where us: "q # xs = us @ [last (q # xs)]" by (metis append_butlast_last_id list.distinct(1))
  obtain vs where vs: "ys @ [q] = hd (ys @ [q]) # vs" by (metis append_is_Nil_conv list.collapse list.distinct(1))
  show thesis
  proof (rule that[OF refl refl us vs])
    show "tl (us @ [last (q # xs)]) = xs" by (simp only: us[symmetric] list.sel)
    show "butlast (hd (ys @ [q]) # vs) = ys" by (simp only: vs[symmetric] butlast_snoc)
    show "distinct (us @ [last (q # xs)])" using assms unfolding us[symmetric] by simp
    show "distinct (hd (ys @ [q]) # vs)" using assms unfolding vs[symmetric] by simp
    show "insert (last (q # xs)) (set us) = insert q (set xs)" using arg_cong[OF us, of set] by auto
    show "insert (hd (ys @ [q])) (set vs) = insert q (set ys)" using arg_cong[OF vs, of set] by auto
  qed
qed

lemma is_queue_gap:
  assumes "is_queue h q (xs @ ys)"
  shows "nxt h (last (q # xs)) = Some (hd (ys @ [q])) \<and> prv h (hd (ys @ [q])) = Some (last (q # xs))"
proof -
  have d: "distinct (q # xs @ ys)" and ch: "chain h ((q # xs) @ (ys @ [q]))"
    using assms by (simp_all add: is_queue_def)
  obtain us a b vs where ab: "a = last (q # xs)" "b = hd (ys @ [q])"
    and e: "q # xs = us @ [a]" "ys @ [q] = b # vs"
    using d by (rule ring_split)
  have "nxt h a = Some b \<and> prv h b = Some a" using ch unfolding e by (simp add: chain_join)
  then show ?thesis unfolding ab .
qed

lemma is_queue_first: "is_queue h q xs \<Longrightarrow> nxt h q = Some (hd (xs @ [q]))"
  using is_queue_gap[of h q "[]" xs] by simp

lemma is_queue_last: "is_queue h q xs \<Longrightarrow> prv h q = Some (last (q # xs))"
  using is_queue_gap[of h q xs "[]"] by simp

section \<open>Each operation on one queue\<close>

definition same_outside :: "'n set \<Rightarrow> 'n lheap \<Rightarrow> 'n lheap \<Rightarrow> bool" where
  "same_outside X h h' \<longleftrightarrow> (\<forall>a. a \<notin> X \<longrightarrow> nxt h' a = nxt h a \<and> prv h' a = prv h a)"

lemma init_is_queue:
  "\<exists>h'. INIT_LIST_HEAD (Some q) h = Some h' \<and> is_queue h' q [] \<and> same_outside {q} h h'"
  by (simp add: INIT_LIST_HEAD_def pointer_defs is_queue_def same_outside_def)

lemma add_between_queue:
  assumes q: "is_queue h q (xs @ ys)" and n: "n \<notin> set (q # xs @ ys)"
  shows "\<exists>h'. list_add_between (Some n) (Some (last (q # xs))) (Some (hd (ys @ [q]))) h = Some h'
     \<and> is_queue h' q (xs @ n # ys) \<and> same_outside (set (n # q # xs @ ys)) h h'"
proof -
  have d: "distinct (q # xs @ ys)" and ch: "chain h ((q # xs) @ (ys @ [q]))"
    using q by (simp_all add: is_queue_def)
  obtain us a b vs where ab: "a = last (q # xs)" "b = hd (ys @ [q])"
    and e: "q # xs = us @ [a]" "ys @ [q] = b # vs"
    and cut: "tl (us @ [a]) = xs" "butlast (b # vs) = ys" "distinct (us @ [a])" "distinct (b # vs)"
    and sets: "insert a (set us) = insert q (set xs)" "insert b (set vs) = insert q (set ys)"
    using d by (rule ring_split)
  define h' where "h' = h\<lparr>nxt := (nxt h)(n := Some b, a := Some n), prv := (prv h)(b := Some n, n := Some a)\<rparr>"
  have run: "list_add_between (Some n) (Some a) (Some b) h = Some h'"
    by (simp add: h'_def list_add_between_def pointer_defs)
  have ch: "chain h (us @ [a])" "chain h (b # vs)"
    using ch unfolding e by (simp_all add: chain_join)
  have "chain h' (us @ [a]) \<longleftrightarrow> chain h (us @ [a])" "chain h' (b # vs) \<longleftrightarrow> chain h (b # vs)"
    using d n sets cut by (intro chain_cong; force simp: h'_def)+
  moreover have "nxt h' a = Some n" "prv h' n = Some a" "nxt h' n = Some b" "prv h' b = Some n"
    using sets n by (auto simp: h'_def)
  ultimately have "chain h' (us @ a # n # b # vs)"
    using ch by (simp add: chain_join[of h' us a n])
  then have "chain h' ((q # xs) @ n # (ys @ [q]))" unfolding e by simp
  then have "is_queue h' q (xs @ n # ys)" using d n by (auto simp: is_queue_def)
  moreover have "same_outside (set (n # q # xs @ ys)) h h'"
    using sets by (auto simp: same_outside_def h'_def)
  ultimately show ?thesis using run unfolding ab by blast
qed

lemma list_add_tail_queue:
  assumes "is_queue h q xs" "n \<notin> set (q # xs)"
  shows "\<exists>h'. list_add_tail (Some n) (Some q) h = Some h' \<and> is_queue h' q (xs @ [n])
     \<and> same_outside (set (n # q # xs)) h h'"
  using add_between_queue[of h q xs "[]" n] assms is_queue_last[OF assms(1)]
  by (simp add: list_add_tail_def get_prev_def)

lemma list_add_queue:
  assumes "is_queue h q xs" "n \<notin> set (q # xs)"
  shows "\<exists>h'. list_add (Some n) (Some q) h = Some h' \<and> is_queue h' q (n # xs)
     \<and> same_outside (set (n # q # xs)) h h'"
  using add_between_queue[of h q "[]" xs n] assms is_queue_first[OF assms(1)]
  by (simp add: list_add_def get_next_def)

lemma list_del_queue:
  assumes q: "is_queue h q (xs @ n # ys)"
  shows "\<exists>h'. list_del (Some n) h = Some h' \<and> is_queue h' q (xs @ ys)
     \<and> nxt h' n = None \<and> prv h' n = None \<and> same_outside (set (q # xs @ n # ys)) h h'"
proof -
  have d: "distinct (q # xs @ n # ys)" and ch: "chain h ((q # xs) @ n # (ys @ [q]))"
    using q by (simp_all add: is_queue_def)
  then have "distinct (q # xs @ ys)" by simp
  then obtain us a b vs where ab: "a = last (q # xs)" "b = hd (ys @ [q])"
    and e: "q # xs = us @ [a]" "ys @ [q] = b # vs"
    and cut: "tl (us @ [a]) = xs" "butlast (b # vs) = ys" "distinct (us @ [a])" "distinct (b # vs)"
    and sets: "insert a (set us) = insert q (set xs)" "insert b (set vs) = insert q (set ys)"
    by (rule ring_split)
  define h' where "h' = h\<lparr>nxt := (nxt h)(a := Some b, n := None), prv := (prv h)(b := Some a, n := None)\<rparr>"
  have ch: "chain h (us @ [a])" "chain h (b # vs)" "prv h n = Some a" "nxt h n = Some b"
    using ch unfolding e by (simp_all add: chain_join[of h us a n])
  have run: "list_del (Some n) h = Some h'"
    by (simp add: h'_def list_del_def list_del_between_def pointer_defs ch(3,4))
  have "chain h' (us @ [a]) \<longleftrightarrow> chain h (us @ [a])" "chain h' (b # vs) \<longleftrightarrow> chain h (b # vs)"
    using d sets cut by (intro chain_cong; force simp: h'_def)+
  moreover have "nxt h' a = Some b" "prv h' b = Some a"
    using sets d by (auto simp: h'_def)
  ultimately have "chain h' (us @ a # b # vs)" using ch by (simp add: chain_join)
  then have "chain h' ((q # xs) @ (ys @ [q]))" unfolding e by simp
  then have "is_queue h' q (xs @ ys)" using d by (simp add: is_queue_def)
  moreover have "same_outside (set (q # xs @ n # ys)) h h'"
    using sets by (auto simp: same_outside_def h'_def)
  ultimately show ?thesis using run by (auto simp: h'_def)
qed

lemma list_empty_queue: "is_queue h q xs \<Longrightarrow> list_empty (Some q) h = Some (xs = [])"
  by (cases xs) (auto simp: list_empty_def get_next_def is_queue_def)

lemma list_first_queue: "is_queue h q (x # xs) \<Longrightarrow> list_first (Some q) h = Some (Some x)"
  by (simp add: list_first_def get_next_def is_queue_def)

lemma list_first_empty: "is_queue h q [] \<Longrightarrow> list_first (Some q) h = Some (Some q)"
  by (simp add: list_first_def get_next_def is_queue_def)

lemma list_is_last_queue:
  assumes "is_queue h q xs" "x \<in> set xs"
  shows "list_is_last (Some x) (Some q) h = Some (x = last xs)"
proof -
  obtain us vs where xs: "xs = us @ x # vs" using assms(2) by (auto simp: in_set_conv_decomp)
  have "nxt h x = Some (hd (vs @ [q]))"
    using is_queue_gap[of h q "us @ [x]" vs] assms(1) xs by simp
  moreover have d: "distinct (q # us @ x # vs)" using assms(1) unfolding xs is_queue_def by blast
  then have "hd (vs @ [q]) = q \<longleftrightarrow> vs = []" by (cases vs) auto
  moreover have "x = last xs \<longleftrightarrow> vs = []" using d unfolding xs by (cases vs rule: rev_cases) auto
  ultimately show ?thesis by (simp add: list_is_last_def get_next_def)
qed

lemma visit_from_queue:
  assumes "is_queue h q (xs @ ys)" "length ys < fuel"
  shows "visit_from fuel (Some (hd (ys @ [q]))) (Some q) h = Some ys"
  using assms
proof (induction ys arbitrary: xs fuel)
  case Nil
  then show ?case by (cases fuel) auto
next
  case (Cons y ys)
  then obtain f where f: "fuel = Suc f" by (cases fuel) auto
  have "nxt h y = Some (hd (ys @ [q]))"
    using is_queue_gap[of h q "xs @ [y]" ys] Cons.prems(1) by simp
  moreover have "y \<noteq> q" using Cons.prems(1) by (auto simp: is_queue_def)
  ultimately show ?case
    using Cons.IH[of "xs @ [y]" f] Cons.prems f by (simp add: get_next_def)
qed

lemma list_for_each_queue:
  "is_queue h q xs \<Longrightarrow> length xs < fuel \<Longrightarrow> list_for_each fuel (Some q) h = Some xs"
  using visit_from_queue[of h q "[]" xs fuel] is_queue_first[of h q xs]
  by (simp add: list_for_each_def get_next_def)

section \<open>A family of disjoint queues\<close>

text \<open>\<open>A q = Some xs\<close>: the head node \<open>q\<close> heads a list whose members are \<open>xs\<close>, in order.\<close>

definition nodes :: "('n \<rightharpoonup> 'n list) \<Rightarrow> 'n set" where
  "nodes A = (\<Union>(q, xs) \<in> {(q, xs). A q = Some xs}. insert q (set xs))"

definition queues :: "'n lheap \<Rightarrow> ('n \<rightharpoonup> 'n list) \<Rightarrow> bool" where
  "queues h A \<longleftrightarrow> (\<forall>q xs. A q = Some xs \<longrightarrow> is_queue h q xs)
     \<and> (\<forall>q xs r ys. A q = Some xs \<longrightarrow> A r = Some ys \<longrightarrow> q \<noteq> r \<longrightarrow> set (q # xs) \<inter> set (r # ys) = {})"

lemma in_nodes: "n \<in> nodes A \<longleftrightarrow> (\<exists>q xs. A q = Some xs \<and> n \<in> set (q # xs))"
  by (auto simp: nodes_def)

lemma nodesI: "A q = Some xs \<Longrightarrow> n \<in> set (q # xs) \<Longrightarrow> n \<in> nodes A"
  by (auto simp: nodes_def)

lemma queuesD: "queues h A \<Longrightarrow> A q = Some xs \<Longrightarrow> is_queue h q xs"
  by (auto simp: queues_def)

lemma queues_disjoint:
  "queues h A \<Longrightarrow> A q = Some xs \<Longrightarrow> A r = Some ys \<Longrightarrow> q \<noteq> r \<Longrightarrow> set (q # xs) \<inter> set (r # ys) = {}"
  unfolding queues_def by blast

text \<open>Replacing one queue, with the others out of reach of the change.\<close>

lemma queues_update:
  assumes "queues h A" "is_queue h' q xs'" "same_outside X h h'"
    and "\<And>r ys. A r = Some ys \<Longrightarrow> r \<noteq> q \<Longrightarrow> (X \<union> set (q # xs')) \<inter> set (r # ys) = {}"
  shows "queues h' (A(q \<mapsto> xs'))"
  unfolding queues_def
proof (intro conjI allI impI)
  fix r ys assume r: "(A(q \<mapsto> xs')) r = Some ys"
  show "is_queue h' r ys"
  proof (cases "r = q")
    case True
    then show ?thesis using r assms(2) by simp
  next
    case False
    then have "A r = Some ys" using r by simp
    then have "is_queue h r ys" "X \<inter> set (r # ys) = {}"
      using assms(1) assms(4)[of r ys] False by (auto dest: queuesD)
    then show ?thesis
      using assms(3) is_queue_cong[of r ys h' h] by (auto simp: same_outside_def)
  qed
next
  fix r ys r' ys' assume "(A(q \<mapsto> xs')) r = Some ys" "(A(q \<mapsto> xs')) r' = Some ys'" "r \<noteq> r'"
  then show "set (r # ys) \<inter> set (r' # ys') = {}"
    using assms(4)[of r ys] assms(4)[of r' ys'] queues_disjoint[OF assms(1), of r ys r' ys']
    by (auto split: if_splits)
qed

lemma queues_init:
  assumes "queues h A" "q \<notin> nodes (A(q := None))"
  shows "\<exists>h'. INIT_LIST_HEAD (Some q) h = Some h' \<and> queues h' (A(q \<mapsto> []))"
proof -
  obtain h' where "INIT_LIST_HEAD (Some q) h = Some h'" "is_queue h' q []" "same_outside {q} h h'"
    using init_is_queue[of q h] by auto
  moreover have "({q} \<union> set [q]) \<inter> set (r # ys) = {}" if "A r = Some ys" "r \<noteq> q" for r ys
  proof -
    have "(A(q := None)) r = Some ys" using that by simp
    then have "q \<notin> set (r # ys)" using nodesI assms(2) by metis
    then show ?thesis by simp
  qed
  ultimately show ?thesis using queues_update[OF assms(1)] by blast
qed

lemma queues_list_add_tail:
  assumes "queues h A" "A q = Some xs" "n \<notin> nodes A"
  shows "\<exists>h'. list_add_tail (Some n) (Some q) h = Some h' \<and> queues h' (A(q \<mapsto> xs @ [n]))"
proof -
  obtain h' where "list_add_tail (Some n) (Some q) h = Some h'" "is_queue h' q (xs @ [n])"
    "same_outside (set (n # q # xs)) h h'"
    using list_add_tail_queue[of h q xs n] assms queuesD[of h A q xs] by (auto simp: in_nodes)
  moreover have "(set (n # q # xs) \<union> set (q # xs @ [n])) \<inter> set (r # ys) = {}"
    if "A r = Some ys" "r \<noteq> q" for r ys
    using queues_disjoint[OF assms(1,2) that(1)] that assms(3) by (auto simp: in_nodes)
  ultimately show ?thesis using queues_update[OF assms(1)] by blast
qed

lemma queues_list_add:
  assumes "queues h A" "A q = Some xs" "n \<notin> nodes A"
  shows "\<exists>h'. list_add (Some n) (Some q) h = Some h' \<and> queues h' (A(q \<mapsto> n # xs))"
proof -
  obtain h' where "list_add (Some n) (Some q) h = Some h'" "is_queue h' q (n # xs)"
    "same_outside (set (n # q # xs)) h h'"
    using list_add_queue[of h q xs n] assms queuesD[of h A q xs] by (auto simp: in_nodes)
  moreover have "(set (n # q # xs) \<union> set (q # n # xs)) \<inter> set (r # ys) = {}"
    if "A r = Some ys" "r \<noteq> q" for r ys
    using queues_disjoint[OF assms(1,2) that(1)] that assms(3) by (auto simp: in_nodes)
  ultimately show ?thesis using queues_update[OF assms(1)] by blast
qed

lemma queues_list_del:
  assumes "queues h A" "A q = Some xs" "n \<in> set xs"
  shows "\<exists>h'. list_del (Some n) h = Some h' \<and> queues h' (A(q \<mapsto> remove1 n xs))"
proof -
  have q: "is_queue h q xs" using assms by (auto dest: queuesD)
  obtain us vs where xs: "xs = us @ n # vs" "n \<notin> set us"
    using split_list_first[OF assms(3)] by blast
  then have rm: "remove1 n xs = us @ vs" by (simp add: remove1_append)
  obtain h' where "list_del (Some n) h = Some h'" "is_queue h' q (us @ vs)"
    "same_outside (set (q # us @ n # vs)) h h'"
    using list_del_queue[of h q us n vs] q xs by blast
  moreover have "(set (q # us @ n # vs) \<union> set (q # us @ vs)) \<inter> set (r # ys) = {}"
    if "A r = Some ys" "r \<noteq> q" for r ys
    using queues_disjoint[OF assms(1,2) that(1)] that xs by auto
  ultimately show ?thesis using queues_update[OF assms(1)] rm by metis
qed

text \<open>Only the nodes of the family count.\<close>

lemma queues_outside:
  assumes "queues h A" "\<And>n. n \<in> nodes A \<Longrightarrow> nxt h' n = nxt h n \<and> prv h' n = prv h n"
  shows "queues h' A"
proof -
  have "is_queue h' q xs" if "A q = Some xs" for q xs
  proof -
    have "nxt h' n = nxt h n \<and> prv h' n = prv h n" if n: "n \<in> set (q # xs)" for n
      using assms(2) nodesI[of A q xs n] \<open>A q = Some xs\<close> n by blast
    then show ?thesis using queuesD[OF assms(1) that] is_queue_cong[of q xs h' h] by blast
  qed
  then show ?thesis using assms(1) unfolding queues_def by blast
qed

text \<open>\<open>list_del\<close> on the head of an empty queue cuts the head itself loose.\<close>

lemma queues_del_head:
  assumes "queues h A" "A q = Some []"
  shows "\<exists>h'. list_del (Some q) h = Some h' \<and> queues h' (A(q := None))"
proof -
  have "nxt h q = Some q" "prv h q = Some q" using queuesD[OF assms] by (simp_all add: is_queue_def)
  then have run: "list_del (Some q) h = Some (h\<lparr>nxt := (nxt h)(q := None), prv := (prv h)(q := None)\<rparr>)" (is "_ = Some ?h'")
    by (simp add: list_del_def list_del_between_def pointer_defs)
  have "is_queue ?h' r ys" if "(A(q := None)) r = Some ys" for r ys
  proof -
    have r: "r \<noteq> q" "A r = Some ys" using that by (auto split: if_splits)
    then have "q \<notin> set (r # ys)" using queues_disjoint[OF assms r(2)] by auto
    then have "nxt ?h' n = nxt h n \<and> prv ?h' n = prv h n" if "n \<in> set (r # ys)" for n using that by auto
    then show ?thesis using queuesD[OF assms(1) r(2)] is_queue_cong[of r ys ?h' h] by blast
  qed
  moreover have "set (r # ys) \<inter> set (r' # ys') = {}"
    if "(A(q := None)) r = Some ys" "(A(q := None)) r' = Some ys'" "r \<noteq> r'" for r ys r' ys'
    using that queues_disjoint[OF assms(1), of r ys r' ys'] by (auto split: if_splits)
  ultimately show ?thesis using run unfolding queues_def by blast
qed

text \<open>Every family of disjoint queues can be built.\<close>

lemma nodes_empty [simp]: "nodes Map.empty = {}"
  by (simp add: nodes_def)

lemma nodes_upd: "nodes (A(q \<mapsto> xs)) = insert q (set xs) \<union> nodes (A(q := None))"
proof
  show "nodes (A(q \<mapsto> xs)) \<subseteq> insert q (set xs) \<union> nodes (A(q := None))"
  proof
    fix n assume "n \<in> nodes (A(q \<mapsto> xs))"
    then obtain r ys where r: "(A(q \<mapsto> xs)) r = Some ys" "n \<in> set (r # ys)" unfolding in_nodes by blast
    show "n \<in> insert q (set xs) \<union> nodes (A(q := None))"
    proof (cases "r = q")
      case False
      then show ?thesis using r nodesI[of "A(q := None)" r ys n] by simp
    qed (use r in auto)
  qed
  show "insert q (set xs) \<union> nodes (A(q := None)) \<subseteq> nodes (A(q \<mapsto> xs))"
  proof
    fix n assume "n \<in> insert q (set xs) \<union> nodes (A(q := None))"
    moreover have "\<exists>r ys. r \<noteq> q \<and> A r = Some ys \<and> n \<in> set (r # ys)" if n: "n \<in> nodes (A(q := None))"
    proof -
      obtain r ys where "(A(q := None)) r = Some ys" "n \<in> set (r # ys)" using n unfolding in_nodes by blast
      then show ?thesis by (cases "r = q") auto
    qed
    ultimately consider "n \<in> set (q # xs)" | r ys where "r \<noteq> q" "A r = Some ys" "n \<in> set (r # ys)"
      by auto
    then show "n \<in> nodes (A(q \<mapsto> xs))"
    proof cases
      case 1
      then show ?thesis by (intro nodesI[of _ q xs]) simp_all
    next
      case 2
      then show ?thesis by (intro nodesI[of _ r ys]) simp_all
    qed
  qed
qed

lemma queues_build:
  assumes "queues h A" "q \<notin> nodes (A(q := None))" "distinct xs" "set xs \<inter> insert q (nodes (A(q := None))) = {}"
  shows "\<exists>h'. queues h' (A(q \<mapsto> xs))"
  using assms(3,4)
proof (induction xs rule: rev_induct)
  case Nil
  then show ?case using queues_init[OF assms(1,2)] by blast
next
  case (snoc x xs)
  have "distinct xs" "set xs \<inter> insert q (nodes (A(q := None))) = {}"
    using snoc.prems by (auto simp del: fun_upd_apply)
  then obtain h' where h': "queues h' (A(q \<mapsto> xs))" using snoc.IH by blast
  have "x \<notin> set (r # ys)" if "(A(q \<mapsto> xs)) r = Some ys" for r ys
  proof (cases "r = q")
    case True
    then show ?thesis using that snoc.prems by auto
  next
    case False
    then have "(A(q := None)) r = Some ys" using that by simp
    then have "set (r # ys) \<subseteq> nodes (A(q := None))" 
      by (intro subsetI nodesI[of "A(q := None)" r ys])
    then show ?thesis using snoc.prems by (auto simp del: fun_upd_apply)
  qed
  then have "x \<notin> nodes (A(q \<mapsto> xs))" unfolding in_nodes by blast
  then obtain h2 where "queues h2 ((A(q \<mapsto> xs))(q \<mapsto> xs @ [x]))"
    using queues_list_add_tail[OF h', of q xs x] by fastforce
  then show ?case unfolding fun_upd_upd by blast
qed

section \<open>The interface the scheduler uses\<close>

locale queue_store =
  fixes rep :: "'h \<Rightarrow> ('n \<rightharpoonup> 'n list) \<Rightarrow> bool"
    and init :: "'n \<Rightarrow> 'h \<Rightarrow> 'h option"
    and add_tail :: "'n \<Rightarrow> 'n \<Rightarrow> 'h \<Rightarrow> 'h option"
    and del :: "'n \<Rightarrow> 'h \<Rightarrow> 'h option"
    and is_empty :: "'n \<Rightarrow> 'h \<Rightarrow> bool option"
    and first :: "'n \<Rightarrow> 'h \<Rightarrow> 'n option option"
  assumes rep_distinct: "rep h A \<Longrightarrow> A q = Some xs \<Longrightarrow> distinct (q # xs)"
    and rep_disjoint: "rep h A \<Longrightarrow> A q = Some xs \<Longrightarrow> A r = Some ys \<Longrightarrow> q \<noteq> r
          \<Longrightarrow> set (q # xs) \<inter> set (r # ys) = {}"
    and init: "rep h A \<Longrightarrow> q \<notin> nodes (A(q := None)) \<Longrightarrow> \<exists>h'. init q h = Some h' \<and> rep h' (A(q \<mapsto> []))"
    and add_tail: "rep h A \<Longrightarrow> A q = Some xs \<Longrightarrow> n \<notin> nodes A
          \<Longrightarrow> \<exists>h'. add_tail n q h = Some h' \<and> rep h' (A(q \<mapsto> xs @ [n]))"
    and del: "rep h A \<Longrightarrow> A q = Some xs \<Longrightarrow> n \<in> set xs
          \<Longrightarrow> \<exists>h'. del n h = Some h' \<and> rep h' (A(q \<mapsto> remove1 n xs))"
    and is_empty: "rep h A \<Longrightarrow> A q = Some xs \<Longrightarrow> is_empty q h = Some (xs = [])"
    and first: "rep h A \<Longrightarrow> A q = Some xs \<Longrightarrow> first q h = Some (Some (hd (xs @ [q])))"
begin

lemma pop_first:
  assumes "rep h A" "A q = Some (x # xs)"
  shows "first q h = Some (Some x) \<and> (\<exists>h'. del x h = Some h' \<and> rep h' (A(q \<mapsto> xs)))"
  using first[OF assms] del[OF assms, of x] by simp

lemma popped_fresh:
  assumes "rep h A" "A q = Some (x # xs)"
  shows "x \<notin> nodes (A(q \<mapsto> xs))"
proof -
  have "x \<notin> set (r # ys)" if "A r = Some ys" "r \<noteq> q" for r ys
    using rep_disjoint[OF assms that(1)] that(2) by auto
  then show ?thesis using rep_distinct[OF assms] by (auto simp: in_nodes split: if_splits)
qed

lemma move_first:
  assumes "rep h A" "A q = Some (x # xs)" "A r = Some ys" "q \<noteq> r"
  shows "\<exists>h1 h2. first q h = Some (Some x) \<and> del x h = Some h1 \<and> add_tail x r h1 = Some h2
           \<and> rep h1 (A(q \<mapsto> xs)) \<and> rep h2 (A(q \<mapsto> xs, r \<mapsto> ys @ [x]))"
proof -
  obtain h1 where h1: "del x h = Some h1" "rep h1 (A(q \<mapsto> xs))"
    using pop_first[OF assms(1,2)] by blast
  moreover have "(A(q \<mapsto> xs)) r = Some ys" using assms(3,4) by simp
  ultimately obtain h2 where "add_tail x r h1 = Some h2" "rep h2 (A(q \<mapsto> xs, r \<mapsto> ys @ [x]))"
    using add_tail popped_fresh[OF assms(1,2)] by blast
  then show ?thesis using h1 pop_first[OF assms(1,2)] by blast
qed

lemma first_is_member:
  "rep h A \<Longrightarrow> A q = Some xs \<Longrightarrow> xs \<noteq> [] \<Longrightarrow> first q h = Some (Some (hd xs))"
  using first by simp

end

interpretation lq: queue_store queues "\<lambda>q. INIT_LIST_HEAD (Some q)"
  "\<lambda>n q. list_add_tail (Some n) (Some q)" "\<lambda>n. list_del (Some n)"
  "\<lambda>q. list_empty (Some q)" "\<lambda>q. list_first (Some q)"
proof unfold_locales
  fix h :: "'a lheap" and A q xs
  assume A: "queues h A" "A q = Some xs"
  then have q: "is_queue h q xs" by (rule queuesD)
  then show "distinct (q # xs)" by (simp add: is_queue_def)
  show "list_empty (Some q) h = Some (xs = [])" using q by (rule list_empty_queue)
  show "list_first (Some q) h = Some (Some (hd (xs @ [q])))"
    using is_queue_first[OF q] by (simp add: list_first_def get_next_def)
qed (blast intro: queues_init queues_list_add_tail queues_list_del dest: queues_disjoint)+

section \<open>Properties\<close>

text \<open>
  C31: \<open>list_add_tail\<close> on any heap that holds a family of disjoint queues appends the new node at
  the end of the queue it is given and leaves every other queue as it was (the pointer
  writes of \<open>__list_add\<close>, in their order, never fault).
\<close>

theorem list_add_tail_appends:
  assumes "queues h A" "A q = Some xs" "n \<notin> nodes A"
  shows "\<exists>h'. list_add_tail (Some n) (Some q) h = Some h' \<and> queues h' (A(q \<mapsto> xs @ [n]))"
  using assms by (rule queues_list_add_tail)

theorem list_add_tail_appends_witness:
  "\<exists>h h'. INIT_LIST_HEAD (Some 0) \<lparr>nxt = \<lambda>_. None, prv = \<lambda>_. None\<rparr> = Some h
     \<and> list_add_tail (Some (1::nat)) (Some 0) h = Some h' \<and> queues h' [0 \<mapsto> [1]]"
proof -
  let ?h = "\<lparr>nxt = \<lambda>_. None, prv = \<lambda>_. None\<rparr> :: nat lheap"
  have "queues ?h Map.empty" by (simp add: queues_def)
  then obtain h where h: "INIT_LIST_HEAD (Some 0) ?h = Some h" "queues h [0 \<mapsto> []]"
    using queues_init[of ?h Map.empty 0] by (auto simp: in_nodes)
  show ?thesis using list_add_tail_appends[OF h(2), of 0 "[]" 1] h(1) by (simp add: in_nodes)
qed

text \<open>
  C32: \<open>list_del\<close> unlinks exactly the node it is given from the queue that holds it, keeps the
  order of the others and every other queue, and leaves the node with \<open>NULL\<close> pointers; after
  it, a traversal with \<open>list_for_each\<close> visits exactly the remaining members.
\<close>

theorem list_del_unlinks:
  assumes "queues h A" "A q = Some xs" "n \<in> set xs"
  shows "\<exists>h'. list_del (Some n) h = Some h' \<and> queues h' (A(q \<mapsto> remove1 n xs))
     \<and> list_for_each (length xs) (Some q) h' = Some (remove1 n xs)"
proof -
  obtain h' where h': "list_del (Some n) h = Some h'" "queues h' (A(q \<mapsto> remove1 n xs))"
    using queues_list_del[OF assms] by blast
  have q: "is_queue h' q (remove1 n xs)" by (rule queuesD[OF h'(2)]) simp
  have "length (remove1 n xs) < length xs"
    using length_pos_if_in_set[OF assms(3)] assms(3) by (simp add: length_remove1)
  with q have "list_for_each (length xs) (Some q) h' = Some (remove1 n xs)"
    by (rule list_for_each_queue)
  with h' show ?thesis by blast
qed

theorem list_del_unlinks_witness:
  "\<exists>h h'. queues h [0 \<mapsto> [1::nat]] \<and> list_del (Some 1) h = Some h' \<and> queues h' [0 \<mapsto> []]
     \<and> list_for_each 1 (Some 0) h' = Some []"
proof -
  let ?h = "\<lparr>nxt = (\<lambda>_. None)(0 := Some 1, 1 := Some 0), prv = (\<lambda>_. None)(0 := Some 1, 1 := Some 0)\<rparr> :: nat lheap"
  have "queues ?h [0 \<mapsto> [1]]" by (auto simp: queues_def is_queue_def)
  with list_del_unlinks[OF this, of 0 "[1]" 1] show ?thesis by auto
qed

end
