(* ===== verification/Utils.thy ===== *)
theory Utils
  imports Prelude
begin

text \<open>
  \<open>utils.c\<close> and \<open>p_stats.c\<close>: the copy loops over a byte-addressed memory, the check of user
  pointers \<open>access_ok\<close>, the 64-bit division \<open>do_div\<close> behind \<open>get_ticks\<close>, and the accounting
  step \<open>update_stats\<close>. A C \<open>int\<close> loop counter is an \<^typ>\<open>int\<close>; addresses are 32-bit words
  and wrap around.
\<close>

section \<open>Copy loops\<close>

type_synonym memory = "DWord \<Rightarrow> Byte"

text \<open>A \<open>DWord\<close> access of the 80386: four bytes, little endian.\<close>

definition load32 :: "DWord \<Rightarrow> memory \<Rightarrow> DWord" where
  "load32 p m = ucast (m p) OR push_bit 8 (ucast (m (p + 1)))
     OR push_bit 16 (ucast (m (p + 2))) OR push_bit 24 (ucast (m (p + 3)))"

definition store32 :: "DWord \<Rightarrow> DWord \<Rightarrow> memory \<Rightarrow> memory" where
  "store32 p v m = m(p := ucast v, p + 1 := ucast (drop_bit 8 v),
     p + 2 := ucast (drop_bit 16 v), p + 3 := ucast (drop_bit 24 v))"

text \<open>\<open>while (size > 4) { *q++ = *p++; size -= 4; }\<close>\<close>

function copy_words :: "DWord \<Rightarrow> DWord \<Rightarrow> int \<Rightarrow> memory \<Rightarrow> DWord \<times> DWord \<times> int \<times> memory" where
  "copy_words p q sz m =
     (if sz > 4 then copy_words (p + 4) (q + 4) (sz - 4) (store32 q (load32 p m) m)
      else (p, q, sz, m))"
  by pat_completeness auto
termination by (relation "measure (\<lambda>(p, q, sz, m). nat sz)") auto

text \<open>\<open>while (size > 0) { *q1++ = *p1++; size --; }\<close>\<close>

function copy_bytes :: "DWord \<Rightarrow> DWord \<Rightarrow> int \<Rightarrow> memory \<Rightarrow> memory" where
  "copy_bytes p q sz m =
     (if sz > 0 then copy_bytes (p + 1) (q + 1) (sz - 1) (m(q := m p)) else m)"
  by pat_completeness auto
termination by (relation "measure (\<lambda>(p, q, sz, m). nat sz)") auto

declare copy_words.simps [simp del] copy_bytes.simps [simp del]

definition copy_data :: "DWord \<Rightarrow> DWord \<Rightarrow> int \<Rightarrow> memory \<Rightarrow> memory" where
  "copy_data start dest sz m =
     (case copy_words start dest sz m of (p, q, sz, m) \<Rightarrow> copy_bytes p q sz m)"

definition copy_from_user :: "DWord \<Rightarrow> DWord \<Rightarrow> int \<Rightarrow> memory \<Rightarrow> DWord \<times> memory" where
  "copy_from_user start dest sz m =
     (case copy_words start dest sz m of (p, q, sz, m) \<Rightarrow> (0, copy_bytes p q sz m))"

definition copy_to_user :: "DWord \<Rightarrow> DWord \<Rightarrow> int \<Rightarrow> memory \<Rightarrow> DWord \<times> memory" where
  "copy_to_user start dest sz m =
     (case copy_words start dest sz m of (p, q, sz, m) \<Rightarrow> (0, copy_bytes p q sz m))"

definition memset :: "DWord \<Rightarrow> Byte \<Rightarrow> int \<Rightarrow> memory \<Rightarrow> memory" where
  "memset s c sz m = fold (\<lambda>i m. m(s + of_nat i := c)) [0..<nat sz] m"

subsection \<open>What they compute\<close>

text \<open>A region of \<open>n\<close> bytes from \<open>p\<close>, and the block copy as a function of the old memory.\<close>

definition in_region :: "DWord \<Rightarrow> nat \<Rightarrow> DWord \<Rightarrow> bool" where
  "in_region p n a \<longleftrightarrow> unat (a - p) < n"

definition block_copy :: "DWord \<Rightarrow> DWord \<Rightarrow> nat \<Rightarrow> memory \<Rightarrow> memory" where
  "block_copy p q n m = (\<lambda>a. if in_region q n a then m (p + (a - q)) else m a)"

definition disjoint_regions :: "DWord \<Rightarrow> DWord \<Rightarrow> nat \<Rightarrow> bool" where
  "disjoint_regions p q n \<longleftrightarrow> (\<forall>a. in_region p n a \<longrightarrow> \<not> in_region q n a)"

lemma unat_minus_of_nat:
  fixes x :: DWord
  assumes "k < 2 ^ 32"
  shows "unat (x - of_nat k) = (if k \<le> unat x then unat x - k else unat x + 2 ^ 32 - k)"
proof -
  have "unat (of_nat k :: DWord) = k" using assms by (simp add: unat_of_nat take_bit_nat_eq_self)
  then show ?thesis by (simp add: unat_sub_if')
qed

lemma in_region_shift:
  assumes "k \<le> n" "n \<le> 2 ^ 31"
  shows "in_region (q + of_nat k) (n - k) a \<longleftrightarrow> in_region q n a \<and> \<not> in_region q k a"
proof -
  have e: "a - (q + of_nat k) = (a - q) - of_nat k" by simp
  have "k < 2 ^ 32" using assms by simp
  from unat_minus_of_nat[OF this, of "a - q"] show ?thesis
    using assms by (auto simp: in_region_def e)
qed

lemma block_copy_step:
  assumes "k \<le> n" "n \<le> 2 ^ 31" "disjoint_regions p q n"
  shows "block_copy (p + of_nat k) (q + of_nat k) (n - k) (block_copy p q k m) = block_copy p q n m"
proof
  fix a
  have src: "\<not> in_region q k (p + (a - q))" if "in_region q n a"
  proof -
    have "in_region p n (p + (a - q))" using that by (simp add: in_region_def)
    then have "\<not> in_region q n (p + (a - q))" using assms(3) by (simp add: disjoint_regions_def)
    then show ?thesis using assms(1) by (simp add: in_region_def)
  qed
  have mono: "in_region q k a \<Longrightarrow> in_region q n a" using assms(1) by (simp add: in_region_def)
  have e: "p + of_nat k + (a - (q + of_nat k)) = p + (a - q)" by simp
  show "block_copy (p + of_nat k) (q + of_nat k) (n - k) (block_copy p q k m) a
    = block_copy p q n m a"
    using src mono in_region_shift[OF assms(1,2), of q a]
    unfolding block_copy_def e by auto
qed

lemma disjoint_regions_shift:
  assumes "k \<le> n" "n \<le> 2 ^ 31" "disjoint_regions p q n"
  shows "disjoint_regions (p + of_nat k) (q + of_nat k) (n - k)"
  using assms(3) in_region_shift[OF assms(1,2)] by (auto simp: disjoint_regions_def)

lemma block_copy_none [simp]: "block_copy p q 0 m = m"
  by (auto simp: block_copy_def in_region_def fun_eq_iff)

lemma in_region_1: "in_region q 1 a \<longleftrightarrow> a = q"
  by (simp add: in_region_def unat_eq_0)

lemma copy_byte_block: "m(q := m p) = block_copy p q 1 m"
  by (auto simp: block_copy_def in_region_1 fun_eq_iff simp del: One_nat_def)

lemma in_region_4: "in_region q 4 a \<longleftrightarrow> a = q \<or> a = q + 1 \<or> a = q + 2 \<or> a = q + 3"
proof -
  have "in_region q 4 a \<longleftrightarrow> unat (a - q) \<in> {0, 1, 2, 3}"
    by (auto simp: in_region_def)
  also have "\<dots> \<longleftrightarrow> a - q \<in> {0, 1, 2, 3}"
    by (simp add: word_unat_eq_iff)
  also have "\<dots> \<longleftrightarrow> a = q \<or> a = q + 1 \<or> a = q + 2 \<or> a = q + 3"
    by (auto simp: algebra_simps)
  finally show ?thesis .
qed

lemma load32_bytes:
  "ucast (load32 p m) = m p" "ucast (drop_bit 8 (load32 p m)) = m (p + 1)"
  "ucast (drop_bit 16 (load32 p m)) = m (p + 2)" "ucast (drop_bit 24 (load32 p m)) = m (p + 3)"
  by (rule bit_word_eqI; auto simp: load32_def bit_simps dest: bit_imp_le_length)+

lemma copy_word_block: "store32 q (load32 p m) m = block_copy p q 4 m"
proof
  fix a
  have ne: "q \<noteq> q + 1" "q \<noteq> q + 2" "q \<noteq> q + 3" "q + 1 \<noteq> q + 2" "q + 1 \<noteq> q + 3" "q + 2 \<noteq> q + 3"
    by simp_all
  show "store32 q (load32 p m) m a = block_copy p q 4 m a"
    unfolding store32_def load32_bytes block_copy_def in_region_4
    using ne by (auto simp: fun_upd_apply)
qed

lemma copy_bytes_block:
  "disjoint_regions p q (nat sz) \<Longrightarrow> sz \<le> 2 ^ 31 \<Longrightarrow> copy_bytes p q sz m = block_copy p q (nat sz) m"
proof (induction p q sz m rule: copy_bytes.induct)
  case (1 p q sz m)
  show ?case
  proof (cases "0 < sz")
    case True
    have n: "1 \<le> nat sz" "nat sz \<le> 2 ^ 31" "nat (sz - 1) = nat sz - 1" using True "1.prems" by auto
    have "copy_bytes p q sz m = copy_bytes (p + 1) (q + 1) (sz - 1) (m(q := m p))"
      using True by (subst copy_bytes.simps) simp
    also have "\<dots> = block_copy (p + 1) (q + 1) (nat sz - 1) (m(q := m p))"
      unfolding n(3)[symmetric]
      by (rule "1.IH"[OF True])
         (use disjoint_regions_shift[OF n(1,2) "1.prems"(1)] "1.prems"(2) n(3) in simp_all)
    also have "\<dots> = block_copy p q (nat sz) m"
      using block_copy_step[OF n(1,2) "1.prems"(1), of m] by (simp add: copy_byte_block del: One_nat_def)
    finally show ?thesis .
  next
    case False
    then show ?thesis by (subst copy_bytes.simps) simp
  qed
qed

lemma copy_words_block:
  "disjoint_regions p q (nat sz) \<Longrightarrow> sz \<le> 2 ^ 31 \<Longrightarrow> copy_words p q sz m = (p', q', sz', m')
    \<Longrightarrow> copy_bytes p' q' sz' m' = block_copy p q (nat sz) m"
proof (induction p q sz m rule: copy_words.induct)
  case (1 p q sz m)
  show ?case
  proof (cases "4 < sz")
    case True
    have n: "4 \<le> nat sz" "nat sz \<le> 2 ^ 31" "nat (sz - 4) = nat sz - 4" using True "1.prems" by auto
    have "copy_words (p + 4) (q + 4) (sz - 4) (store32 q (load32 p m) m) = (p', q', sz', m')"
      using "1.prems"(3) True by (subst (asm) copy_words.simps) simp
    then have "copy_bytes p' q' sz' m' = block_copy (p + 4) (q + 4) (nat sz - 4) (store32 q (load32 p m) m)"
      using "1.IH"[OF True] disjoint_regions_shift[OF n(1,2) "1.prems"(1)] "1.prems"(2) n(3) by simp
    also have "\<dots> = block_copy p q (nat sz) m"
      using block_copy_step[OF n(1,2) "1.prems"(1), of m] by (simp add: copy_word_block)
    finally show ?thesis .
  next
    case False
    then have "copy_words p q sz m = (p, q, sz, m)" by (subst copy_words.simps) simp
    then show ?thesis using copy_bytes_block "1.prems" by simp
  qed
qed

text \<open>
  C37: The three copy routines move four bytes at a time and then the rest byte by byte; on
  disjoint regions they all have the effect of a block copy of \<open>size\<close> bytes (nothing for a
  size that is not positive), and touch no byte outside the destination.
\<close>

theorem copy_routines_block_copy:
  assumes "disjoint_regions start dest (nat n)" "n \<le> 2 ^ 31"
  shows "copy_data start dest n m = block_copy start dest (nat n) m
    \<and> copy_from_user start dest n m = (0, block_copy start dest (nat n) m)
    \<and> copy_to_user start dest n m = (0, block_copy start dest (nat n) m)"
proof -
  obtain p q k m' where c: "copy_words start dest n m = (p, q, k, m')" by (metis prod_cases4)
  from copy_words_block[OF assms c] show ?thesis
    by (simp add: copy_data_def copy_from_user_def copy_to_user_def c)
qed

lemma regions_0_100: "disjoint_regions 0 100 7"
proof -
  have "\<not> unat (a - 100) < 7" if "unat (a::DWord) < 7" for a
    using that by (simp add: unat_sub_if')
  then show ?thesis by (simp add: disjoint_regions_def in_region_def)
qed

theorem copy_routines_block_copy_witness:
  "disjoint_regions 0 100 7
    \<and> copy_data 0 100 7 (\<lambda>a. ucast a + 1) = block_copy 0 100 7 (\<lambda>a. ucast a + 1)
    \<and> block_copy 0 100 7 (\<lambda>a. ucast a + 1) 106 = (7 :: Byte)"
  using copy_routines_block_copy[of 0 100 7 "\<lambda>a. ucast a + 1"] regions_0_100
  by (simp add: block_copy_def in_region_def)

section \<open>User pointers\<close>

definition VERIFY_READ :: int where "VERIFY_READ = 0"
definition VERIFY_WRITE :: int where "VERIFY_WRITE = 1"

text \<open>\<open>include/mm_address.h\<close>\<close>

definition TOTAL_PAGES :: nat where "TOTAL_PAGES = 1024"
definition NUM_PAG_KERNEL :: nat where "NUM_PAG_KERNEL = 256"
definition PAG_LOG_INIT_CODE :: nat where "PAG_LOG_INIT_CODE = 256"
definition NUM_PAG_CODE :: nat where "NUM_PAG_CODE = 8"
definition PAG_LOG_INIT_DATA :: nat where "PAG_LOG_INIT_DATA = PAG_LOG_INIT_CODE + NUM_PAG_CODE"
definition NUM_PAG_DATA :: nat where "NUM_PAG_DATA = 20"
definition USER_FIRST_PAGE :: nat where "USER_FIRST_PAGE = 256"

lemmas layout_defs = TOTAL_PAGES_def NUM_PAG_KERNEL_def PAG_LOG_INIT_CODE_def NUM_PAG_CODE_def
  PAG_LOG_INIT_DATA_def NUM_PAG_DATA_def USER_FIRST_PAGE_def

text \<open>The \<open>switch\<close> of \<open>access_ok\<close> falls through from \<open>VERIFY_WRITE\<close> to the default case.\<close>

definition access_ok :: "int \<Rightarrow> DWord \<Rightarrow> DWord \<Rightarrow> bool" where
  "access_ok type addr sz =
     (let addr_ini = unat (drop_bit 12 addr); addr_fin = unat (drop_bit 12 (addr + sz)) in
      if addr_fin < addr_ini then False
      else if type = VERIFY_WRITE \<and> USER_FIRST_PAGE + NUM_PAG_CODE \<le> addr_ini
              \<and> addr_fin \<le> USER_FIRST_PAGE + NUM_PAG_CODE + NUM_PAG_DATA then True
      else if USER_FIRST_PAGE \<le> addr_ini
              \<and> addr_fin \<le> USER_FIRST_PAGE + NUM_PAG_CODE + NUM_PAG_DATA then True
      else False)"

lemma unat_page: "unat (drop_bit 12 (a::DWord)) = unat a div 4096"
  by (simp only: unat_drop_bit_eq) (simp add: drop_bit_eq_div)

lemma access_ok_iff:
  assumes "unat addr + unat sz < 2 ^ 32"
  shows "access_ok type addr sz \<longleftrightarrow> 256 \<le> unat addr div 4096 \<and> (unat addr + unat sz) div 4096 \<le> 284"
proof -
  have "unat (addr + sz) = unat addr + unat sz"
    using assms by (simp add: unat_add_lem[THEN iffD1])
  moreover have "unat addr div 4096 \<le> (unat addr + unat sz) div 4096" by (simp add: div_le_mono)
  ultimately show ?thesis by (auto simp: access_ok_def Let_def unat_page layout_defs)
qed



section \<open>Ticks\<close>

definition CYCLESPERTICK :: DWord where "CYCLESPERTICK = 109000"

text \<open>
  The 80386 instruction \<open>divl\<close>: divides \<open>upper:low\<close> by a 32-bit value; a zero divisor or a
  quotient over 32 bits is a divide error.
\<close>

definition divl :: "DWord \<Rightarrow> DWord \<Rightarrow> DWord \<Rightarrow> (DWord \<times> DWord) option" where
  "divl upper low base =
     (let n = unat upper * 2 ^ 32 + unat low in
      if base = 0 \<or> 2 ^ 32 \<le> n div unat base then None
      else Some (of_nat (n div unat base), of_nat (n mod unat base)))"

text \<open>The macro \<open>do_div\<close>: the new dividend and the remainder.\<close>

definition do_div :: "u64 \<Rightarrow> DWord \<Rightarrow> (u64 \<times> DWord) option" where
  "do_div n base =
     (let low = ucast n; high = ucast (drop_bit 32 n) :: DWord;
          upper = (if high \<noteq> 0 then high mod base else high);
          high' = (if high \<noteq> 0 then high div base else high)
      in case divl upper low base of
           None \<Rightarrow> None
         | Some (q, r) \<Rightarrow> Some (push_bit 32 (ucast high') OR ucast q, r))"

lemma schoolbook_division:
  fixes b h l :: nat
  assumes "0 < b" "l < 2 ^ 32"
  shows "(h mod b * 2 ^ 32 + l) div b < 2 ^ 32"
    and "(h * 2 ^ 32 + l) div b = h div b * 2 ^ 32 + (h mod b * 2 ^ 32 + l) div b"
    and "(h * 2 ^ 32 + l) mod b = (h mod b * 2 ^ 32 + l) mod b"
proof -
  have "h mod b * 2 ^ 32 + l < (h mod b + 1) * 2 ^ 32" using assms(2) by simp
  also have "\<dots> \<le> b * 2 ^ 32" using assms(1) by (intro mult_right_mono) (simp_all add: Suc_leI)
  finally show "(h mod b * 2 ^ 32 + l) div b < 2 ^ 32"
    by (simp add: less_mult_imp_div_less mult.commute)
  have e: "h * 2 ^ 32 + l = b * (h div b * 2 ^ 32) + (h mod b * 2 ^ 32 + l)"
    using div_mult_mod_eq[of h b] by (metis add.assoc add_mult_distrib mult.assoc mult.commute)
  show "(h * 2 ^ 32 + l) div b = h div b * 2 ^ 32 + (h mod b * 2 ^ 32 + l) div b"
    unfolding e using assms(1) by simp
  show "(h * 2 ^ 32 + l) mod b = (h mod b * 2 ^ 32 + l) mod b"
    unfolding e by simp
qed

lemma split_u64:
  fixes n :: u64
  shows "unat n = unat (ucast (drop_bit 32 n) :: DWord) * 2 ^ 32 + unat (ucast n :: DWord)"
proof -
  have "unat (ucast (drop_bit 32 n) :: DWord) = unat n div 2 ^ 32"
    using unsigned_less[of n, where ?'a = nat]
    by (simp only: unsigned_ucast_eq unat_drop_bit_eq)
       (simp add: drop_bit_eq_div take_bit_nat_eq_self less_mult_imp_div_less)
  moreover have "unat (ucast n :: DWord) = unat n mod 2 ^ 32"
    by (simp add: unsigned_ucast_eq take_bit_eq_mod)
  ultimately show ?thesis by simp
qed

lemma join_u64:
  fixes h q :: DWord
  shows "unat (push_bit 32 (ucast h) OR ucast q :: u64) = unat h * 2 ^ 32 + unat q"
proof -
  let ?w = "push_bit 32 (ucast h) OR ucast q :: u64"
  have "ucast (drop_bit 32 ?w) = h" "ucast ?w = q"
    by (rule bit_word_eqI; auto simp: bit_simps dest: bit_imp_le_length)+
  with split_u64[of ?w] show ?thesis by simp
qed

lemma do_div_total:
  assumes "base \<noteq> 0"
  shows "\<exists>q r. do_div n base = Some (q, r)
    \<and> unat q = unat n div unat base \<and> unat r = unat n mod unat base"
proof -
  define h l where "h = (ucast (drop_bit 32 n) :: DWord)" and "l = (ucast n :: DWord)"
  have n: "unat n = unat h * 2 ^ 32 + unat l" unfolding h_def l_def by (rule split_u64)
  have b: "0 < unat base" "unat l < 2 ^ 32" using assms unsigned_less[of l, where ?'a = nat] by (simp_all add: unat_gt_0)
  note school = schoolbook_division[OF b, of "unat h"]
  have up: "(if h \<noteq> 0 then h mod base else h) = h mod base" "(if h \<noteq> 0 then h div base else h) = h div base"
    by auto
  let ?m = "unat h mod unat base * 2 ^ 32 + unat l"
  have "divl (h mod base) l base = Some (of_nat (?m div unat base), of_nat (?m mod unat base))"
    using assms school(1) by (simp add: divl_def Let_def unat_mod_distrib)
  then have run: "do_div n base = Some (push_bit 32 (ucast (h div base)) OR ucast (of_nat (?m div unat base) :: DWord),
      of_nat (?m mod unat base))"
    unfolding do_div_def Let_def h_def[symmetric] l_def[symmetric] up by simp
  have "unat (of_nat (?m div unat base) :: DWord) = ?m div unat base"
    using school(1) by (simp add: unat_of_nat take_bit_nat_eq_self)
  then have q: "unat (push_bit 32 (ucast (h div base)) OR ucast (of_nat (?m div unat base) :: DWord) :: u64)
      = unat n div unat base"
    unfolding join_u64 n school(2) by (simp add: unat_div_distrib)
  have "?m mod unat base < 2 ^ 32"
    using mod_less_divisor[OF b(1), of ?m] unsigned_less[of base, where ?'a = nat] by simp
  then have r: "unat (of_nat (?m mod unat base) :: DWord) = unat n mod unat base"
    unfolding n school(3) by (simp add: unat_of_nat take_bit_nat_eq_self)
  show ?thesis using run q r by blast
qed

text \<open>
  The division macro \<open>do_div\<close>, which divides the high word first and feeds its remainder to
  one \<open>divl\<close>, computes the full 64-bit quotient and the remainder, and its \<open>divl\<close> never raises
  the divide error, for every dividend and every divisor other than zero.
\<close>

theorem do_div_is_division:
  assumes "base \<noteq> 0"
  shows "\<exists>q r. do_div n base = Some (q, r)
    \<and> unat q = unat n div unat base \<and> unat r = unat n mod unat base"
  using assms by (rule do_div_total)

theorem do_div_is_division_witness:
  "\<exists>q r. do_div 0x123456789AB 109000 = Some (q, r) \<and> unat q = 11477063 \<and> unat r = 29491"
  using do_div_is_division[of 109000 "0x123456789AB"] by simp

text \<open>\<open>get_ticks\<close> on the value the processor's counter has when \<open>rdtsc\<close> reads it.\<close>

definition get_ticks :: "u64 \<Rightarrow> DWord option" where
  "get_ticks tsc =
     (let eax = ucast tsc :: DWord; edx = ucast (drop_bit 32 tsc) :: DWord;
          ticks = push_bit 32 (ucast edx) + ucast eax :: u64
      in case do_div ticks CYCLESPERTICK of None \<Rightarrow> None | Some (ticks', _) \<Rightarrow> Some (ucast ticks'))"

definition ticks_of :: "u64 \<Rightarrow> DWord" where
  "ticks_of tsc = of_nat (unat tsc div 109000)"

lemma get_ticks_eq: "get_ticks tsc = Some (ticks_of tsc)"
proof -
  let ?edx = "ucast (drop_bit 32 tsc) :: DWord" and ?eax = "ucast tsc :: DWord"
  have "unat (push_bit 32 (ucast ?edx) OR ucast ?eax :: u64) = unat tsc"
    unfolding join_u64 by (rule split_u64[symmetric])
  moreover have "push_bit 32 (ucast ?edx) + ucast ?eax = (push_bit 32 (ucast ?edx) OR ucast ?eax :: u64)"
    by (rule disjunctive_add_eq_or) (rule bit_word_eqI, auto simp: bit_simps)
  ultimately have t: "push_bit 32 (ucast ?edx) + ucast ?eax = tsc" by (simp add: word_unat_eq_iff)
  obtain q r where d: "do_div tsc CYCLESPERTICK = Some (q, r)" "unat q = unat tsc div 109000"
    using do_div_total[of CYCLESPERTICK tsc] by (auto simp: CYCLESPERTICK_def)
  have "ucast q = (of_nat (unat q) :: DWord)" by simp
  with d t show ?thesis by (simp add: get_ticks_def Let_def ticks_of_def)
qed

text \<open>\<open>p_stats.c\<close>: \<open>*v\<close>, \<open>*elapsed\<close> and the tick count read.\<close>

definition update_stats :: "DWord \<Rightarrow> DWord \<Rightarrow> DWord \<Rightarrow> DWord \<times> DWord" where
  "update_stats v elapsed current_ticks = (v + (current_ticks - elapsed), current_ticks)"

end
