(* ===== verification/Paging.thy ===== *)
theory Paging
  imports Utils
begin

text \<open>
  \<open>mm.c\<close>: the byte map of physical frames with its first-fit allocator, the page tables of the
  processes and the operations on their entries, and the initialisation of both. A page table
  entry is the 32-bit word of the union \<open>page_table_entry\<close> with its bit fields; a pointer to a
  page table is the index of that table in \<open>pagusr_table\<close>, a pointer to a directory the index
  in \<open>dir_pages\<close>.
\<close>

section \<open>State\<close>

definition NR_TASKS :: nat where "NR_TASKS = 10"
definition ENTRY_DIR_PAGES :: nat where "ENTRY_DIR_PAGES = 0"
definition FREE_FRAME :: Byte where "FREE_FRAME = 0"
definition USED_FRAME :: Byte where "USED_FRAME = 1"

type_synonym page_table = "nat \<Rightarrow> DWord"

text \<open>A directory entry: the page table its \<open>pbase_addr\<close> points to and the flag bits it sets.\<close>

record dir_entry =
  de_table :: nat
  de_user :: bool
  de_rw :: bool
  de_present :: bool

record mm_state =
  phys_mem :: "nat \<Rightarrow> Byte"
  dir_pages :: "nat \<Rightarrow> nat \<Rightarrow> dir_entry"
  pagusr_table :: "nat \<Rightarrow> page_table"
  frame_mem :: "nat \<Rightarrow> nat \<Rightarrow> DWord"  \<comment> \<open>the 1024 words of each physical frame\<close>

section \<open>Frames\<close>

definition init_frames :: "(nat \<Rightarrow> Byte) \<Rightarrow> DWord \<times> (nat \<Rightarrow> Byte)" where
  "init_frames pm =
     (0, fold (\<lambda>i pm. pm(i := USED_FRAME)) [0..<NUM_PAG_KERNEL]
           (fold (\<lambda>i pm. pm(i := FREE_FRAME)) [0..<TOTAL_PAGES] pm))"

text \<open>The loop of \<open>alloc_frame\<close>: from frame \<open>i\<close>, in steps of two.\<close>

function alloc_frame_from :: "nat \<Rightarrow> (nat \<Rightarrow> Byte) \<Rightarrow> DWord \<times> (nat \<Rightarrow> Byte)" where
  "alloc_frame_from i pm =
     (if i < TOTAL_PAGES
      then if pm i = FREE_FRAME then (of_nat i, pm(i := USED_FRAME)) else alloc_frame_from (i + 2) pm
      else (-1, pm))"
  by pat_completeness auto
termination by (relation "measure (\<lambda>(i, pm). TOTAL_PAGES - i)") auto

declare alloc_frame_from.simps [simp del]

definition alloc_frame :: "(nat \<Rightarrow> Byte) \<Rightarrow> DWord \<times> (nat \<Rightarrow> Byte)" where
  "alloc_frame pm = alloc_frame_from NUM_PAG_KERNEL pm"

definition free_frame :: "DWord \<Rightarrow> (nat \<Rightarrow> Byte) \<Rightarrow> (nat \<Rightarrow> Byte)" where
  "free_frame frame pm =
     (if NUM_PAG_KERNEL < unat frame \<and> unat frame < TOTAL_PAGES then pm(unat frame := FREE_FRAME) else pm)"

text \<open>The frames the allocator can ever hand out.\<close>

definition pool :: "nat set" where
  "pool = {f. NUM_PAG_KERNEL \<le> f \<and> f < TOTAL_PAGES \<and> even f}"

definition free_frames :: "(nat \<Rightarrow> Byte) \<Rightarrow> nat set" where
  "free_frames pm = {f \<in> pool. pm f = FREE_FRAME}"

lemma pool_bounds: "f \<in> pool \<Longrightarrow> 256 \<le> f \<and> f < 1024"
  by (simp add: pool_def layout_defs)

lemma finite_pool [simp]: "finite pool"
  by (rule finite_subset[of _ "{..<1024}"]) (auto dest: pool_bounds)

lemma finite_free_frames [simp]: "finite (free_frames pm)"
  by (simp add: free_frames_def)

lemma pool_as_image: "pool = (\<lambda>k. 256 + 2 * k) ` {..<384}"
proof
  show "pool \<subseteq> (\<lambda>k. 256 + 2 * k) ` {..<384}"
  proof
    fix f assume "f \<in> pool"
    then obtain j where "f = 2 * j" "256 \<le> f" "f < 1024"
      by (auto simp: pool_def layout_defs elim: evenE)
    then show "f \<in> (\<lambda>k. 256 + 2 * k) ` {..<384}" by (intro image_eqI[of _ _ "j - 128"]) auto
  qed
qed (auto simp: pool_def layout_defs)

lemma card_pool: "card pool = 384"
  unfolding pool_as_image by (subst card_image) (auto simp: inj_on_def)

lemma frame_word: "f \<in> pool \<Longrightarrow> unat (of_nat f :: DWord) = f"
  using pool_bounds[of f] by (simp add: unat_of_nat take_bit_nat_eq_self)

lemma frame_word_not_error: "f \<in> pool \<Longrightarrow> (of_nat f :: DWord) \<noteq> -1"
proof
  assume "f \<in> pool" "(of_nat f :: DWord) = -1"
  then have "f = unat (-1 :: DWord)" using frame_word[of f] by simp
  then show False using \<open>f \<in> pool\<close> pool_bounds[of f] by (simp add: unsigned_minus_1_eq_mask mask_eq_exp_minus_1)
qed

text \<open>The search, over the candidates from \<open>i\<close> on.\<close>

definition candidates :: "nat \<Rightarrow> (nat \<Rightarrow> Byte) \<Rightarrow> nat set" where
  "candidates i pm = {f. i \<le> f \<and> f < TOTAL_PAGES \<and> even (f - i) \<and> pm f = FREE_FRAME}"

lemma candidates_step:
  assumes "i < TOTAL_PAGES" "pm i \<noteq> FREE_FRAME"
  shows "candidates i pm = candidates (i + 2) pm"
proof -
  have "i + 2 \<le> f" if "i \<le> f" "even (f - i)" "pm f = FREE_FRAME" for f
    using that assms(2) by (cases "f = i"; cases "f = Suc i") auto
  moreover have "even (f - (i + 2)) \<longleftrightarrow> even (f - i)" if "i + 2 \<le> f" for f
    using that by presburger
  ultimately show ?thesis by (auto simp: candidates_def)
qed

lemma alloc_frame_from_first:
  "alloc_frame_from i pm =
     (if candidates i pm = {} then (-1, pm)
      else (of_nat (Min (candidates i pm)), pm(Min (candidates i pm) := USED_FRAME)))"
proof (induction i pm rule: alloc_frame_from.induct)
  case (1 i pm)
  consider "\<not> i < TOTAL_PAGES" | "i < TOTAL_PAGES" "pm i = FREE_FRAME"
    | "i < TOTAL_PAGES" "pm i \<noteq> FREE_FRAME" by blast
  then show ?case
  proof cases
    case 1
    then show ?thesis by (auto simp: alloc_frame_from.simps[of i pm] candidates_def)
  next
    case 2
    then have "i \<in> candidates i pm" by (simp add: candidates_def)
    moreover have "Min (candidates i pm) = i"
      using calculation by (intro Min_eqI) (auto simp: candidates_def)
    ultimately show ?thesis using 2 by (auto simp: alloc_frame_from.simps[of i pm])
  next
    case 3
    then have step: "alloc_frame_from i pm = alloc_frame_from (i + 2) pm"
      by (subst alloc_frame_from.simps) simp
    show ?thesis unfolding step candidates_step[where i = i and pm = pm, OF 3] by (rule "1.IH"[OF 3])
  qed
qed

lemma candidates_pool: "candidates NUM_PAG_KERNEL pm = free_frames pm"
  by (auto simp: candidates_def free_frames_def pool_def layout_defs)

lemma alloc_frame_first:
  "alloc_frame pm =
     (if free_frames pm = {} then (-1, pm)
      else (of_nat (Min (free_frames pm)), pm(Min (free_frames pm) := USED_FRAME)))"
  by (simp add: alloc_frame_def alloc_frame_from_first candidates_pool)

subsection \<open>The allocator as a pool of frames\<close>

text \<open>Allocating up to \<open>n\<close> frames, stopping at the first failure, as the loops of the kernel do.\<close>

fun alloc_seq :: "('s \<Rightarrow> DWord \<times> 's) \<Rightarrow> nat \<Rightarrow> 's \<Rightarrow> DWord list \<times> 's" where
  "alloc_seq alloc 0 s = ([], s)"
| "alloc_seq alloc (Suc n) s =
     (case alloc s of (fr, s1) \<Rightarrow>
        if fr = -1 then ([], s1)
        else case alloc_seq alloc n s1 of (frs, s2) \<Rightarrow> (fr # frs, s2))"

lemma alloc_seq_snoc:
  "alloc_seq alloc n s = (frs, s') \<Longrightarrow> length frs = n \<Longrightarrow> alloc s' = (fr, s'') \<Longrightarrow> fr \<noteq> -1
    \<Longrightarrow> alloc_seq alloc (Suc n) s = (frs @ [fr], s'')"
proof (induction n arbitrary: s frs)
  case 0
  then show ?case by simp
next
  case (Suc n)
  obtain f s1 frs' where "alloc s = (f, s1)" "f \<noteq> -1" "alloc_seq alloc n s1 = (frs', s')" "frs = f # frs'"
    using Suc.prems(1,2) by (auto split: prod.splits if_splits)
  moreover from this have "alloc_seq alloc (Suc n) s1 = (frs' @ [fr], s'')"
    using Suc.IH[of s1 frs'] Suc.prems by simp
  ultimately show ?case by (simp del: alloc_seq.simps(2) add: alloc_seq.simps(2)[of alloc "Suc n" s])
qed

locale frame_pool =
  fixes alloc :: "'s \<Rightarrow> DWord \<times> 's"
    and release :: "DWord \<Rightarrow> 's \<Rightarrow> 's"
    and avail :: "'s \<Rightarrow> nat set"
    and releasable :: "nat set"
  assumes avail_finite: "finite (avail s)"
    and avail_word: "f \<in> avail s \<Longrightarrow> unat (of_nat f :: DWord) = f \<and> (of_nat f :: DWord) \<noteq> -1"
    and alloc_none: "avail s = {} \<Longrightarrow> alloc s = (-1, s)"
    and alloc_some: "avail s \<noteq> {} \<Longrightarrow>
          \<exists>f s'. f \<in> avail s \<and> alloc s = (of_nat f, s') \<and> avail s' = avail s - {f}"
    and release_in: "f \<in> releasable \<Longrightarrow> avail (release (of_nat f) s) = insert f (avail s)"
begin

lemma alloc_success: "fst (alloc s) \<noteq> -1 \<longleftrightarrow> avail s \<noteq> {}"
proof (cases "avail s = {}")
  case True
  then show ?thesis by (simp add: alloc_none)
next
  case False
  then obtain f s' where "f \<in> avail s" "alloc s = (of_nat f, s')" using alloc_some by blast
  then show ?thesis using False avail_word[of f s] by simp
qed

lemma alloc_seq_frames:
  "alloc_seq alloc n s = (frs, s') \<Longrightarrow>
     length frs = min n (card (avail s)) \<and> distinct (map unat frs)
     \<and> set (map unat frs) \<subseteq> avail s \<and> avail s' = avail s - set (map unat frs)"
proof (induction n arbitrary: s frs)
  case 0
  then show ?case by auto
next
  case (Suc n)
  show ?case
  proof (cases "avail s = {}")
    case True
    then show ?thesis using Suc.prems by (simp add: alloc_none)
  next
    case False
    then obtain f s1 where f: "f \<in> avail s" "alloc s = (of_nat f, s1)" "avail s1 = avail s - {f}"
      using alloc_some by blast
    obtain frs' where frs': "alloc_seq alloc n s1 = (frs', s')" "frs = of_nat f # frs'"
      using Suc.prems f avail_word[OF f(1)] by (auto split: prod.splits)
    have "card (avail s) = Suc (card (avail s1))"
      unfolding f(3) by (rule card_Suc_Diff1[OF avail_finite f(1), symmetric])
    moreover have "length frs' = min n (card (avail s1))" "distinct (map unat frs')"
      "set (map unat frs') \<subseteq> avail s1" "avail s' = avail s1 - set (map unat frs')"
      using Suc.IH[OF frs'(1)] by blast+
    moreover have "unat (of_nat f :: DWord) = f" using avail_word[OF f(1)] by blast
    ultimately show ?thesis unfolding frs'(2) f(3) using f(1) by auto
  qed
qed

lemma alloc_after_release:
  "f \<in> releasable \<Longrightarrow> fst (alloc (release (of_nat f) s)) \<noteq> -1"
  unfolding alloc_success by (simp add: release_in)

end

lemma free_frames_use: "f \<in> free_frames pm \<Longrightarrow> free_frames (pm(f := USED_FRAME)) = free_frames pm - {f}"
  by (auto simp: free_frames_def FREE_FRAME_def USED_FRAME_def)

lemma free_frame_in:
  assumes "f \<in> pool - {NUM_PAG_KERNEL}"
  shows "free_frame (of_nat f) pm = pm(f := FREE_FRAME)"
  using assms frame_word[of f] by (auto simp: free_frame_def pool_def)

interpretation frames: frame_pool alloc_frame free_frame free_frames "pool - {NUM_PAG_KERNEL}"
proof unfold_locales
  fix f and pm :: "nat \<Rightarrow> Byte" assume "f \<in> free_frames pm"
  then show "unat (of_nat f :: DWord) = f \<and> (of_nat f :: DWord) \<noteq> -1"
    by (auto simp: free_frames_def frame_word frame_word_not_error)
next
  fix pm :: "nat \<Rightarrow> Byte" assume ne: "free_frames pm \<noteq> {}"
  then have "Min (free_frames pm) \<in> free_frames pm" by (intro Min_in) auto
  then show "\<exists>f s'. f \<in> free_frames pm \<and> alloc_frame pm = (of_nat f, s') \<and> free_frames s' = free_frames pm - {f}"
    using ne alloc_frame_first[of pm] free_frames_use[of "Min (free_frames pm)" pm] by metis
next
  fix f and pm :: "nat \<Rightarrow> Byte" assume "f \<in> pool - {NUM_PAG_KERNEL}"
  then show "free_frames (free_frame (of_nat f) pm) = insert f (free_frames pm)"
    unfolding free_frame_in[OF \<open>f \<in> _\<close>] by (auto simp: free_frames_def)
qed (simp_all add: alloc_frame_first)

text \<open>
  C35: \<open>alloc_frame\<close> returns the lowest free frame among the even frames 256, 258, ..., 1022 (the
  holes its comment announces), marks that frame and no other as used, and returns -1 with the
  byte map unchanged exactly when all 384 of those are used: an odd frame is never allocated,
  whether it is free or not.
\<close>

theorem alloc_frame_lowest_even:
  "alloc_frame pm =
     (let free = {f. 256 \<le> f \<and> f < 1024 \<and> even f \<and> pm f = FREE_FRAME} in
      if free = {} then (-1, pm) else (of_nat (Min free), pm(Min free := USED_FRAME)))"
proof -
  have "{f. 256 \<le> f \<and> f < 1024 \<and> even f \<and> pm f = FREE_FRAME} = free_frames pm"
    by (auto simp: free_frames_def pool_def layout_defs)
  then show ?thesis by (simp add: alloc_frame_first Let_def)
qed

text \<open>
  C36: Freeing the frame an allocation has just returned gives back the byte map of before the
  allocation, for every frame but 256: the test \<open>frame > NUM_PAG_KERNEL\<close> of \<open>free_frame\<close> makes
  the release of frame 256 have no effect, so the first frame of the user area, once
  allocated, is never available again.
\<close>

theorem free_frame_undoes_alloc:
  assumes "alloc_frame pm = (fr, pm')" "fr \<noteq> -1"
  shows "free_frame fr pm' = (if fr = 256 then pm' else pm)"
proof -
  let ?f = "Min (free_frames pm)"
  have ne: "free_frames pm \<noteq> {}" using assms by (auto simp: alloc_frame_first split: if_splits)
  then have f: "?f \<in> free_frames pm" by (intro Min_in) auto
  then have fp: "?f \<in> pool" "pm ?f = FREE_FRAME" by (auto simp: free_frames_def)
  have run: "fr = of_nat ?f" "pm' = pm(?f := USED_FRAME)"
    using assms ne by (auto simp: alloc_frame_first)
  show ?thesis
  proof (cases "?f = 256")
    case True
    then show ?thesis by (simp add: run free_frame_def layout_defs)
  next
    case False
    then have "?f \<in> pool - {NUM_PAG_KERNEL}" using fp by (simp add: layout_defs)
    moreover have "fr \<noteq> 256"
      using False frame_word[OF fp(1)] run(1) by auto
    ultimately show ?thesis using free_frame_in[of ?f pm'] fp(2) run by (simp add: fun_upd_idem)
  qed
qed

text \<open>A byte map with only frame 260 free.\<close>

theorem free_frame_undoes_alloc_witness:
  "alloc_frame ((\<lambda>_. USED_FRAME)(260 := FREE_FRAME)) = (260, \<lambda>_. USED_FRAME)
   \<and> free_frame 260 (\<lambda>_. USED_FRAME) = (\<lambda>_. USED_FRAME)(260 := FREE_FRAME)"
proof -
  let ?pm = "(\<lambda>_. USED_FRAME)(260 := FREE_FRAME)"
  have "free_frames ?pm = {260}"
    by (auto simp: free_frames_def pool_def layout_defs FREE_FRAME_def USED_FRAME_def)
  then have "alloc_frame ?pm = (260, \<lambda>_. USED_FRAME)"
    by (auto simp: alloc_frame_first fun_upd_idem)
  with free_frame_undoes_alloc[OF this] show ?thesis by simp
qed

section \<open>Page table entries\<close>

text \<open>
  The bit fields of \<open>page_table_entry\<close> (\<open>include/types.h\<close>) that the code reads or writes.
\<close>

definition pte_present :: "DWord \<Rightarrow> DWord" where "pte_present = get_bits 0 1"
definition pte_rw :: "DWord \<Rightarrow> DWord" where "pte_rw = get_bits 1 1"
definition pte_user :: "DWord \<Rightarrow> DWord" where "pte_user = get_bits 2 1"
definition pte_pbase_addr :: "DWord \<Rightarrow> DWord" where "pte_pbase_addr = get_bits 12 20"

definition set_present :: "DWord \<Rightarrow> DWord \<Rightarrow> DWord" where "set_present = set_bits 0 1"
definition set_rw :: "DWord \<Rightarrow> DWord \<Rightarrow> DWord" where "set_rw = set_bits 1 1"
definition set_user :: "DWord \<Rightarrow> DWord \<Rightarrow> DWord" where "set_user = set_bits 2 1"
definition set_pbase_addr :: "DWord \<Rightarrow> DWord \<Rightarrow> DWord" where "set_pbase_addr = set_bits 12 20"

lemmas pte_defs = pte_present_def pte_rw_def pte_user_def pte_pbase_addr_def
  set_present_def set_rw_def set_user_def set_pbase_addr_def

definition set_ss_pag :: "page_table \<Rightarrow> nat \<Rightarrow> DWord \<Rightarrow> page_table" where
  "set_ss_pag PT page frame =
     PT(page := set_present 1 (set_rw 1 (set_user 1 (set_pbase_addr frame 0))))"

definition del_ss_pag :: "page_table \<Rightarrow> nat \<Rightarrow> page_table" where
  "del_ss_pag PT logical_page = PT(logical_page := 0)"

definition get_frame :: "page_table \<Rightarrow> nat \<Rightarrow> DWord" where
  "get_frame PT logical_page = pte_pbase_addr (PT logical_page)"

lemma mask_1_one: "(1::DWord) AND mask 1 = 1"
  by (simp add: mask_eq_exp_minus_1)

lemma get_bits_zero [simp]: "get_bits lo n 0 = 0"
  by (simp add: get_bits_def)

lemma get_frame_set:
  "get_frame (set_ss_pag PT page frame) q = (if q = page then frame AND mask 20 else get_frame PT q)"
  by (simp add: get_frame_def set_ss_pag_def pte_defs bitfield_simps)

lemma get_frame_del:
  "get_frame (del_ss_pag PT page) q = (if q = page then 0 else get_frame PT q)"
  by (simp add: get_frame_def del_ss_pag_def pte_defs)

lemma pte_flags_set:
  "pte_present (set_ss_pag PT page frame page) = 1" "pte_rw (set_ss_pag PT page frame page) = 1"
  "pte_user (set_ss_pag PT page frame page) = 1"
  by (simp_all add: set_ss_pag_def pte_defs bitfield_simps mask_1_one)

lemma small_frame: "f < 2 ^ 20 \<Longrightarrow> (of_nat f :: DWord) AND mask 20 = of_nat f"
  by (simp flip: take_bit_eq_mask)
     (simp add: word_unat_eq_iff unsigned_take_bit_eq unat_of_nat take_bit_nat_eq_self)

lemma pool_frame_mask: "f \<in> pool \<Longrightarrow> (of_nat f :: DWord) AND mask 20 = of_nat f"
  using pool_bounds[of f] by (intro small_frame) simp

subsection \<open>An address space as a map\<close>

locale address_space =
  fixes lookup :: "'p \<Rightarrow> nat \<Rightarrow> DWord"
    and map_page :: "'p \<Rightarrow> nat \<Rightarrow> DWord \<Rightarrow> 'p"
    and unmap_page :: "'p \<Rightarrow> nat \<Rightarrow> 'p"
  assumes lookup_map: "lookup (map_page T p f) q = (if q = p then f AND mask 20 else lookup T q)"
    and lookup_unmap: "lookup (unmap_page T p) q = (if q = p then 0 else lookup T q)"
begin

text \<open>Mapping a run of pages from \<open>b\<close> on, and unmapping one.\<close>

lemma lookup_map_run:
  "lookup (fold (\<lambda>i T. map_page T (b + i) (fr i)) [0..<n] T) q =
     (if b \<le> q \<and> q < b + n then fr (q - b) AND mask 20 else lookup T q)"
  by (induction n) (auto simp: lookup_map)

lemma lookup_unmap_run:
  "lookup (fold (\<lambda>i T. unmap_page T (b + i)) [0..<n] T) q =
     (if b \<le> q \<and> q < b + n then 0 else lookup T q)"
  by (induction n) (auto simp: lookup_unmap)

text \<open>A window: each page of a run is mapped, used and unmapped again before the next.\<close>

lemma lookup_window_run:
  "lookup (fold (\<lambda>i T. unmap_page (map_page T (b + i) (fr i)) (b + i)) [0..<n] T) q =
     (if b \<le> q \<and> q < b + n then 0 else lookup T q)"
  by (induction n) (auto simp: lookup_map lookup_unmap)

end

interpretation PT: address_space get_frame set_ss_pag del_ss_pag
  by unfold_locales (simp_all add: get_frame_set get_frame_del)

text \<open>
  An entry written by \<open>set_ss_pag\<close> decodes to a present, writable user page whose frame is the
  one given, cut to the 20 bits of the field; \<open>get_frame\<close> of every other page of the table is
  unchanged, and \<open>del_ss_pag\<close> takes the table back to one that has no entry for the page.
\<close>

theorem page_entry_roundtrip:
  "get_frame (set_ss_pag PT page frame) q = (if q = page then frame AND 0xFFFFF else get_frame PT q)
   \<and> pte_present (set_ss_pag PT page frame page) = 1
   \<and> pte_rw (set_ss_pag PT page frame page) = 1 \<and> pte_user (set_ss_pag PT page frame page) = 1
   \<and> del_ss_pag (set_ss_pag PT page frame) page = PT(page := 0)
   \<and> get_frame (del_ss_pag PT page) q = (if q = page then 0 else get_frame PT q)"
proof -
  have "(mask 20 :: DWord) = 0xFFFFF" by (simp add: mask_eq_exp_minus_1)
  then show ?thesis
    by (simp add: get_frame_set get_frame_del pte_flags_set) (simp add: set_ss_pag_def del_ss_pag_def)
qed

section \<open>Initialisation\<close>

text \<open>One task's directory: entry 0 points to the task's page table.\<close>

definition init_dir_pages :: "mm_state \<Rightarrow> mm_state" where
  "init_dir_pages mm =
     fold (\<lambda>i mm. mm\<lparr>dir_pages := (dir_pages mm)(i := (dir_pages mm i)(ENTRY_DIR_PAGES :=
              \<lparr>de_table = i, de_user = True, de_rw = True, de_present = True\<rparr>))\<rparr>)
       [0..<NR_TASKS] mm"

text \<open>
  \<open>init_table_pages\<close>. The linker places \<open>protected_tasks\<close>; \<open>prot\<close> is the page of its first
  element, and each of its elements is one page.
\<close>

definition init_kernel_entry :: "nat \<Rightarrow> page_table \<Rightarrow> page_table" where
  "init_kernel_entry i PT = PT(i := set_present 1 (set_rw 1 (set_pbase_addr (of_nat i) (PT i))))"

definition init_table :: "nat \<Rightarrow> page_table \<Rightarrow> page_table" where
  "init_table prot PT =
     (let PT = fold (\<lambda>i PT. PT(i := 0)) [0..<TOTAL_PAGES] PT;
          PT = fold init_kernel_entry [1..<NUM_PAG_KERNEL] PT;
          PT = PT(prot := set_present 0 (PT prot))
      in PT(prot + 11 := set_present 0 (PT (prot + 11))))"

definition init_table_pages :: "nat \<Rightarrow> mm_state \<Rightarrow> mm_state" where
  "init_table_pages prot mm =
     fold (\<lambda>j mm. mm\<lparr>pagusr_table := (pagusr_table mm)(j := init_table prot (pagusr_table mm j))\<rparr>)
       [0..<NR_TASKS] mm"

text \<open>\<open>get_PT\<close>: the page table a directory (here by its index) points to.\<close>

definition PT_of_dir :: "mm_state \<Rightarrow> nat \<Rightarrow> nat" where
  "PT_of_dir mm d = de_table (dir_pages mm d ENTRY_DIR_PAGES)"

text \<open>\<open>set_user_pages\<close> on the page table \<open>t\<close>: the loops over the code and the data pages.\<close>

definition set_code_page :: "nat \<Rightarrow> nat \<Rightarrow> mm_state \<Rightarrow> mm_state" where
  "set_code_page t pag mm =
     (case alloc_frame (phys_mem mm) of (new_ph_pag, pm) \<Rightarrow>
        mm\<lparr>phys_mem := pm, pagusr_table := (pagusr_table mm)(t := (pagusr_table mm t)(PAG_LOG_INIT_CODE + pag :=
             set_present 1 (set_user 1 (set_pbase_addr new_ph_pag 0))))\<rparr>)"

definition set_data_page :: "nat \<Rightarrow> nat \<Rightarrow> mm_state \<Rightarrow> mm_state" where
  "set_data_page t pag mm =
     (case alloc_frame (phys_mem mm) of (new_ph_pag, pm) \<Rightarrow>
        mm\<lparr>phys_mem := pm, pagusr_table := (pagusr_table mm)(t := (pagusr_table mm t)(PAG_LOG_INIT_DATA + pag :=
             set_present 1 (set_rw 1 (set_user 1 (set_pbase_addr new_ph_pag 0)))))\<rparr>)"

definition set_user_pages :: "nat \<Rightarrow> mm_state \<Rightarrow> mm_state" where
  "set_user_pages t mm =
     fold (set_data_page t) [0..<NUM_PAG_DATA] (fold (set_code_page t) [0..<NUM_PAG_CODE] mm)"

definition free_user_pages :: "nat \<Rightarrow> mm_state \<Rightarrow> mm_state" where
  "free_user_pages t mm =
     fold (\<lambda>pag mm. mm\<lparr>
         phys_mem := free_frame (pte_pbase_addr (pagusr_table mm t (PAG_LOG_INIT_DATA + pag))) (phys_mem mm),
         pagusr_table := (pagusr_table mm)(t := (pagusr_table mm t)(PAG_LOG_INIT_DATA + pag := 0))\<rparr>)
       [0..<NUM_PAG_DATA] mm"

subsection \<open>What the initialisation establishes\<close>

lemma fold_upd_const: "fold (\<lambda>i g. g(i := c)) [0..<n] g j = (if j < n then c else g j)"
  by (induction n) auto

lemma init_frames_map:
  "snd (init_frames pm) f = (if f < 256 then USED_FRAME else if f < 1024 then FREE_FRAME else pm f)"
  by (simp add: init_frames_def fold_upd_const layout_defs)

lemma init_frames_free: "free_frames (snd (init_frames pm)) = pool"
  by (auto simp: free_frames_def init_frames_map dest: pool_bounds)

lemma init_dir_pages_table:
  "i < NR_TASKS \<Longrightarrow> dir_pages (init_dir_pages mm) i ENTRY_DIR_PAGES =
     \<lparr>de_table = i, de_user = True, de_rw = True, de_present = True\<rparr>"
proof -
  have "dir_pages (fold (\<lambda>i mm. mm\<lparr>dir_pages := (dir_pages mm)(i := (dir_pages mm i)(ENTRY_DIR_PAGES :=
              \<lparr>de_table = i, de_user = True, de_rw = True, de_present = True\<rparr>))\<rparr>) [0..<n] mm) i ENTRY_DIR_PAGES
    = (if i < n then \<lparr>de_table = i, de_user = True, de_rw = True, de_present = True\<rparr>
       else dir_pages mm i ENTRY_DIR_PAGES)" for n
    by (induction n) auto
  then show "i < NR_TASKS \<Longrightarrow> ?thesis" by (simp add: init_dir_pages_def)
qed

lemma init_dir_pages_frame [kframe]:
  "phys_mem (init_dir_pages mm) = phys_mem mm" "pagusr_table (init_dir_pages mm) = pagusr_table mm"
  unfolding init_dir_pages_def
  by (rule fold_preserves[where P = "\<lambda>m. phys_mem m = phys_mem mm"], simp_all)
     (rule fold_preserves[where P = "\<lambda>m. pagusr_table m = pagusr_table mm"], simp_all)

text \<open>A loop that allocates a frame for each page of a run and writes its entry.\<close>

lemma alloc_page_loop:
  assumes body: "\<And>pag mm. body pag mm = (case alloc_frame (phys_mem mm) of (fr, pm) \<Rightarrow>
        mm\<lparr>phys_mem := pm, pagusr_table := (pagusr_table mm)(t := (pagusr_table mm t)(b + pag := e fr))\<rparr>)"
    and "n \<le> card (free_frames (phys_mem mm))"
  shows "\<exists>frs pm'. alloc_seq alloc_frame n (phys_mem mm) = (frs, pm') \<and> length frs = n
    \<and> fold body [0..<n] mm = mm\<lparr>phys_mem := pm', pagusr_table := (pagusr_table mm)(t :=
         \<lambda>q. if b \<le> q \<and> q < b + n then e (frs ! (q - b)) else pagusr_table mm t q)\<rparr>"
  using assms(2)
proof (induction n)
  case 0
  then show ?case by (cases mm) (auto simp: fun_eq_iff)
next
  case (Suc n)
  then have "n \<le> card (free_frames (phys_mem mm))" by simp
  from Suc.IH[OF this] obtain frs pm' where
    IH: "alloc_seq alloc_frame n (phys_mem mm) = (frs, pm')" "length frs = n"
      "fold body [0..<n] mm = mm\<lparr>phys_mem := pm', pagusr_table := (pagusr_table mm)(t :=
         \<lambda>q. if b \<le> q \<and> q < b + n then e (frs ! (q - b)) else pagusr_table mm t q)\<rparr>"
    by blast
  obtain fr pm'' where a: "alloc_frame pm' = (fr, pm'')" by fastforce
  have seq: "free_frames pm' = free_frames (phys_mem mm) - set (map unat frs)"
    "set (map unat frs) \<subseteq> free_frames (phys_mem mm)" "distinct (map unat frs)"
    using frames.alloc_seq_frames[OF IH(1)] by blast+
  then have "card (free_frames pm') = card (free_frames (phys_mem mm)) - n"
    using IH(2) by (simp add: card_Diff_subset distinct_card del: set_map)
  then have "free_frames pm' \<noteq> {}" using Suc.prems by auto
  then have "fr \<noteq> -1" using frames.alloc_success[of pm'] a by simp
  then have seq': "alloc_seq alloc_frame (Suc n) (phys_mem mm) = (frs @ [fr], pm'')"
    using alloc_seq_snoc[OF IH(1,2) a] by blast
  have "fold body [0..<Suc n] mm = mm\<lparr>phys_mem := pm'', pagusr_table := (pagusr_table mm)(t :=
         \<lambda>q. if b \<le> q \<and> q < b + Suc n then e ((frs @ [fr]) ! (q - b)) else pagusr_table mm t q)\<rparr>"
  proof -
    have "fold body [0..<Suc n] mm = body n (fold body [0..<n] mm)" by simp
    also have "\<dots> = mm\<lparr>phys_mem := pm'', pagusr_table := (pagusr_table mm)(t :=
         (\<lambda>q. if b \<le> q \<and> q < b + n then e (frs ! (q - b)) else pagusr_table mm t q)(b + n := e fr))\<rparr>"
      unfolding IH(3) body by (simp add: a)
    also have "(\<lambda>q. if b \<le> q \<and> q < b + n then e (frs ! (q - b)) else pagusr_table mm t q)(b + n := e fr)
      = (\<lambda>q. if b \<le> q \<and> q < b + Suc n then e ((frs @ [fr]) ! (q - b)) else pagusr_table mm t q)"
    proof
      fix q
      show "((\<lambda>q. if b \<le> q \<and> q < b + n then e (frs ! (q - b)) else pagusr_table mm t q)(b + n := e fr)) q
        = (if b \<le> q \<and> q < b + Suc n then e ((frs @ [fr]) ! (q - b)) else pagusr_table mm t q)"
        using IH(2) by (cases "q = b + n") (simp_all add: nth_append, linarith)
    qed
    finally show ?thesis .
  qed
  moreover have "length (frs @ [fr]) = Suc n" using IH(2) by simp
  ultimately show ?case using seq' by blast
qed

lemma set_user_pages_run:
  assumes "28 \<le> card (free_frames (phys_mem mm))"
  shows "\<exists>frs. length frs = 28 \<and> distinct frs \<and> set frs \<subseteq> free_frames (phys_mem mm)
    \<and> free_frames (phys_mem (set_user_pages t mm)) = free_frames (phys_mem mm) - set frs
    \<and> (\<forall>u q. pagusr_table (set_user_pages t mm) u q =
          (if u \<noteq> t \<or> q < 256 \<or> 284 \<le> q then pagusr_table mm u q
           else if q < 264 then set_present 1 (set_user 1 (set_pbase_addr (of_nat (frs ! (q - 256))) 0))
           else set_present 1 (set_rw 1 (set_user 1 (set_pbase_addr (of_nat (frs ! (q - 256))) 0)))))"
proof -
  obtain fc pc where c: "alloc_seq alloc_frame NUM_PAG_CODE (phys_mem mm) = (fc, pc)" "length fc = NUM_PAG_CODE"
      "fold (set_code_page t) [0..<NUM_PAG_CODE] mm = mm\<lparr>phys_mem := pc, pagusr_table := (pagusr_table mm)(t :=
         \<lambda>q. if PAG_LOG_INIT_CODE \<le> q \<and> q < PAG_LOG_INIT_CODE + NUM_PAG_CODE
             then set_present 1 (set_user 1 (set_pbase_addr (fc ! (q - PAG_LOG_INIT_CODE)) 0)) else pagusr_table mm t q)\<rparr>"
    using alloc_page_loop[of "set_code_page t" t PAG_LOG_INIT_CODE "\<lambda>f. set_present 1 (set_user 1 (set_pbase_addr f 0))"
        NUM_PAG_CODE mm] assms by (auto simp: set_code_page_def layout_defs)
  note fc = frames.alloc_seq_frames[OF c(1)]
  define m1 where "m1 = fold (set_code_page t) [0..<NUM_PAG_CODE] mm"
  have "card (set (map unat fc)) = 8" using fc c(2) by (simp add: distinct_card layout_defs del: set_map)
  then have "20 \<le> card (free_frames pc)"
    using fc assms by (simp add: card_Diff_subset del: set_map)
  moreover have "phys_mem m1 = pc" by (simp add: m1_def c(3))
  ultimately have "NUM_PAG_DATA \<le> card (free_frames (phys_mem m1))" by (simp add: layout_defs)
  then obtain fd pd where d: "alloc_seq alloc_frame NUM_PAG_DATA (phys_mem m1) = (fd, pd)" "length fd = NUM_PAG_DATA"
      "fold (set_data_page t) [0..<NUM_PAG_DATA] m1 = m1\<lparr>phys_mem := pd, pagusr_table := (pagusr_table m1)(t :=
         \<lambda>q. if PAG_LOG_INIT_DATA \<le> q \<and> q < PAG_LOG_INIT_DATA + NUM_PAG_DATA
             then set_present 1 (set_rw 1 (set_user 1 (set_pbase_addr (fd ! (q - PAG_LOG_INIT_DATA)) 0)))
             else pagusr_table m1 t q)\<rparr>"
    using alloc_page_loop[of "set_data_page t" t PAG_LOG_INIT_DATA "\<lambda>f. set_present 1 (set_rw 1 (set_user 1 (set_pbase_addr f 0)))"
        NUM_PAG_DATA m1] unfolding set_data_page_def by blast
  note fd = frames.alloc_seq_frames[OF d(1)[unfolded \<open>phys_mem m1 = pc\<close>]]
  have d3: "set_user_pages t mm = fold (set_data_page t) [0..<NUM_PAG_DATA] m1"
    by (simp add: set_user_pages_def m1_def)
  let ?frs = "map unat fc @ map unat fd"
  have "distinct ?frs" "set ?frs \<subseteq> free_frames (phys_mem mm)" "length ?frs = 28"
    using fc fd c(2) d(2) by (auto simp: layout_defs simp del: set_map)
  moreover have "free_frames (phys_mem (set_user_pages t mm)) = free_frames (phys_mem mm) - set ?frs"
    using fc fd by (auto simp: d3 d(3) simp del: set_map)
  moreover have "pagusr_table (set_user_pages t mm) u q =
          (if u \<noteq> t \<or> q < 256 \<or> 284 \<le> q then pagusr_table mm u q
           else if q < 264 then set_present 1 (set_user 1 (set_pbase_addr (of_nat (?frs ! (q - 256))) 0))
           else set_present 1 (set_rw 1 (set_user 1 (set_pbase_addr (of_nat (?frs ! (q - 256))) 0))))" for u q
  proof -
    have t1: "pagusr_table m1 = (pagusr_table mm)(t := \<lambda>q. if PAG_LOG_INIT_CODE \<le> q \<and> q < PAG_LOG_INIT_CODE + NUM_PAG_CODE
             then set_present 1 (set_user 1 (set_pbase_addr (fc ! (q - PAG_LOG_INIT_CODE)) 0)) else pagusr_table mm t q)"
      unfolding m1_def c(3) by simp
    have t2: "pagusr_table (set_user_pages t mm) = (pagusr_table m1)(t :=
         \<lambda>q. if PAG_LOG_INIT_DATA \<le> q \<and> q < PAG_LOG_INIT_DATA + NUM_PAG_DATA
             then set_present 1 (set_rw 1 (set_user 1 (set_pbase_addr (fd ! (q - PAG_LOG_INIT_DATA)) 0)))
             else pagusr_table m1 t q)"
      unfolding d3 d(3) by simp
    show ?thesis using c(2) d(2) unfolding t2 t1 by (auto simp: layout_defs nth_append)
  qed
  ultimately show ?thesis by blast
qed

text \<open>
  C34: With at least 28 free frames, \<open>set_user_pages\<close> maps the 8 code pages to 8 frames, present
  and accessible to the user but not writable, and the 20 data pages to 20 more, writable; the 28
  frames are distinct, were free before and are the ones no longer free after, and no other
  entry of the page table and no other page table changes.
\<close>

theorem set_user_pages_maps:
  assumes "28 \<le> card (free_frames (phys_mem mm))"
  shows "\<exists>frs. length frs = 28 \<and> distinct frs \<and> set frs \<subseteq> free_frames (phys_mem mm)
    \<and> free_frames (phys_mem (set_user_pages t mm)) = free_frames (phys_mem mm) - set frs
    \<and> (\<forall>u q. pagusr_table (set_user_pages t mm) u q =
          (if u \<noteq> t \<or> q < 256 \<or> 284 \<le> q then pagusr_table mm u q
           else if q < 264 then set_present 1 (set_user 1 (set_pbase_addr (of_nat (frs ! (q - 256))) 0))
           else set_present 1 (set_rw 1 (set_user 1 (set_pbase_addr (of_nat (frs ! (q - 256))) 0)))))"
  using set_user_pages_run[OF assms] .

theorem set_user_pages_maps_witness:
  "\<exists>frs. length frs = 28 \<and> free_frames (phys_mem (set_user_pages 1 \<lparr>phys_mem = snd (init_frames (\<lambda>_. 0)),
      dir_pages = undefined, pagusr_table = (\<lambda>_ _. 0), frame_mem = (\<lambda>_ _. 0)\<rparr>)) = pool - set frs"
proof -
  let ?mm = "\<lparr>phys_mem = snd (init_frames (\<lambda>_. 0)), dir_pages = undefined, pagusr_table = (\<lambda>_ _. 0),
    frame_mem = (\<lambda>_ _. 0)\<rparr>"
  have "28 \<le> card (free_frames (phys_mem ?mm))" by (simp add: init_frames_free card_pool)
  from set_user_pages_maps[OF this, of 1] show ?thesis by (auto simp: init_frames_free)
qed

end
