(* ===== verification/Screen.thy ===== *)
theory Screen
  imports Prelude
begin

text \<open>
  The screen of \<open>io.c\<close> and the console device of \<open>devices.c\<close>: the cursor \<open>x\<close>, \<open>y\<close>, the VGA text
  memory at \<open>0xb8000\<close> as an array of 16-bit cells, and the bytes sent to the Bochs debug port.
\<close>

section \<open>State and operations\<close>

definition NUM_COLUMNS :: nat where "NUM_COLUMNS = 80"
definition NUM_ROWS :: nat where "NUM_ROWS = 25"

record screen_state =
  scr_x :: Byte
  scr_y :: Byte
  screen :: "nat \<Rightarrow> Word16"
  port_e9 :: "Byte list"

text \<open>\<open>Byte x, y=19;\<close>\<close>

definition screen_init :: "(nat \<Rightarrow> Word16) \<Rightarrow> screen_state" where
  "screen_init vga = \<lparr>scr_x = 0, scr_y = 19, screen = vga, port_e9 = []\<rparr>"

text \<open>\<open>y = (y+1) % NUM_ROWS\<close>, computed as an \<open>int\<close>.\<close>

definition next_row :: "Byte \<Rightarrow> Byte" where
  "next_row y = of_nat ((unat y + 1) mod NUM_ROWS)"

definition outb_e9 :: "Byte \<Rightarrow> screen_state \<Rightarrow> screen_state" where
  "outb_e9 c s = s\<lparr>port_e9 := port_e9 s @ [c]\<rparr>"

definition put_cell :: "Word16 \<Rightarrow> screen_state \<Rightarrow> screen_state" where
  "put_cell ch s = s\<lparr>screen := (screen s)(unat (scr_y s) * NUM_COLUMNS + unat (scr_x s) := ch)\<rparr>"

text \<open>\<open>if (++x >= NUM_COLUMNS) { x = 0; y = (y+1)%NUM_ROWS; }\<close>\<close>

definition advance :: "screen_state \<Rightarrow> screen_state" where
  "advance s = (let s = s\<lparr>scr_x := scr_x s + 1\<rparr> in
     if NUM_COLUMNS \<le> unat (scr_x s) then s\<lparr>scr_x := 0, scr_y := next_row (scr_y s)\<rparr> else s)"

definition printc :: "Byte \<Rightarrow> screen_state \<Rightarrow> screen_state" where
  "printc c s = (let s = outb_e9 c s in
     if c = 10 then s\<lparr>scr_x := 0, scr_y := next_row (scr_y s)\<rparr>
     else advance (put_cell ((ucast c AND 0x00FF) OR 0x0200) s))"

definition printc_xy :: "Byte \<Rightarrow> Byte \<Rightarrow> Byte \<Rightarrow> screen_state \<Rightarrow> screen_state" where
  "printc_xy mx my c s =
     (let cx = scr_x s; cy = scr_y s; s = printc c (s\<lparr>scr_x := mx, scr_y := my\<rparr>)
      in s\<lparr>scr_x := cx, scr_y := cy\<rparr>)"

text \<open>The bytes of a C string: those before the first NUL.\<close>

definition printk :: "Byte list \<Rightarrow> screen_state \<Rightarrow> screen_state" where
  "printk str s = fold printc (takeWhile (\<lambda>c. c \<noteq> 0) str) s"

definition printcc :: "Word16 \<Rightarrow> screen_state \<Rightarrow> screen_state" where
  "printcc cc s = (let c = ucast (cc AND 0x00FF) :: Byte; s = outb_e9 c s in
     if c = 10 then s\<lparr>scr_x := 0, scr_y := next_row (scr_y s)\<rparr>
     else advance (put_cell cc s))"

definition printcc_xy :: "Byte \<Rightarrow> Byte \<Rightarrow> Word16 \<Rightarrow> screen_state \<Rightarrow> screen_state" where
  "printcc_xy mx my cc s =
     (let cx = scr_x s; cy = scr_y s; s = printcc cc (s\<lparr>scr_x := mx, scr_y := my\<rparr>)
      in s\<lparr>scr_x := cx, scr_y := cy\<rparr>)"

definition sys_write_console :: "(nat \<Rightarrow> Byte) \<Rightarrow> int \<Rightarrow> screen_state \<Rightarrow> int \<times> screen_state" where
  "sys_write_console buffer sz s = (sz, fold (\<lambda>i. printc (buffer i)) [0..<nat sz] s)"

text \<open>
  The drawing loop of \<open>sys_dump_screen\<close>: \<open>mat k\<close> is \<open>*((short*)address + k)\<close>, and \<open>k\<close> counts the
  cells drawn.
\<close>

definition draw_cell :: "(nat \<Rightarrow> Word16) \<Rightarrow> nat \<Rightarrow> nat \<Rightarrow> nat \<times> screen_state \<Rightarrow> nat \<times> screen_state" where
  "draw_cell mat i j ks = (case ks of (k, s) \<Rightarrow> (k + 1, printcc_xy (of_nat j) (of_nat i) (mat k) s))"

definition dump_matrix :: "(nat \<Rightarrow> Word16) \<Rightarrow> screen_state \<Rightarrow> screen_state" where
  "dump_matrix mat s =
     snd (fold (\<lambda>i. fold (draw_cell mat i) [0..<NUM_COLUMNS]) [0..<NUM_ROWS] (0, s))"

lemmas printing_defs = printc_def printcc_def outb_e9_def put_cell_def advance_def

section \<open>Cursor and bounds\<close>

definition cursor_ok :: "screen_state \<Rightarrow> bool" where
  "cursor_ok s \<longleftrightarrow> unat (scr_x s) < NUM_COLUMNS \<and> unat (scr_y s) < NUM_ROWS"

lemma next_row_lt: "unat (next_row y) < NUM_ROWS"
  by (simp add: next_row_def NUM_ROWS_def unat_of_nat take_bit_nat_eq_self)

lemma unat_byte_of_nat: "n < 256 \<Longrightarrow> unat (of_nat n :: Byte) = n"
  by (simp add: unat_of_nat take_bit_nat_eq_self)

lemma inc_x: "unat (b :: Byte) < NUM_COLUMNS \<Longrightarrow> unat (b + 1) = unat b + 1"
  by (simp add: NUM_COLUMNS_def unat_word_ariths)

lemma advance_ok: "cursor_ok s \<Longrightarrow> cursor_ok (advance s)"
  by (auto simp: advance_def cursor_ok_def Let_def next_row_lt NUM_COLUMNS_def)

lemma cursor_ok_simps [simp]:
  "cursor_ok (s\<lparr>screen := v\<rparr>) = cursor_ok s" "cursor_ok (s\<lparr>port_e9 := b\<rparr>) = cursor_ok s"
  by (simp_all add: cursor_ok_def)

lemma printc_ok: "cursor_ok s \<Longrightarrow> cursor_ok (printc c s)"
  by (simp add: printc_def outb_e9_def put_cell_def Let_def advance_ok)
     (simp add: cursor_ok_def next_row_lt NUM_COLUMNS_def)

lemma cell_bound: "cursor_ok s \<Longrightarrow> unat (scr_y s) * NUM_COLUMNS + unat (scr_x s) < 2000"
  by (simp add: cursor_ok_def NUM_COLUMNS_def NUM_ROWS_def)

lemma advance_screen [simp]: "screen (advance s) = screen s"
  by (simp add: advance_def Let_def)

lemma printc_screen_outside:
  "cursor_ok s \<Longrightarrow> 2000 \<le> n \<Longrightarrow> screen (printc c s) n = screen s n"
  using cell_bound[of s] by (auto simp: printc_def outb_e9_def put_cell_def Let_def)

lemma printc_fold_safe:
  "cursor_ok s \<Longrightarrow> cursor_ok (fold printc cs s) \<and> (\<forall>n\<ge>2000. screen (fold printc cs s) n = screen s n)"
  by (induction cs arbitrary: s) (simp_all add: printc_ok printc_screen_outside)

text \<open>
  C40: Printing a string, or writing any buffer to the console, from a cursor on the screen keeps
  the cursor on the screen and never stores outside the 2000 cells of the text memory, whatever
  the characters (line feeds, and lines that run off the last column or the last row, included).
\<close>

theorem console_stays_on_screen:
  assumes "cursor_ok s"
  shows "cursor_ok (printk str s) \<and> cursor_ok (snd (sys_write_console buffer n s))
    \<and> (\<forall>k\<ge>2000. screen (printk str s) k = screen s k
         \<and> screen (snd (sys_write_console buffer n s)) k = screen s k)"
proof -
  have "fold (\<lambda>i. printc (buffer i)) [0..<nat n] s = fold printc (map buffer [0..<nat n]) s"
    by (simp add: fold_map o_def)
  then show ?thesis
    using printc_fold_safe[OF assms] by (simp add: printk_def sys_write_console_def)
qed

theorem console_stays_on_screen_witness:
  "cursor_ok (screen_init (\<lambda>_. 0)) \<and> cursor_ok (printk [75, 10, 108] (screen_init (\<lambda>_. 0)))"
proof -
  have "cursor_ok (screen_init (\<lambda>_. 0))"
    by (simp add: cursor_ok_def screen_init_def NUM_COLUMNS_def NUM_ROWS_def)
  with console_stays_on_screen[OF this] show ?thesis by blast
qed

section \<open>Drawing a frame\<close>

lemma printcc_xy_cell:
  assumes "i < NUM_ROWS" "j < NUM_COLUMNS"
  shows "screen (printcc_xy (of_nat j) (of_nat i) cc s) =
      (if ucast cc = (10 :: Byte) then screen s else (screen s)(i * NUM_COLUMNS + j := cc))"
    and "scr_x (printcc_xy (of_nat j) (of_nat i) cc s) = scr_x s"
    and "scr_y (printcc_xy (of_nat j) (of_nat i) cc s) = scr_y s"
proof -
  have "ucast (cc AND 0x00FF) = (ucast cc :: Byte)"
  proof -
    have "(0x00FF :: Word16) = mask 8" by (simp add: mask_eq_exp_minus_1)
    then show ?thesis unfolding \<open>0x00FF = mask 8\<close> by (intro bit_word_eqI) (auto simp: bit_simps)
  qed
  moreover have "unat (of_nat i :: Byte) = i" "unat (of_nat j :: Byte) = j"
    using assms by (simp_all add: unat_byte_of_nat NUM_ROWS_def NUM_COLUMNS_def)
  ultimately show "screen (printcc_xy (of_nat j) (of_nat i) cc s) =
      (if ucast cc = (10 :: Byte) then screen s else (screen s)(i * NUM_COLUMNS + j := cc))"
    by (simp add: printcc_xy_def printcc_def put_cell_def outb_e9_def Let_def)
qed (simp_all add: printcc_xy_def Let_def)

text \<open>After the cells before number \<open>n\<close> have been drawn.\<close>

definition drawn :: "(nat \<Rightarrow> Word16) \<Rightarrow> screen_state \<Rightarrow> nat \<Rightarrow> nat \<times> screen_state \<Rightarrow> bool" where
  "drawn mat s0 n ks \<longleftrightarrow> fst ks = n \<and> scr_x (snd ks) = scr_x s0 \<and> scr_y (snd ks) = scr_y s0
     \<and> screen (snd ks) =
         (\<lambda>k. if k < n \<and> ucast (mat k) \<noteq> (10 :: Byte) then mat k else screen s0 k)"

lemma drawn_cell:
  assumes "drawn mat s0 (i * NUM_COLUMNS + j) ks" "i < NUM_ROWS" "j < NUM_COLUMNS"
  shows "drawn mat s0 (i * NUM_COLUMNS + Suc j) (draw_cell mat i j ks)"
  using assms(1) printcc_xy_cell[OF assms(2,3), of "mat (fst ks)" "snd ks"]
  by (cases ks) (auto simp: drawn_def draw_cell_def fun_eq_iff less_Suc_eq)

lemma drawn_row:
  assumes "drawn mat s0 (i * NUM_COLUMNS) ks" "i < NUM_ROWS" "n \<le> NUM_COLUMNS"
  shows "drawn mat s0 (i * NUM_COLUMNS + n) (fold (draw_cell mat i) [0..<n] ks)"
  using assms(3) by (induction n) (simp_all add: assms(1) drawn_cell[OF _ assms(2), simplified])

lemma drawn_rows:
  assumes "drawn mat s0 0 ks" "m \<le> NUM_ROWS"
  shows "drawn mat s0 (m * NUM_COLUMNS) (fold (\<lambda>i. fold (draw_cell mat i) [0..<NUM_COLUMNS]) [0..<m] ks)"
  using assms(2)
proof (induction m)
  case (Suc m)
  then show ?case using drawn_row[of mat s0 m _ NUM_COLUMNS] by (simp add: add.commute)
qed (simp add: assms(1))

lemma dump_matrix_screen:
  "screen (dump_matrix mat s) = (\<lambda>k. if k < 2000 \<and> ucast (mat k) \<noteq> (10 :: Byte) then mat k else screen s k)"
  "scr_x (dump_matrix mat s) = scr_x s" "scr_y (dump_matrix mat s) = scr_y s"
proof -
  have "drawn mat s 0 (0, s)" by (simp add: drawn_def)
  from drawn_rows[OF this order_refl]
  have "drawn mat s 2000 (fold (\<lambda>i. fold (draw_cell mat i) [0..<NUM_COLUMNS]) [0..<NUM_ROWS] (0, s))"
    by (simp add: NUM_ROWS_def NUM_COLUMNS_def)
  then show "screen (dump_matrix mat s) = (\<lambda>k. if k < 2000 \<and> ucast (mat k) \<noteq> (10 :: Byte) then mat k else screen s k)"
    "scr_x (dump_matrix mat s) = scr_x s" "scr_y (dump_matrix mat s) = scr_y s"
    unfolding dump_matrix_def by (simp_all add: drawn_def)
qed

text \<open>
  The drawing loop of \<open>sys_dump_screen\<close> copies the 80 x 25 matrix to the text memory cell by
  cell, touches nothing else and puts the cursor back; the one exception is a cell whose
  character is a line feed, which \<open>printcc\<close> does not draw, so the old cell stays.
\<close>

theorem dump_matrix_copies:
  "screen (dump_matrix mat s) k =
     (if k < 2000 \<and> ucast (mat k) \<noteq> (10 :: Byte) then mat k else screen s k)
   \<and> scr_x (dump_matrix mat s) = scr_x s \<and> scr_y (dump_matrix mat s) = scr_y s"
  by (simp add: dump_matrix_screen)

end
