(* ===== verification/Ring_Buffer.thy ===== *)
theory Ring_Buffer
  imports Prelude "HOL-Library.Sublist"
begin

text \<open>
  The two circular buffers of the system: the keyboard buffer of the kernel (\<open>io.c\<close>) and
  the frame queue between the two threads of the game (\<open>user.c\<close>). Both keep an array, a
  \<open>Head\<close> to write at, a \<open>Tail\<close> to read from and a flag that tells the full buffer from the
  empty one. Their common contract is the locale \<open>bounded_fifo\<close>.
\<close>

section \<open>The contract\<close>

datatype 'a ring_op = Put 'a | Take

text \<open>A run of operations, with what each \<open>Take\<close> returned.\<close>

fun run_ops :: "('a \<Rightarrow> 'r \<Rightarrow> 'r) \<Rightarrow> ('r \<Rightarrow> ('a \<times> 'r) option) \<Rightarrow> 'a ring_op list \<Rightarrow> 'r \<Rightarrow> 'a option list \<times> 'r"
where
  "run_ops push pop [] r = ([], r)"
| "run_ops push pop (Put x # ops) r = run_ops push pop ops (push x r)"
| "run_ops push pop (Take # ops) r =
     (case pop r of
        None \<Rightarrow> (case run_ops push pop ops r of (out, r') \<Rightarrow> (None # out, r'))
      | Some (x, r1) \<Rightarrow> (case run_ops push pop ops r1 of (out, r') \<Rightarrow> (Some x # out, r')))"

lemma run_ops_append:
  "run_ops push pop (ops @ ops') r = (case run_ops push pop ops r of (out, r1) \<Rightarrow>
     (case run_ops push pop ops' r1 of (out', r2) \<Rightarrow> (out @ out', r2)))"
  by (induction push pop ops r rule: run_ops.induct) (auto split: option.splits prod.splits)

text \<open>The specification: a list that refuses to grow past its capacity.\<close>

definition spec_push :: "nat \<Rightarrow> 'a \<Rightarrow> 'a list \<Rightarrow> 'a list" where
  "spec_push n x xs = (if length xs < n then xs @ [x] else xs)"

fun spec_pop :: "'a list \<Rightarrow> ('a \<times> 'a list) option" where
  "spec_pop [] = None"
| "spec_pop (x # xs) = Some (x, xs)"

text \<open>What was put in, and what came out: the elements that come out or wait are, in order, among those put in.\<close>

definition received :: "'a option list \<Rightarrow> 'a list" where
  "received ss = List.map_filter id ss"

definition sent :: "'a ring_op list \<Rightarrow> 'a list" where
  "sent h = List.map_filter (\<lambda>x. case x of Put p \<Rightarrow> Some p | Take \<Rightarrow> None) h"

lemma received_in_order:
  "run_ops (spec_push n) spec_pop h xs = (out, ys) \<Longrightarrow> subseq (received out @ ys) (xs @ sent h)"
proof (induction h arbitrary: xs out)
  case step: (Cons x h)
  show ?case
  proof (cases x)
    case (Put p)
    then have "subseq (received out @ ys) (spec_push n p xs @ sent h)" using step by simp
    moreover have "subseq (spec_push n p xs @ sent h) (xs @ sent (x # h))"
      by (auto simp: Put spec_push_def sent_def List.map_filter_simps intro: list_emb_append_mono)
    ultimately show ?thesis by (rule subseq_order.order_trans)
  next
    case Take
    show ?thesis
    proof (cases xs)
      case Nil
      then obtain out' where "out = None # out'" "run_ops (spec_push n) spec_pop h [] = (out', ys)"
        using step.prems Take by (auto split: prod.splits)
      then show ?thesis using step.IH[of "[]" out'] Nil Take by (simp add: sent_def received_def List.map_filter_simps)
    next
      case (Cons y zs)
      then obtain out' where "out = Some y # out'" "run_ops (spec_push n) spec_pop h zs = (out', ys)"
        using step.prems Take by (auto split: prod.splits)
      then show ?thesis using step.IH[of zs out'] Cons Take by (simp add: sent_def received_def List.map_filter_simps)
    qed
  qed
qed (simp add: received_def sent_def List.map_filter_simps)

locale bounded_fifo =
  fixes cap :: nat
    and inv :: "'r \<Rightarrow> bool"
    and contents :: "'r \<Rightarrow> 'a list"
    and push :: "'a \<Rightarrow> 'r \<Rightarrow> 'r"
    and pop :: "'r \<Rightarrow> ('a \<times> 'r) option"
  assumes contents_bound: "inv r \<Longrightarrow> length (contents r) \<le> cap"
    and push_inv: "inv r \<Longrightarrow> inv (push x r)"
    and push_contents: "inv r \<Longrightarrow> contents (push x r) = spec_push cap x (contents r)"
    and pop_inv: "inv r \<Longrightarrow> pop r = Some (x, r') \<Longrightarrow> inv r'"
    and pop_contents: "inv r \<Longrightarrow> map_option (map_prod id contents) (pop r) = spec_pop (contents r)"
begin

lemma pop_empty: "inv r \<Longrightarrow> pop r = None \<longleftrightarrow> contents r = []"
  using pop_contents[of r] by (cases "contents r"; cases "pop r") auto

lemma pop_cons:
  assumes "inv r" "contents r = x # xs"
  obtains r' where "pop r = Some (x, r')" "inv r'" "contents r' = xs"
  using pop_contents[of r] pop_inv[of r] assms by (cases "pop r") auto

lemma push_all:
  "inv r \<Longrightarrow> inv (fold push xs r)
     \<and> contents (fold push xs r) = contents r @ take (cap - length (contents r)) xs"
proof (induction xs arbitrary: r)
  case Nil
  then show ?case by simp
next
  case (Cons x xs)
  then show ?case
    using contents_bound[of r]
    by (auto simp: push_inv push_contents spec_push_def take_Cons' Suc_diff_Suc)
qed

lemma run_refines:
  assumes "inv r" "run_ops push pop ops r = (out, r')"
  shows "inv r' \<and> run_ops (spec_push cap) spec_pop ops (contents r) = (out, contents r')"
  using assms
proof (induction ops arbitrary: r out)
  case Nil
  then show ?case by simp
next
  case (Cons op ops)
  show ?case
  proof (cases op)
    case (Put x)
    then show ?thesis
      using Cons.IH[of "push x r" out] Cons.prems push_inv push_contents by simp
  next
    case Take
    show ?thesis
    proof (cases "contents r")
      case Nil
      then have "pop r = None" using Cons.prems pop_empty by simp
      then obtain out' where "out = None # out'" "run_ops push pop ops r = (out', r')"
        using Cons.prems Take by (auto split: prod.splits)
      then show ?thesis using Cons.IH[of r out'] Cons.prems Nil Take by simp
    next
      case (Cons y ys)
      then obtain r1 where r1: "pop r = Some (y, r1)" "inv r1" "contents r1 = ys"
        using Cons.prems pop_cons by blast
      then obtain out' where "out = Some y # out'" "run_ops push pop ops r1 = (out', r')"
        using Cons.prems Take by (auto split: prod.splits)
      then show ?thesis using Cons.IH[of r1 out'] r1 Cons Take by simp
    qed
  qed
qed

end

section \<open>The state and its abstraction\<close>

record 'a ring =
  buff :: "nat \<Rightarrow> 'a"
  Head :: nat
  Tail :: nat
  IsFull_Flag :: int

definition ring_wf :: "nat \<Rightarrow> 'a ring \<Rightarrow> bool" where
  "ring_wf n r \<longleftrightarrow> Head r < n \<and> Tail r < n \<and> IsFull_Flag r \<in> {0, 1}
     \<and> (IsFull_Flag r = 1 \<longrightarrow> Head r = Tail r)"

definition ring_count :: "nat \<Rightarrow> 'a ring \<Rightarrow> nat" where
  "ring_count n r =
     (if Head r < Tail r then Head r + n - Tail r
      else if Tail r < Head r then Head r - Tail r
      else if IsFull_Flag r \<noteq> 0 then n else 0)"

definition ring_contents :: "nat \<Rightarrow> 'a ring \<Rightarrow> 'a list" where
  "ring_contents n r = map (\<lambda>k. buff r ((Tail r + k) mod n)) [0..<ring_count n r]"

text \<open>What both implementations do, over any size: the shared part of the two proofs.\<close>

definition ring_put :: "nat \<Rightarrow> 'a \<Rightarrow> 'a ring \<Rightarrow> 'a ring" where
  "ring_put n x r =
     (if IsFull_Flag r = 0
      then let r1 = r\<lparr>buff := (buff r)(Head r := x), Head := (Head r + 1) mod n\<rparr>
           in if Head r1 = Tail r1 then r1\<lparr>IsFull_Flag := 1\<rparr> else r1
      else r)"

definition ring_take :: "nat \<Rightarrow> 'a ring \<Rightarrow> ('a \<times> 'a ring) option" where
  "ring_take n r =
     (if Head r = Tail r \<and> IsFull_Flag r \<noteq> 1 then None
      else Some (buff r (Tail r), r\<lparr>Tail := (Tail r + 1) mod n, IsFull_Flag := 0\<rparr>))"

lemma ring_contents_length [simp]: "length (ring_contents n r) = ring_count n r"
  by (simp add: ring_contents_def)

lemma ring_count_le: "ring_wf n r \<Longrightarrow> ring_count n r \<le> n"
  by (auto simp: ring_wf_def ring_count_def)

lemma ring_put_wf: "ring_wf n r \<Longrightarrow> ring_wf n (ring_put n x r)"
  by (auto simp: ring_wf_def ring_put_def Let_def)

lemma ring_take_wf: "ring_wf n r \<Longrightarrow> ring_take n r = Some (x, r') \<Longrightarrow> ring_wf n r'"
  by (auto simp: ring_wf_def ring_take_def split: if_splits)

lemma suc_mod_cases: "i < n \<Longrightarrow> Suc i mod n = (if Suc i = n then 0 else Suc i)"
  by auto

lemma ring_count_put:
  "ring_wf n r \<Longrightarrow> ring_count n (ring_put n x r)
     = (if ring_count n r < n then Suc (ring_count n r) else ring_count n r)"
  by (auto simp: ring_wf_def ring_count_def ring_put_def Let_def suc_mod_cases)

lemma ring_head_eq: "ring_wf n r \<Longrightarrow> ring_count n r < n \<Longrightarrow> (Tail r + ring_count n r) mod n = Head r"
  by (auto simp: ring_wf_def ring_count_def mod_if)

lemma ring_slot_ne_head:
  assumes "ring_wf n r" "k < ring_count n r" "ring_count n r < n"
  shows "(Tail r + k) mod n \<noteq> Head r"
  using assms by (auto simp: ring_wf_def ring_count_def mod_if split: if_splits)

lemma ring_put_contents:
  assumes "ring_wf n r"
  shows "ring_contents n (ring_put n x r) = spec_push n x (ring_contents n r)"
proof (cases "ring_count n r < n")
  case True
  then have flag: "IsFull_Flag r = 0"
    using assms by (auto simp: ring_wf_def ring_count_def)
  have tl: "Tail (ring_put n x r) = Tail r" by (auto simp: ring_put_def Let_def)
  have bf: "buff (ring_put n x r) = (buff r)(Head r := x)"
    using flag by (auto simp: ring_put_def Let_def)
  have old: "map (\<lambda>k. ((buff r)(Head r := x)) ((Tail r + k) mod n)) [0..<ring_count n r]
      = ring_contents n r"
    using ring_slot_ne_head[OF assms _ True] by (auto simp: ring_contents_def)
  show ?thesis
    using True assms old
    by (simp add: ring_contents_def ring_count_put tl bf spec_push_def ring_head_eq)
next
  case False
  then have "ring_count n r = n" using assms ring_count_le[of n r] by simp
  then have "IsFull_Flag r \<noteq> 0"
    using assms by (auto simp: ring_wf_def ring_count_def split: if_splits)
  then have "ring_put n x r = r" by (simp add: ring_put_def)
  then show ?thesis using False by (simp add: spec_push_def)
qed

lemma ring_take_contents:
  assumes "ring_wf n r"
  shows "map_option (map_prod id (ring_contents n)) (ring_take n r) = spec_pop (ring_contents n r)"
proof (cases "ring_count n r")
  case 0
  then have "Head r = Tail r \<and> IsFull_Flag r \<noteq> 1"
    using assms by (auto simp: ring_wf_def ring_count_def split: if_splits)
  then show ?thesis using 0 by (simp add: ring_take_def ring_contents_def)
next
  case (Suc m)
  define r' where "r' = r\<lparr>Tail := (Tail r + 1) mod n, IsFull_Flag := 0\<rparr>"
  have take: "ring_take n r = Some (buff r (Tail r), r')"
    using Suc assms by (auto simp: r'_def ring_take_def ring_wf_def ring_count_def)
  have cnt: "ring_count n r' = m"
    using Suc assms by (auto simp: r'_def ring_wf_def ring_count_def suc_mod_cases split: if_splits)
  have shift: "(Suc (Tail r) mod n + k) mod n = Suc (Tail r + k) mod n" for k
    by (metis add_Suc mod_add_left_eq)
  have "ring_contents n r = buff r (Tail r mod n) # ring_contents n r'"
    unfolding ring_contents_def cnt Suc
    by (simp add: upt_conv_Cons map_Suc_upt[symmetric] shift r'_def del: upt_Suc)
  then show ?thesis using take assms by (simp add: ring_wf_def)
qed

lemmas ring_laws = ring_count_le ring_put_wf ring_put_contents ring_take_wf ring_take_contents

section \<open>The keyboard buffer (io.c)\<close>

definition KBD_BUFF_SIZE :: nat where "KBD_BUFF_SIZE = 32"

text \<open>\<open>circular_buff\<close> with \<open>Head = Tail = IsFull_Flag = 0\<close>.\<close>

definition kbd_init :: "Byte ring" where
  "kbd_init = \<lparr>buff = (\<lambda>_. 0), Head = 0, Tail = 0, IsFull_Flag = 0\<rparr>"

definition write_to_buffer :: "Byte \<Rightarrow> Byte ring \<Rightarrow> Byte ring" where
  "write_to_buffer c r =
     (if IsFull_Flag r = 0
      then let r1 = r\<lparr>buff := (buff r)(Head r := c), Head := (Head r + 1) mod KBD_BUFF_SIZE\<rparr>
           in if Head r1 = Tail r1 then r1\<lparr>IsFull_Flag := 1\<rparr> else r1
      else r)"

text \<open>\<open>int read_from_buffer(char *c)\<close>: the result, the new value of \<open>*c\<close>, the buffer.\<close>

definition read_from_buffer :: "Byte \<Rightarrow> Byte ring \<Rightarrow> DWord \<times> Byte \<times> Byte ring" where
  "read_from_buffer c r =
     (if Head r = Tail r \<and> IsFull_Flag r \<noteq> 1 then (-1, c, r)
      else (0, buff r (Tail r), r\<lparr>Tail := (Tail r + 1) mod KBD_BUFF_SIZE, IsFull_Flag := 0\<rparr>))"

text \<open>A successful read as an option, the shape of the contract.\<close>

definition kbd_pop :: "Byte ring \<Rightarrow> (Byte \<times> Byte ring) option" where
  "kbd_pop r = (case read_from_buffer 0 r of (ret, c, r') \<Rightarrow> if ret = 0 then Some (c, r') else None)"

abbreviation kbd_contents :: "Byte ring \<Rightarrow> Byte list" where
  "kbd_contents \<equiv> ring_contents KBD_BUFF_SIZE"

abbreviation kbd_wf :: "Byte ring \<Rightarrow> bool" where
  "kbd_wf \<equiv> ring_wf KBD_BUFF_SIZE"

lemma write_to_buffer_put: "write_to_buffer = ring_put KBD_BUFF_SIZE"
  by (intro ext) (simp add: write_to_buffer_def ring_put_def)

lemma kbd_pop_take: "kbd_pop = ring_take KBD_BUFF_SIZE"
  by (intro ext) (simp add: kbd_pop_def read_from_buffer_def ring_take_def)

interpretation kbd: bounded_fifo KBD_BUFF_SIZE kbd_wf kbd_contents write_to_buffer kbd_pop
  by unfold_locales (simp_all add: write_to_buffer_put kbd_pop_take ring_laws)

lemma kbd_wf_init: "kbd_wf kbd_init" and kbd_contents_init: "kbd_contents kbd_init = []"
  by (simp_all add: ring_wf_def kbd_init_def KBD_BUFF_SIZE_def ring_contents_def ring_count_def)

text \<open>
  C33: Any interleaving of \<open>write_to_buffer\<close> and \<open>read_from_buffer\<close> from the initial keyboard
  buffer behaves as a list of at most 32 characters: every read returns the oldest character
  not yet read, a read of an empty buffer fails, and a key pressed while the buffer is full is
  dropped without disturbing the others.
\<close>

theorem keyboard_buffer_refines_bounded_list:
  "\<exists>out r. run_ops write_to_buffer kbd_pop ops kbd_init = (out, r)
     \<and> run_ops (spec_push 32) spec_pop ops [] = (out, kbd_contents r) \<and> kbd_wf r"
proof -
  obtain out r where "run_ops write_to_buffer kbd_pop ops kbd_init = (out, r)"
    by (cases "run_ops write_to_buffer kbd_pop ops kbd_init")
  with kbd.run_refines[OF kbd_wf_init this] show ?thesis
    unfolding kbd_contents_init by (auto simp: KBD_BUFF_SIZE_def)
qed

end
