(* ===== verification/Kernel_State.thy ===== *)
theory Kernel_State
  imports Linked_List Paging Screen Ring_Buffer
begin

text \<open>
  The global state of the kernel: the task array with its stacks, the list nodes, the
  scheduler's and the semaphores' variables, memory, keyboard, screen, and the registers a
  task switch touches. A pointer to a \<open>task_struct\<close> or \<open>task_union\<close> is the index of its slot
  in the array \<open>task\<close>; kernel stack addresses are 32-bit words.
\<close>

section \<open>Types (include/sched.h, include/stats.h)\<close>

datatype state_t = ST_RUN | ST_READY | ST_BLOCKED

record stats =
  user_ticks :: DWord
  system_ticks :: DWord
  blocked_ticks :: DWord
  ready_ticks :: DWord
  elapsed_total_ticks :: DWord
  total_trans :: DWord
  remaining_ticks :: DWord

record task_struct =
  PID :: DWord
  TID :: DWord
  destroyed :: DWord
  dir_pages_baseAddr :: nat
  register_esp :: DWord
  tstate :: state_t
  total_quantum :: DWord
  p_stats :: stats

definition KERNEL_STACK_SIZE :: nat where "KERNEL_STACK_SIZE = 1024"

text \<open>
  Every \<open>struct list_head\<close> of the kernel: the queue heads \<open>freequeue\<close>, \<open>readyqueue\<close> and
  \<open>blocked\<close> (\<open>devices.c\<close>), the \<open>blocked\<close> field of each semaphore and the \<open>list\<close> field of each
  task.
\<close>

datatype lnode = FreeQ | ReadyQ | BlockedQ | SemQ nat | TaskN nat

text \<open>The semaphore type of \<open>sys.c\<close>; the head of its queue is \<^const>\<open>SemQ\<close>.\<close>

record semaphore =
  isInit :: DWord
  counter :: DWord

section \<open>State\<close>

record kstate =
  heap :: "lnode lheap"
  tasks :: "nat \<Rightarrow> task_struct"
  kstack :: "nat \<Rightarrow> nat \<Rightarrow> DWord"  \<comment> \<open>the \<open>stack\<close> words of each \<open>task_union\<close>\<close>
  running :: nat               \<comment> \<open>the slot \<open>current()\<close> computes from the stack pointer\<close>
  idle_task :: "nat option"
  remaining_quantum :: DWord
  global_PID :: DWord
  global_TID :: DWord
  zeos_ticks :: DWord
  list_sem :: "nat \<Rightarrow> semaphore"
  mm :: mm_state
  kbd :: "Byte ring"
  scr :: screen_state
  tsc :: "nat \<Rightarrow> u64"           \<comment> \<open>the value each successive \<open>rdtsc\<close> reads\<close>
  tsc_reads :: nat
  task_base :: DWord           \<comment> \<open>the address of \<open>task[0]\<close>, chosen by the linker\<close>
  tss_esp0 :: DWord
  msr_175 :: DWord
  cr3 :: nat
  cpu_ebp :: DWord
  cpu_eip :: DWord

text \<open>
  The kernel image as it is loaded: the global variables have the initial values the code
  gives them, everything else in its data sections is zero. What the machine holds (the
  contents of the screen, the sequence of \<open>rdtsc\<close> readings) and where the linker put \<open>task\<close> are
  parameters.
\<close>

definition zero_stats :: stats where
  "zero_stats = \<lparr>user_ticks = 0, system_ticks = 0, blocked_ticks = 0, ready_ticks = 0,
     elapsed_total_ticks = 0, total_trans = 0, remaining_ticks = 0\<rparr>"

definition zero_task :: task_struct where
  "zero_task = \<lparr>PID = 0, TID = 0, destroyed = 0, dir_pages_baseAddr = 0, register_esp = 0,
     tstate = ST_RUN, total_quantum = 0, p_stats = zero_stats\<rparr>"

definition zero_mm :: mm_state where
  "zero_mm = \<lparr>phys_mem = (\<lambda>_. 0),
     dir_pages = (\<lambda>_ _. \<lparr>de_table = 0, de_user = False, de_rw = False, de_present = False\<rparr>),
     pagusr_table = (\<lambda>_ _. 0), frame_mem = (\<lambda>_ _. 0)\<rparr>"

definition kernel_image :: "(nat \<Rightarrow> u64) \<Rightarrow> (nat \<Rightarrow> Word16) \<Rightarrow> DWord \<Rightarrow> kstate" where
  "kernel_image clock vga base = \<lparr>heap = \<lparr>nxt = \<lambda>_. None, prv = \<lambda>_. None\<rparr>, tasks = (\<lambda>_. zero_task),
     kstack = (\<lambda>_ _. 0), running = 3, idle_task = None, remaining_quantum = 0, global_PID = 1000,
     global_TID = 0, zeos_ticks = 0, list_sem = (\<lambda>_. \<lparr>isInit = 0, counter = 0\<rparr>), mm = zero_mm,
     kbd = kbd_init, scr = screen_init vga, tsc = clock, tsc_reads = 0, task_base = base,
     tss_esp0 = 0, msr_175 = 0, cr3 = 0, cpu_ebp = 0, cpu_eip = 0\<rparr>"

definition upd_task :: "nat \<Rightarrow> (task_struct \<Rightarrow> task_struct) \<Rightarrow> kstate \<Rightarrow> kstate" where
  "upd_task t f s = s\<lparr>tasks := (tasks s)(t := f (tasks s t))\<rparr>"

text \<open>\<open>current()\<close>\<close>

definition current :: "kstate \<Rightarrow> task_struct" where
  "current s = tasks s (running s)"

text \<open>
  \<open>list_head_to_task_struct\<close> masks the low 12 bits of the node's address: the page of the
  \<open>task_union\<close> the node lies in. A queue head lies in no \<open>task_union\<close>.
\<close>

definition list_head_to_task_struct :: "lnode option \<Rightarrow> nat option" where
  "list_head_to_task_struct l = (case l of Some (TaskN i) \<Rightarrow> Some i | _ \<Rightarrow> None)"

definition read_ticks :: "kstate \<Rightarrow> (DWord \<times> kstate) option" where
  "read_ticks s = do { t \<leftarrow> get_ticks (tsc s (tsc_reads s)); Some (t, s\<lparr>tsc_reads := tsc_reads s + 1\<rparr>) }"

text \<open>\<open>get_PT\<close> and \<open>get_DIR\<close> of a task.\<close>

definition get_DIR :: "task_struct \<Rightarrow> nat" where
  "get_DIR t = dir_pages_baseAddr t"

definition get_PT :: "kstate \<Rightarrow> task_struct \<Rightarrow> nat" where
  "get_PT s t = PT_of_dir (mm s) (dir_pages_baseAddr t)"

definition set_cr3 :: "nat \<Rightarrow> kstate \<Rightarrow> kstate" where
  "set_cr3 dir s = s\<lparr>cr3 := dir\<rparr>"

text \<open>Kernel stack addresses: the word \<open>stack[k]\<close> of slot \<open>t\<close>, and the access to a word.\<close>

definition stack_addr :: "kstate \<Rightarrow> nat \<Rightarrow> nat \<Rightarrow> DWord" where
  "stack_addr s t k = task_base s + of_nat (4096 * t + 4 * k)"

definition stack_slot :: "kstate \<Rightarrow> DWord \<Rightarrow> nat" where
  "stack_slot s a = unat (a - task_base s) div 4096"

definition stack_index :: "kstate \<Rightarrow> DWord \<Rightarrow> nat" where
  "stack_index s a = unat (a - task_base s) mod 4096 div 4"

definition read_stack :: "kstate \<Rightarrow> DWord \<Rightarrow> DWord" where
  "read_stack s a = kstack s (stack_slot s a) (stack_index s a)"

definition write_stack :: "DWord \<Rightarrow> DWord \<Rightarrow> kstate \<Rightarrow> kstate" where
  "write_stack a v s = s\<lparr>kstack := (kstack s)(stack_slot s a :=
     (kstack s (stack_slot s a))(stack_index s a := v))\<rparr>"

lemma stack_addr_slot:
  assumes "t < 12" "k < 1024"
  shows "stack_slot s (stack_addr s t k) = t" "stack_index s (stack_addr s t k) = k"
proof -
  have "unat (of_nat (4096 * t + 4 * k) :: DWord) = 4096 * t + 4 * k"
    unfolding unat_of_nat using assms by simp
  then have "unat (stack_addr s t k - task_base s) = 4096 * t + 4 * k"
    by (simp only: stack_addr_def add_diff_cancel_left')
  then show "stack_slot s (stack_addr s t k) = t" "stack_index s (stack_addr s t k) = k"
    using assms by (simp_all add: stack_slot_def stack_index_def)
qed

lemma stack_addr_upd [simp]:
  "stack_addr (s\<lparr>heap := a1\<rparr>) = stack_addr s" "stack_addr (s\<lparr>tasks := a2\<rparr>) = stack_addr s"
  "stack_addr (s\<lparr>kstack := a3\<rparr>) = stack_addr s" "stack_addr (s\<lparr>running := a4\<rparr>) = stack_addr s"
  "stack_addr (s\<lparr>idle_task := a5\<rparr>) = stack_addr s" "stack_addr (s\<lparr>remaining_quantum := a6\<rparr>) = stack_addr s"
  "stack_addr (s\<lparr>mm := a7\<rparr>) = stack_addr s" "stack_addr (s\<lparr>tsc_reads := a8\<rparr>) = stack_addr s"
  "stack_addr (s\<lparr>tss_esp0 := a9\<rparr>) = stack_addr s" "stack_addr (s\<lparr>msr_175 := a10\<rparr>) = stack_addr s"
  "stack_addr (s\<lparr>cr3 := a11\<rparr>) = stack_addr s" "stack_addr (s\<lparr>global_PID := a12\<rparr>) = stack_addr s"
  "stack_addr (s\<lparr>global_TID := a13\<rparr>) = stack_addr s" "stack_addr (upd_task t f s) = stack_addr s"
  by (simp_all add: stack_addr_def upd_task_def fun_eq_iff)

lemma write_stack_addr:
  assumes "t < 12" "k < 1024" "task_base s' = task_base s"
  shows "write_stack (stack_addr s' t k) v s = s\<lparr>kstack := (kstack s)(t := (kstack s t)(k := v))\<rparr>"
proof -
  have "stack_addr s' t k = stack_addr s t k" using assms(3) by (simp add: stack_addr_def)
  then show ?thesis using stack_addr_slot[OF assms(1,2), of s] by (simp add: write_stack_def)
qed

lemma read_stack_addr:
  assumes "t < 12" "k < 1024" "task_base s' = task_base s"
  shows "read_stack s (stack_addr s' t k) = kstack s t k"
proof -
  have "stack_addr s' t k = stack_addr s t k" using assms(3) by (simp add: stack_addr_def)
  then show ?thesis using stack_addr_slot[OF assms(1,2), of s] by (simp add: read_stack_def)
qed

lemma stack_addr_next: "stack_addr s t k + 4 = stack_addr s t (k + 1)"
  by (simp add: stack_addr_def)

section \<open>Accounting\<close>

definition init_stats :: "nat \<Rightarrow> kstate \<Rightarrow> kstate option" where
  "init_stats t s = do {
     (e, s) \<leftarrow> read_ticks s;
     (r, s) \<leftarrow> read_ticks s;
     Some (upd_task t (\<lambda>ts. ts\<lparr>p_stats := \<lparr>user_ticks = 0, system_ticks = 0, blocked_ticks = 0,
        ready_ticks = 0, elapsed_total_ticks = e, total_trans = 0, remaining_ticks = r\<rparr>\<rparr>) s) }"

text \<open>\<open>update_stats(&(t->p_stats.user_ticks), &(t->p_stats.elapsed_total_ticks))\<close> and its like.\<close>

definition charge_user :: "nat \<Rightarrow> kstate \<Rightarrow> kstate option" where
  "charge_user t s = do { (now, s) \<leftarrow> read_ticks s;
     Some (upd_task t (\<lambda>ts. let st = p_stats ts; (v, e) = update_stats (user_ticks st) (elapsed_total_ticks st) now
        in ts\<lparr>p_stats := st\<lparr>user_ticks := v, elapsed_total_ticks := e\<rparr>\<rparr>) s) }"

definition charge_system :: "nat \<Rightarrow> kstate \<Rightarrow> kstate option" where
  "charge_system t s = do { (now, s) \<leftarrow> read_ticks s;
     Some (upd_task t (\<lambda>ts. let st = p_stats ts; (v, e) = update_stats (system_ticks st) (elapsed_total_ticks st) now
        in ts\<lparr>p_stats := st\<lparr>system_ticks := v, elapsed_total_ticks := e\<rparr>\<rparr>) s) }"

definition charge_ready :: "nat \<Rightarrow> kstate \<Rightarrow> kstate option" where
  "charge_ready t s = do { (now, s) \<leftarrow> read_ticks s;
     Some (upd_task t (\<lambda>ts. let st = p_stats ts; (v, e) = update_stats (ready_ticks st) (elapsed_total_ticks st) now
        in ts\<lparr>p_stats := st\<lparr>ready_ticks := v, elapsed_total_ticks := e\<rparr>\<rparr>) s) }"

text \<open>The ticks a task has been charged with, less the time up to which it has been charged.\<close>

definition accounted :: "stats \<Rightarrow> DWord" where
  "accounted st = user_ticks st + system_ticks st + blocked_ticks st + ready_ticks st - elapsed_total_ticks st"

text \<open>
  An update of the statistics of tasks and of the number of clock reads only; it keeps every
  task's balance.
\<close>

definition same_but_stats :: "task_struct \<Rightarrow> task_struct \<Rightarrow> bool" where
  "same_but_stats a b \<longleftrightarrow> (\<exists>st. b = a\<lparr>p_stats := st\<rparr> \<and> accounted st = accounted (p_stats a))"

definition stats_only :: "kstate \<Rightarrow> kstate \<Rightarrow> bool" where
  "stats_only s s' \<longleftrightarrow> (\<exists>f n. s' = s\<lparr>tasks := f, tsc_reads := n\<rparr> \<and> (\<forall>i. same_but_stats (tasks s i) (f i)))"

lemma same_but_stats_refl [simp]: "same_but_stats a a"
  unfolding same_but_stats_def by (rule exI[of _ "p_stats a"]) simp

lemma stats_onlyI:
  assumes "same_but_stats (tasks s t) (g (tasks s t))"
  shows "stats_only s (upd_task t g (s\<lparr>tsc_reads := n\<rparr>))"
  unfolding stats_only_def upd_task_def
  by (rule exI[of _ "(tasks s)(t := g (tasks s t))"], rule exI[of _ n]) (use assms in simp)

lemma charge_stats_only:
  "\<exists>s'. charge_user t s = Some s' \<and> stats_only s s'"
  "\<exists>s'. charge_system t s = Some s' \<and> stats_only s s'"
  "\<exists>s'. charge_ready t s = Some s' \<and> stats_only s s'"
  unfolding charge_user_def charge_system_def charge_ready_def read_ticks_def get_ticks_eq
  by (simp_all, (rule stats_onlyI, simp add: same_but_stats_def update_stats_def Let_def,
        rule exI, rule conjI, rule refl, simp add: accounted_def)+)

lemma stats_only_fields:
  assumes "stats_only s s'"
  shows "heap s' = heap s" "kstack s' = kstack s" "running s' = running s" "idle_task s' = idle_task s"
    "remaining_quantum s' = remaining_quantum s" "global_PID s' = global_PID s"
    "global_TID s' = global_TID s" "zeos_ticks s' = zeos_ticks s" "list_sem s' = list_sem s"
    "mm s' = mm s" "kbd s' = kbd s" "scr s' = scr s" "tsc s' = tsc s" "task_base s' = task_base s"
    "cpu_ebp s' = cpu_ebp s" "cpu_eip s' = cpu_eip s" "tss_esp0 s' = tss_esp0 s" "cr3 s' = cr3 s"
  using assms by (auto simp: stats_only_def)

lemma stats_only_task:
  assumes "stats_only s s'"
  shows "PID (tasks s' i) = PID (tasks s i)" "TID (tasks s' i) = TID (tasks s i)"
    "destroyed (tasks s' i) = destroyed (tasks s i)"
    "dir_pages_baseAddr (tasks s' i) = dir_pages_baseAddr (tasks s i)"
    "register_esp (tasks s' i) = register_esp (tasks s i)" "tstate (tasks s' i) = tstate (tasks s i)"
    "total_quantum (tasks s' i) = total_quantum (tasks s i)"
    "accounted (p_stats (tasks s' i)) = accounted (p_stats (tasks s i))"
proof -
  obtain f n where f: "s' = s\<lparr>tasks := f, tsc_reads := n\<rparr>" "\<forall>i. same_but_stats (tasks s i) (f i)"
    using assms by (auto simp: stats_only_def)
  then obtain st where st: "f i = (tasks s i)\<lparr>p_stats := st\<rparr>" "accounted st = accounted (p_stats (tasks s i))"
    unfolding same_but_stats_def by blast
  show "PID (tasks s' i) = PID (tasks s i)" "TID (tasks s' i) = TID (tasks s i)"
    "destroyed (tasks s' i) = destroyed (tasks s i)"
    "dir_pages_baseAddr (tasks s' i) = dir_pages_baseAddr (tasks s i)"
    "register_esp (tasks s' i) = register_esp (tasks s i)" "tstate (tasks s' i) = tstate (tasks s i)"
    "total_quantum (tasks s' i) = total_quantum (tasks s i)"
    "accounted (p_stats (tasks s' i)) = accounted (p_stats (tasks s i))"
    by (simp_all add: f(1) st)
qed

lemmas stats_only_simps = stats_only_fields stats_only_task

section \<open>The queues as the scheduler sees them\<close>

text \<open>
  The abstract view: who runs, and the queues as lists of slots. Of a semaphore, \<open>None\<close> says
  that its queue head has never been initialised.
\<close>

record view =
  v_run :: nat
  v_idle :: nat
  v_free :: "nat list"
  v_ready :: "nat list"
  v_sem :: "nat \<Rightarrow> nat list option"

fun queue_of :: "view \<Rightarrow> lnode \<Rightarrow> nat list option" where
  "queue_of v FreeQ = Some (v_free v)"
| "queue_of v ReadyQ = Some (v_ready v)"
| "queue_of v (SemQ n) = v_sem v n"
| "queue_of v BlockedQ = None"
| "queue_of v (TaskN i) = None"

definition qmap :: "view \<Rightarrow> lnode \<Rightarrow> lnode list option" where
  "qmap v q = map_option (map TaskN) (queue_of v q)"

definition enqueued :: "view \<Rightarrow> nat \<Rightarrow> bool" where
  "enqueued v i \<longleftrightarrow> (\<exists>q xs. queue_of v q = Some xs \<and> i \<in> set xs)"

definition views :: "kstate \<Rightarrow> view \<Rightarrow> bool" where
  "views s v \<longleftrightarrow> queues (heap s) (qmap v) \<and> running s = v_run v \<and> idle_task s = Some (v_idle v)"

text \<open>
  Every slot is the running task, the idle task or in a queue; the running task is in no
  queue; the idle task is never free nor waiting for a semaphore. That no slot is in two
  queues, or twice in one, is part of \<^const>\<open>queues\<close>.
\<close>

definition view_ok :: "view \<Rightarrow> bool" where
  "view_ok v \<longleftrightarrow> v_run v < NR_TASKS \<and> v_idle v < NR_TASKS \<and> \<not> enqueued v (v_run v)
     \<and> (\<forall>i. enqueued v i \<longrightarrow> i < NR_TASKS)
     \<and> (\<forall>i < NR_TASKS. i = v_run v \<or> i = v_idle v \<or> enqueued v i)
     \<and> v_idle v \<notin> set (v_free v) \<and> (\<forall>n xs. v_sem v n = Some xs \<longrightarrow> v_idle v \<notin> set xs)"

lemma TaskN_in_nodes: "TaskN i \<in> nodes (qmap v) \<longleftrightarrow> enqueued v i"
proof
  assume "TaskN i \<in> nodes (qmap v)"
  then obtain q xs where "queue_of v q = Some xs" "TaskN i = q \<or> i \<in> set xs"
    by (auto simp: in_nodes qmap_def)
  then show "enqueued v i" by (auto simp: enqueued_def)
next
  assume "enqueued v i"
  then obtain q xs where "queue_of v q = Some xs" "i \<in> set xs" by (auto simp: enqueued_def)
  then show "TaskN i \<in> nodes (qmap v)" by (intro nodesI[of _ q "map TaskN xs"]) (simp_all add: qmap_def)
qed

lemma enqueued_iff:
  "enqueued v i \<longleftrightarrow> i \<in> set (v_free v) \<or> i \<in> set (v_ready v) \<or> (\<exists>n xs. v_sem v n = Some xs \<and> i \<in> set xs)"
proof
  assume "enqueued v i"
  then obtain q xs where "queue_of v q = Some xs" "i \<in> set xs" by (auto simp: enqueued_def)
  then show "i \<in> set (v_free v) \<or> i \<in> set (v_ready v) \<or> (\<exists>n xs. v_sem v n = Some xs \<and> i \<in> set xs)"
    by (cases q) auto
next
  assume "i \<in> set (v_free v) \<or> i \<in> set (v_ready v) \<or> (\<exists>n xs. v_sem v n = Some xs \<and> i \<in> set xs)"
  then show "enqueued v i" unfolding enqueued_def
    by (metis queue_of.simps(1) queue_of.simps(2) queue_of.simps(3))
qed

lemma qmap_upd:
  "(qmap v)(FreeQ \<mapsto> map TaskN xs) = qmap (v\<lparr>v_free := xs\<rparr>)"
  "(qmap v)(ReadyQ \<mapsto> map TaskN xs) = qmap (v\<lparr>v_ready := xs\<rparr>)"
  "(qmap v)(SemQ n \<mapsto> map TaskN xs) = qmap (v\<lparr>v_sem := (v_sem v)(n \<mapsto> xs)\<rparr>)"
proof -
  have "((qmap v)(FreeQ \<mapsto> map TaskN xs)) q = qmap (v\<lparr>v_free := xs\<rparr>) q" for q by (cases q) (simp_all add: qmap_def)
  moreover have "((qmap v)(ReadyQ \<mapsto> map TaskN xs)) q = qmap (v\<lparr>v_ready := xs\<rparr>) q" for q by (cases q) (simp_all add: qmap_def)
  moreover have "((qmap v)(SemQ n \<mapsto> map TaskN xs)) q = qmap (v\<lparr>v_sem := (v_sem v)(n \<mapsto> xs)\<rparr>) q" for q
    by (cases q) (simp_all add: qmap_def)
  ultimately show "(qmap v)(FreeQ \<mapsto> map TaskN xs) = qmap (v\<lparr>v_free := xs\<rparr>)"
    "(qmap v)(ReadyQ \<mapsto> map TaskN xs) = qmap (v\<lparr>v_ready := xs\<rparr>)"
    "(qmap v)(SemQ n \<mapsto> map TaskN xs) = qmap (v\<lparr>v_sem := (v_sem v)(n \<mapsto> xs)\<rparr>)" by blast+
qed

lemma qmap_apply [simp]:
  "qmap v FreeQ = Some (map TaskN (v_free v))" "qmap v ReadyQ = Some (map TaskN (v_ready v))"
  "qmap v (SemQ n) = map_option (map TaskN) (v_sem v n)" "qmap v (TaskN i) = None" "qmap v BlockedQ = None"
  by (simp_all add: qmap_def)

lemma qmap_cong: "v_free v = v_free w \<Longrightarrow> v_ready v = v_ready w \<Longrightarrow> v_sem v = v_sem w \<Longrightarrow> qmap v = qmap w"
proof
  fix q assume "v_free v = v_free w" "v_ready v = v_ready w" "v_sem v = v_sem w"
  then show "qmap v q = qmap w q" by (cases q) simp_all
qed

lemma qmap_run [simp]: "qmap (v\<lparr>v_run := i\<rparr>) = qmap v"
  by (rule qmap_cong) simp_all

subsection \<open>The list operations on a view\<close>

lemma empty_view:
  assumes "queues (heap s) (qmap v)" "queue_of v q = Some xs"
  shows "list_empty (Some q) (heap s) = Some (xs = [])"
  using lq.is_empty[OF assms(1), of q "map TaskN xs"] assms(2) by (simp add: qmap_def)

lemma first_view:
  assumes "queues h (qmap v)" "queue_of v q = Some (x # xs)"
  shows "list_first (Some q) h = Some (Some (TaskN x))"
  using lq.pop_first[OF assms(1), of q "TaskN x" "map TaskN xs"] assms(2) by (simp add: qmap_def)

lemma del_view:
  assumes "queues h (qmap v)" "queue_of v q = Some (x # xs)"
  shows "\<exists>h'. list_del (Some (TaskN x)) h = Some h' \<and> queues h' ((qmap v)(q \<mapsto> map TaskN xs))"
  using lq.pop_first[OF assms(1), of q "TaskN x" "map TaskN xs"] assms(2) by (simp add: qmap_def)

lemma add_tail_view:
  assumes "queues h (qmap v)" "queue_of v q = Some xs" "\<not> enqueued v i"
  shows "\<exists>h'. list_add_tail (Some (TaskN i)) (Some q) h = Some h' \<and> queues h' ((qmap v)(q \<mapsto> map TaskN (xs @ [i])))"
  using lq.add_tail[OF assms(1), of q "map TaskN xs" "TaskN i"] assms(2,3) by (simp add: qmap_def TaskN_in_nodes)

lemma queue_distinct:
  assumes "queues h (qmap v)" "queue_of v q = Some xs"
  shows "distinct xs"
  using lq.rep_distinct[OF assms(1), of q "map TaskN xs"] assms(2)
  by (auto simp: qmap_def distinct_map)

lemma queue_disjoint:
  assumes "queues h (qmap v)" "queue_of v q = Some xs" "queue_of v r = Some ys" "q \<noteq> r"
  shows "set xs \<inter> set ys = {}"
  using lq.rep_disjoint[OF assms(1), of q "map TaskN xs" r "map TaskN ys"] assms(2-4)
  by (auto simp: qmap_def)

lemma views_build:
  assumes "distinct (v_free v)" "distinct (v_ready v)" "set (v_free v) \<inter> set (v_ready v) = {}"
    and "v_sem v = Map.empty"
  shows "\<exists>h. queues h (qmap v)"
proof -
  have "queues \<lparr>nxt = \<lambda>_. None, prv = \<lambda>_. None\<rparr> (Map.empty :: lnode \<Rightarrow> lnode list option)" by (simp add: queues_def)
  from queues_build[OF this, of FreeQ "map TaskN (v_free v)"]
  obtain h1 where h1: "queues h1 [FreeQ \<mapsto> map TaskN (v_free v)]"
    using assms(1) by (auto simp: distinct_map inj_on_def)
  have n: "nodes ([FreeQ \<mapsto> map TaskN (v_free v)](ReadyQ := None)) = insert FreeQ (TaskN ` set (v_free v))"
    by (simp add: fun_upd_twist nodes_upd)
  from queues_build[OF h1, of ReadyQ "map TaskN (v_ready v)"]
  obtain h2 where h2: "queues h2 [FreeQ \<mapsto> map TaskN (v_free v), ReadyQ \<mapsto> map TaskN (v_ready v)]"
    unfolding n using assms(2,3) by (auto simp: distinct_map inj_on_def)
  have "[FreeQ \<mapsto> map TaskN (v_free v), ReadyQ \<mapsto> map TaskN (v_ready v)] q = qmap v q" for q
    using assms(4) by (cases q) simp_all
  then have "[FreeQ \<mapsto> map TaskN (v_free v), ReadyQ \<mapsto> map TaskN (v_ready v)] = qmap v" ..
  with h2 show ?thesis by auto
qed

end
