(* ===== verification/Sched.thy ===== *)
theory Sched
  imports Kernel_State
begin

text \<open>
  \<open>sched.c\<close>: the round-robin scheduler, the task switch and the initialisation of the idle and
  the first task. The specification is a \<open>view\<close> (who runs and who waits, in order); each
  operation refines a step on views.
\<close>

section \<open>Task switch\<close>

text \<open>
  \<open>switch_stack\<close> (\<open>kernel-utils.S\<close>) as \<open>inner_task_switch\<close> calls it: both arguments are
  evaluated first, so the new stack pointer is read before the old one is saved; then
  \<open>mov %ebp,(%eax)\<close>, \<open>mov 8(%esp),%esp\<close>, \<open>popl %ebp\<close>, \<open>ret\<close>. From here on the stack pointer is in the
  page of the new task, which is what \<open>current()\<close> reads.
\<close>

definition switch_stack :: "nat \<Rightarrow> DWord \<Rightarrow> kstate \<Rightarrow> kstate" where
  "switch_stack save new_sp s =
     (let s = upd_task save (\<lambda>t. t\<lparr>register_esp := cpu_ebp s\<rparr>) s
      in s\<lparr>cpu_ebp := read_stack s new_sp, cpu_eip := read_stack s (new_sp + 4)\<rparr>)"

definition inner_task_switch :: "nat \<Rightarrow> kstate \<Rightarrow> kstate" where
  "inner_task_switch new s =
     (let new_DIR = get_DIR (tasks s new);
          s = s\<lparr>tss_esp0 := stack_addr s new KERNEL_STACK_SIZE\<rparr>;
          s = s\<lparr>msr_175 := stack_addr s new KERNEL_STACK_SIZE\<rparr>;
          s = set_cr3 new_DIR s;
          new_sp = register_esp (tasks s new);
          s = switch_stack (running s) new_sp s
      in s\<lparr>running := new\<rparr>)"

text \<open>\<open>task_switch\<close> saves and restores \<open>%esi\<close>, \<open>%edi\<close> and \<open>%ebx\<close> around it.\<close>

definition task_switch :: "nat \<Rightarrow> kstate \<Rightarrow> kstate" where
  "task_switch new s = inner_task_switch new s"

section \<open>The round-robin policy\<close>

definition DEFAULT_QUANTUM :: DWord where "DEFAULT_QUANTUM = 10"

definition get_quantum :: "task_struct \<Rightarrow> DWord" where
  "get_quantum t = total_quantum t"

definition set_quantum :: "nat \<Rightarrow> DWord \<Rightarrow> kstate \<Rightarrow> kstate" where
  "set_quantum t new_quantum s = upd_task t (\<lambda>ts. ts\<lparr>total_quantum := new_quantum\<rparr>) s"

definition update_sched_data_rr :: "kstate \<Rightarrow> kstate" where
  "update_sched_data_rr s = s\<lparr>remaining_quantum := remaining_quantum s - 1\<rparr>"

definition needs_sched_rr :: "kstate \<Rightarrow> (bool \<times> kstate) option" where
  "needs_sched_rr s = do {
     e \<leftarrow> list_empty (Some ReadyQ) (heap s);
     if remaining_quantum s = 0 \<and> \<not> e then Some (True, s)
     else if remaining_quantum s = 0
          then Some (False, s\<lparr>remaining_quantum := get_quantum (current s)\<rparr>)
          else Some (False, s) }"

definition update_process_state_rr :: "nat \<Rightarrow> lnode option \<Rightarrow> kstate \<Rightarrow> kstate option" where
  "update_process_state_rr t dst_queue s = do {
     s \<leftarrow> (if tstate (tasks s t) \<noteq> ST_RUN
          then do { h \<leftarrow> list_del (Some (TaskN t)) (heap s); Some (s\<lparr>heap := h\<rparr>) }
          else Some s);
     if dst_queue \<noteq> None then do {
       h \<leftarrow> list_add_tail (Some (TaskN t)) dst_queue (heap s);
       let s = s\<lparr>heap := h\<rparr>;
       if dst_queue \<noteq> Some ReadyQ then Some (upd_task t (\<lambda>ts. ts\<lparr>tstate := ST_BLOCKED\<rparr>) s)
       else do { s \<leftarrow> charge_system t s; Some (upd_task t (\<lambda>ts. ts\<lparr>tstate := ST_READY\<rparr>) s) } }
     else Some (upd_task t (\<lambda>ts. ts\<lparr>tstate := ST_RUN\<rparr>) s) }"

definition sched_next_rr :: "kstate \<Rightarrow> kstate option" where
  "sched_next_rr s = do {
     e \<leftarrow> list_empty (Some ReadyQ) (heap s);
     (t, s) \<leftarrow> (if \<not> e then do {
                   l \<leftarrow> list_first (Some ReadyQ) (heap s);
                   h \<leftarrow> list_del l (heap s);
                   t \<leftarrow> list_head_to_task_struct l;
                   Some (t, s\<lparr>heap := h\<rparr>) }
               else do { t \<leftarrow> idle_task s; Some (t, s) });
     let s = upd_task t (\<lambda>ts. ts\<lparr>tstate := ST_RUN\<rparr>) s;
     let s = s\<lparr>remaining_quantum := get_quantum (tasks s t)\<rparr>;
     s \<leftarrow> charge_system (running s) s;
     s \<leftarrow> charge_ready t s;
     let s = upd_task t (\<lambda>ts. ts\<lparr>p_stats := (p_stats ts)\<lparr>total_trans := total_trans (p_stats ts) + 1\<rparr>\<rparr>) s;
     Some (task_switch t s) }"

definition schedule :: "kstate \<Rightarrow> kstate option" where
  "schedule s = do {
     let s = update_sched_data_rr s;
     (need, s) \<leftarrow> needs_sched_rr s;
     if need then do { s \<leftarrow> update_process_state_rr (running s) (Some ReadyQ) s; sched_next_rr s }
     else Some s }"

definition force_task_switch :: "kstate \<Rightarrow> kstate option" where
  "force_task_switch s = do { s \<leftarrow> update_process_state_rr (running s) (Some ReadyQ) s; sched_next_rr s }"

section \<open>What scheduling leaves alone\<close>

definition sched_frame :: "kstate \<Rightarrow> kstate \<Rightarrow> bool" where
  "sched_frame s s' \<longleftrightarrow> mm s' = mm s \<and> kbd s' = kbd s \<and> scr s' = scr s \<and> list_sem s' = list_sem s
     \<and> global_PID s' = global_PID s \<and> global_TID s' = global_TID s \<and> zeos_ticks s' = zeos_ticks s
     \<and> kstack s' = kstack s \<and> task_base s' = task_base s \<and> tsc s' = tsc s \<and> idle_task s' = idle_task s
     \<and> (\<forall>i. PID (tasks s' i) = PID (tasks s i) \<and> TID (tasks s' i) = TID (tasks s i)
           \<and> destroyed (tasks s' i) = destroyed (tasks s i)
           \<and> dir_pages_baseAddr (tasks s' i) = dir_pages_baseAddr (tasks s i)
           \<and> total_quantum (tasks s' i) = total_quantum (tasks s i)
           \<and> accounted (p_stats (tasks s' i)) = accounted (p_stats (tasks s i)))"

lemma sched_frame_refl [simp]: "sched_frame s s"
  by (simp add: sched_frame_def)

lemma sched_frame_trans: "sched_frame s t \<Longrightarrow> sched_frame t u \<Longrightarrow> sched_frame s u"
  by (simp add: sched_frame_def)

lemma sched_frame_stats: "stats_only s s' \<Longrightarrow> sched_frame s s'"
  by (simp add: sched_frame_def stats_only_simps)

lemma sched_frame_upd [simp]:
  "sched_frame s (s\<lparr>heap := h\<rparr>)" "sched_frame s (s\<lparr>remaining_quantum := q\<rparr>)"
  "sched_frame s (upd_task t (\<lambda>ts. ts\<lparr>tstate := st\<rparr>) s)"
  "sched_frame s (upd_task t (\<lambda>ts. ts\<lparr>p_stats := (p_stats ts)\<lparr>total_trans := f ts\<rparr>\<rparr>) s)"
  by (simp_all add: sched_frame_def upd_task_def accounted_def)

lemma task_switch_simps [simp]:
  "running (task_switch t s) = t" "heap (task_switch t s) = heap s"
  "idle_task (task_switch t s) = idle_task s" "remaining_quantum (task_switch t s) = remaining_quantum s"
  "tstate (tasks (task_switch t s) i) = tstate (tasks s i)"
  "register_esp (tasks (task_switch t s) i) = (if i = running s then cpu_ebp s else register_esp (tasks s i))"
  "cr3 (task_switch t s) = dir_pages_baseAddr (tasks s t)"
  "tss_esp0 (task_switch t s) = stack_addr s t KERNEL_STACK_SIZE"
  by (simp_all add: task_switch_def inner_task_switch_def switch_stack_def upd_task_def set_cr3_def
      get_DIR_def stack_addr_def Let_def)

lemma task_switch_frame [simp]: "sched_frame s (task_switch t s)"
  by (simp add: sched_frame_def task_switch_def inner_task_switch_def switch_stack_def upd_task_def
      set_cr3_def Let_def)

lemma task_switch_regs:
  "cpu_ebp (task_switch t s) = read_stack s (register_esp (tasks s t))"
  "cpu_eip (task_switch t s) = read_stack s (register_esp (tasks s t) + 4)"
  by (simp_all add: task_switch_def inner_task_switch_def switch_stack_def upd_task_def set_cr3_def
      read_stack_def stack_slot_def stack_index_def Let_def)

section \<open>Steps on views\<close>

definition next_view :: "view \<Rightarrow> view" where
  "next_view v = (case v_ready v of [] \<Rightarrow> v\<lparr>v_run := v_idle v\<rparr> | t # ts \<Rightarrow> v\<lparr>v_run := t, v_ready := ts\<rparr>)"

definition preempt_view :: "view \<Rightarrow> view" where
  "preempt_view v = next_view (v\<lparr>v_ready := v_ready v @ [v_run v]\<rparr>)"

lemma next_view_simps [simp]:
  "v_idle (next_view v) = v_idle v" "v_free (next_view v) = v_free v" "v_sem (next_view v) = v_sem v"
  by (simp_all add: next_view_def split: list.splits)

text \<open>What \<open>sched_next_rr\<close> does, in one fact.\<close>

definition switched :: "nat \<Rightarrow> kstate \<Rightarrow> kstate \<Rightarrow> bool" where
  "switched t s s' \<longleftrightarrow> sched_frame s s' \<and> remaining_quantum s' = total_quantum (tasks s t)
     \<and> (\<forall>i. tstate (tasks s' i) = (if i = t then ST_RUN else tstate (tasks s i)))
     \<and> (\<forall>i. register_esp (tasks s' i) = (if i = running s then cpu_ebp s else register_esp (tasks s i)))
     \<and> cpu_ebp s' = read_stack s (register_esp (tasks s t))
     \<and> cpu_eip s' = read_stack s (register_esp (tasks s t) + 4)
     \<and> cr3 s' = dir_pages_baseAddr (tasks s t)
     \<and> tss_esp0 s' = stack_addr s t KERNEL_STACK_SIZE"

text \<open>The part of \<open>sched_next_rr\<close> after the choice of the next task.\<close>

definition dispatch :: "nat \<Rightarrow> kstate \<Rightarrow> kstate option" where
  "dispatch t s = do {
     let s = upd_task t (\<lambda>ts. ts\<lparr>tstate := ST_RUN\<rparr>) s;
     let s = s\<lparr>remaining_quantum := get_quantum (tasks s t)\<rparr>;
     s \<leftarrow> charge_system (running s) s;
     s \<leftarrow> charge_ready t s;
     let s = upd_task t (\<lambda>ts. ts\<lparr>p_stats := (p_stats ts)\<lparr>total_trans := total_trans (p_stats ts) + 1\<rparr>\<rparr>) s;
     Some (task_switch t s) }"

lemma dispatch_switched:
  "\<exists>s'. dispatch t s = Some s' \<and> running s' = t \<and> heap s' = heap s \<and> switched t s s'"
proof -
  let ?s1 = "upd_task t (\<lambda>ts. ts\<lparr>tstate := ST_RUN\<rparr>) s"
  let ?s2 = "?s1\<lparr>remaining_quantum := get_quantum (tasks ?s1 t)\<rparr>"
  obtain s3 where s3: "charge_system (running ?s2) ?s2 = Some s3" "stats_only ?s2 s3"
    using charge_stats_only(2) by blast
  obtain s4 where s4: "charge_ready t s3 = Some s4" "stats_only s3 s4"
    using charge_stats_only(3) by blast
  let ?s5 = "upd_task t (\<lambda>ts. ts\<lparr>p_stats := (p_stats ts)\<lparr>total_trans := total_trans (p_stats ts) + 1\<rparr>\<rparr>) s4"
  have run: "dispatch t s = Some (task_switch t ?s5)"
    using s3(1) s4(1) by (simp add: dispatch_def Let_def)
  have "sched_frame s ?s1" "sched_frame ?s1 ?s2" "sched_frame ?s2 s3" "sched_frame s3 s4"
    "sched_frame s4 ?s5" "sched_frame ?s5 (task_switch t ?s5)"
    using s3(2) s4(2) by (simp_all add: sched_frame_stats)
  then have fr: "sched_frame s (task_switch t ?s5)" by (meson sched_frame_trans)
  have "switched t s (task_switch t ?s5)"
    unfolding switched_def using fr
    by (auto simp: task_switch_regs upd_task_def stats_only_simps[OF s4(2)] stats_only_simps[OF s3(2)]
        get_quantum_def read_stack_def stack_slot_def stack_index_def stack_addr_def)
  then show ?thesis
    using run by (auto simp: upd_task_def stats_only_simps[OF s4(2)] stats_only_simps[OF s3(2)])
qed

lemma sched_next_rr_dispatch:
  "sched_next_rr s = do {
     e \<leftarrow> list_empty (Some ReadyQ) (heap s);
     (t, s) \<leftarrow> (if \<not> e then do {
                   l \<leftarrow> list_first (Some ReadyQ) (heap s);
                   h \<leftarrow> list_del l (heap s);
                   t \<leftarrow> list_head_to_task_struct l;
                   Some (t, s\<lparr>heap := h\<rparr>) }
               else do { t \<leftarrow> idle_task s; Some (t, s) });
     dispatch t s }"
  by (simp add: sched_next_rr_def dispatch_def)

lemma sched_next_refines:
  assumes "views s v"
  shows "\<exists>s'. sched_next_rr s = Some s' \<and> views s' (next_view v) \<and> switched (v_run (next_view v)) s s'"
proof (cases "v_ready v")
  case Nil
  obtain s' where s': "dispatch (v_idle v) s = Some s'" "running s' = v_idle v" "heap s' = heap s"
    "switched (v_idle v) s s'" using dispatch_switched by blast
  have "list_empty (Some ReadyQ) (heap s) = Some True"
    using empty_view[of s v ReadyQ "[]"] assms Nil by (simp add: views_def)
  then have "sched_next_rr s = Some s'"
    using assms s'(1) by (simp add: sched_next_rr_dispatch views_def)
  moreover have "views s' (next_view v)"
    using assms s' Nil by (simp add: views_def next_view_def switched_def sched_frame_def)
  ultimately show ?thesis using s'(4) Nil by (simp add: next_view_def)
next
  case (Cons t ts)
  have q: "queues (heap s) (qmap v)" "queue_of v ReadyQ = Some (t # ts)"
    using assms Cons by (simp_all add: views_def)
  obtain h where h: "list_del (Some (TaskN t)) (heap s) = Some h" "queues h (qmap (v\<lparr>v_ready := ts\<rparr>))"
    using del_view[OF q] by (auto simp: qmap_upd)
  obtain s' where s': "dispatch t (s\<lparr>heap := h\<rparr>) = Some s'" "running s' = t" "heap s' = h"
    "switched t (s\<lparr>heap := h\<rparr>) s'" using dispatch_switched[of t "s\<lparr>heap := h\<rparr>"] by auto
  have "sched_next_rr s = Some s'"
    using s'(1) h(1) first_view[OF q] empty_view[OF q(1) q(2)]
    by (simp add: sched_next_rr_dispatch list_head_to_task_struct_def)
  moreover have "switched t s s'"
    using s'(4) by (simp add: switched_def sched_frame_def read_stack_def stack_slot_def stack_index_def stack_addr_def)
  moreover have "views s' (next_view v)"
  proof -
    have "qmap (next_view v) = qmap (v\<lparr>v_ready := ts\<rparr>)"
      by (rule qmap_cong) (simp_all add: next_view_def Cons)
    then show ?thesis
      using assms h s' Cons by (simp add: views_def next_view_def switched_def sched_frame_def)
  qed
  ultimately show ?thesis using Cons by (auto simp: next_view_def)
qed

lemma update_process_state_ready:
  assumes "views s v" "\<not> enqueued v (v_run v)" "tstate (tasks s (v_run v)) = ST_RUN"
  shows "\<exists>s'. update_process_state_rr (running s) (Some ReadyQ) s = Some s'
     \<and> views s' (v\<lparr>v_ready := v_ready v @ [v_run v]\<rparr>) \<and> sched_frame s s'
     \<and> remaining_quantum s' = remaining_quantum s
     \<and> (\<forall>i. tstate (tasks s' i) = (if i = v_run v then ST_READY else tstate (tasks s i)))
     \<and> (\<forall>i. register_esp (tasks s' i) = register_esp (tasks s i))
     \<and> cpu_ebp s' = cpu_ebp s"
proof -
  obtain h where h: "list_add_tail (Some (TaskN (v_run v))) (Some ReadyQ) (heap s) = Some h"
    "queues h (qmap (v\<lparr>v_ready := v_ready v @ [v_run v]\<rparr>))"
    using add_tail_view[of "heap s" v ReadyQ "v_ready v" "v_run v"] assms(1,2)
    by (auto simp: views_def qmap_upd simp flip: map_append)
  obtain s1 where s1: "charge_system (v_run v) (s\<lparr>heap := h\<rparr>) = Some s1" "stats_only (s\<lparr>heap := h\<rparr>) s1"
    using charge_stats_only(2) by blast
  let ?s2 = "upd_task (v_run v) (\<lambda>ts. ts\<lparr>tstate := ST_READY\<rparr>) s1"
  have "update_process_state_rr (running s) (Some ReadyQ) s = Some ?s2"
    using assms h(1) s1(1) by (simp add: update_process_state_rr_def views_def Let_def)
  moreover have "sched_frame s ?s2"
    using sched_frame_trans[of s "s\<lparr>heap := h\<rparr>" s1] sched_frame_trans[of s s1 ?s2] s1(2)
    by (simp add: sched_frame_stats)
  moreover have "views ?s2 (v\<lparr>v_ready := v_ready v @ [v_run v]\<rparr>)"
    using assms(1) h(2) by (simp add: views_def upd_task_def stats_only_simps[OF s1(2)])
  ultimately show ?thesis
    by (intro exI[of _ ?s2]) (simp add: upd_task_def stats_only_simps[OF s1(2)])
qed


section \<open>The scheduling operations on a consistent kernel\<close>

text \<open>
  \<open>sched_ok s v\<close>: the kernel's queues are \<open>v\<close>, every slot has one place, and the running task is
  in state \<open>ST_RUN\<close>.
\<close>

definition sched_ok :: "kstate \<Rightarrow> view \<Rightarrow> bool" where
  "sched_ok s v \<longleftrightarrow> views s v \<and> view_ok v \<and> tstate (tasks s (v_run v)) = ST_RUN"

lemma sched_okD:
  assumes "sched_ok s v"
  shows "views s v" "view_ok v" "tstate (tasks s (v_run v)) = ST_RUN" "running s = v_run v"
    "idle_task s = Some (v_idle v)" "queues (heap s) (qmap v)" "\<not> enqueued v (v_run v)"
  using assms by (simp_all add: sched_ok_def views_def view_ok_def)

text \<open>A view between two tasks: the old one is in a queue, the new one has not been chosen yet.\<close>

definition between :: "view \<Rightarrow> bool" where
  "between v \<longleftrightarrow> v_idle v < NR_TASKS \<and> (\<forall>i. enqueued v i \<longrightarrow> i < NR_TASKS)
     \<and> (\<forall>i < NR_TASKS. i = v_idle v \<or> enqueued v i)
     \<and> v_idle v \<notin> set (v_free v) \<and> (\<forall>n xs. v_sem v n = Some xs \<longrightarrow> v_idle v \<notin> set xs)"

lemma between_ready: "view_ok v \<Longrightarrow> between (v\<lparr>v_ready := v_ready v @ [v_run v]\<rparr>)"
  unfolding view_ok_def between_def enqueued_iff by auto

lemma between_free: "view_ok v \<Longrightarrow> v_run v \<noteq> v_idle v \<Longrightarrow> between (v\<lparr>v_free := v_free v @ [v_run v]\<rparr>)"
  unfolding view_ok_def between_def enqueued_iff by auto

lemma between_sem:
  assumes "view_ok v" "v_run v \<noteq> v_idle v" "v_sem v n = Some xs"
  shows "between (v\<lparr>v_sem := (v_sem v)(n \<mapsto> xs @ [v_run v])\<rparr>)"
proof -
  let ?w = "v\<lparr>v_sem := (v_sem v)(n \<mapsto> xs @ [v_run v])\<rparr>"
  have "enqueued ?w i \<longleftrightarrow> enqueued v i \<or> i = v_run v" for i
  proof
    assume "enqueued ?w i"
    then show "enqueued v i \<or> i = v_run v" using assms(3) unfolding enqueued_iff by (auto split: if_splits)
  next
    assume "enqueued v i \<or> i = v_run v"
    then show "enqueued ?w i"
    proof
      assume "i = v_run v"
      then show ?thesis unfolding enqueued_def by (intro exI[of _ "SemQ n"]) simp
    next
      assume "enqueued v i"
      then obtain q ys where q: "queue_of v q = Some ys" "i \<in> set ys" unfolding enqueued_def by blast
      then have "\<exists>zs. queue_of ?w q = Some zs \<and> i \<in> set zs" using assms(3) by (cases q) auto
      then show ?thesis unfolding enqueued_def by blast
    qed
  qed
  then show ?thesis using assms unfolding view_ok_def between_def by (auto split: if_splits)
qed

lemma view_ok_next:
  assumes "between v" "queues h (qmap v)"
  shows "view_ok (next_view v)"
proof (cases "v_ready v")
  case Nil
  then show ?thesis
    using assms(1) unfolding between_def view_ok_def enqueued_iff next_view_def by auto
next
  case (Cons t ts)
  have q: "queue_of v ReadyQ = Some (t # ts)" using Cons by simp
  have "t \<notin> set ts" using queue_distinct[OF assms(2) q] by simp
  moreover have "t \<notin> set (v_free v)" using queue_disjoint[OF assms(2) q, of FreeQ "v_free v"] by auto
  moreover have "t \<notin> set xs" if "v_sem v n = Some xs" for n xs
    using queue_disjoint[OF assms(2) q, of "SemQ n" xs] that by auto
  ultimately show ?thesis
    using assms(1) Cons unfolding between_def view_ok_def enqueued_iff next_view_def by auto
qed

text \<open>What one forced switch does.\<close>

lemma force_task_switch_step:
  assumes "sched_ok s v"
  shows "\<exists>s'. force_task_switch s = Some s' \<and> sched_ok s' (preempt_view v) \<and> sched_frame s s'
     \<and> remaining_quantum s' = total_quantum (tasks s (v_run (preempt_view v)))
     \<and> (\<forall>i. register_esp (tasks s' i) = (if i = v_run v then cpu_ebp s else register_esp (tasks s i)))
     \<and> cpu_ebp s' = read_stack s (register_esp (tasks s (v_run (preempt_view v))))
     \<and> cpu_eip s' = read_stack s (register_esp (tasks s (v_run (preempt_view v))) + 4)
     \<and> cr3 s' = dir_pages_baseAddr (tasks s (v_run (preempt_view v)))
     \<and> tss_esp0 s' = stack_addr s (v_run (preempt_view v)) KERNEL_STACK_SIZE"
proof -
  note ok = sched_okD[OF assms]
  let ?w = "v\<lparr>v_ready := v_ready v @ [v_run v]\<rparr>"
  obtain s1 where s1: "update_process_state_rr (running s) (Some ReadyQ) s = Some s1" "views s1 ?w" "sched_frame s s1"
     "\<forall>i. tstate (tasks s1 i) = (if i = v_run v then ST_READY else tstate (tasks s i))"
     "\<forall>i. register_esp (tasks s1 i) = register_esp (tasks s i)" "cpu_ebp s1 = cpu_ebp s"
    using update_process_state_ready[OF ok(1,7,3)] by blast
  obtain s2 where s2: "sched_next_rr s1 = Some s2" "views s2 (next_view ?w)" "switched (v_run (next_view ?w)) s1 s2"
    using sched_next_refines[OF s1(2)] by blast
  have "view_ok (next_view ?w)"
    using view_ok_next[OF between_ready[OF ok(2)], of "heap s1"] s1(2) by (simp add: views_def)
  moreover have "running s1 = v_run v" "kstack s1 = kstack s" "task_base s1 = task_base s"
    using s1(2,3) by (simp_all add: views_def sched_frame_def)
  moreover have "sched_frame s s2" using s1(3) s2(3) sched_frame_trans unfolding switched_def by blast
  ultimately show ?thesis
    using s1 s2 unfolding preempt_view_def sched_ok_def switched_def
    by (simp add: force_task_switch_def read_stack_def stack_slot_def stack_index_def stack_addr_def sched_frame_def)
qed

lemma preempt_view_eq:
  "preempt_view v = v\<lparr>v_run := hd (v_ready v @ [v_run v]), v_ready := tl (v_ready v @ [v_run v])\<rparr>"
  by (cases "v_ready v") (simp_all add: preempt_view_def next_view_def)

text \<open>What one clock tick does.\<close>

definition tick_view :: "DWord \<Rightarrow> view \<Rightarrow> view" where
  "tick_view q v = (if q = 1 \<and> v_ready v \<noteq> [] then preempt_view v else v)"

lemma schedule_step:
  assumes "sched_ok s v"
  shows "\<exists>s'. schedule s = Some s' \<and> sched_ok s' (tick_view (remaining_quantum s) v) \<and> sched_frame s s'
     \<and> remaining_quantum s' = (if remaining_quantum s = 1
          then total_quantum (tasks s (v_run (tick_view (remaining_quantum s) v)))
          else remaining_quantum s - 1)"
proof -
  note ok = sched_okD[OF assms]
  let ?s1 = "update_sched_data_rr s"
  have e: "list_empty (Some ReadyQ) (heap s) = Some (v_ready v = [])"
    using empty_view[OF ok(6), of ReadyQ] by simp
  have rq: "remaining_quantum ?s1 = 0 \<longleftrightarrow> remaining_quantum s = 1" by (simp add: update_sched_data_rr_def)
  have fr: "sched_frame s ?s1" by (simp add: update_sched_data_rr_def)
  have ok1: "sched_ok ?s1 v" using assms by (simp add: update_sched_data_rr_def sched_ok_def views_def)
  show ?thesis
  proof (cases "remaining_quantum s = 1 \<and> v_ready v \<noteq> []")
    case True
    then have "schedule s = force_task_switch ?s1"
      using rq e by (simp add: schedule_def needs_sched_rr_def force_task_switch_def update_sched_data_rr_def)
    moreover obtain s' where s': "force_task_switch ?s1 = Some s'" "sched_ok s' (preempt_view v)"
      "sched_frame ?s1 s'" "remaining_quantum s' = total_quantum (tasks ?s1 (v_run (preempt_view v)))"
      using force_task_switch_step[OF ok1] by blast
    moreover have "sched_frame s s'" using fr s'(3) by (rule sched_frame_trans)
    ultimately show ?thesis using True
      by (intro exI[of _ s']) (simp add: tick_view_def update_sched_data_rr_def)
  next
    case False
    let ?s2 = "if remaining_quantum s = 1 then s\<lparr>remaining_quantum := total_quantum (tasks s (v_run v))\<rparr> else ?s1"
    have "schedule s = Some ?s2"
      using False e ok(4) rq
      by (auto simp: schedule_def needs_sched_rr_def update_sched_data_rr_def current_def get_quantum_def)
    moreover have "sched_ok ?s2 v"
      using ok1 assms by (simp add: sched_ok_def views_def update_sched_data_rr_def)
    ultimately show ?thesis using False fr
      by (intro exI[of _ ?s2]) (auto simp: tick_view_def update_sched_data_rr_def)
  qed
qed

text \<open>Any number of forced switches rotates the ring of the running and the ready tasks.\<close>

lemma preempt_view_ring: "v_run (preempt_view v) # v_ready (preempt_view v) = rotate1 (v_run v # v_ready v)"
  by (cases "v_ready v") (simp_all add: preempt_view_eq)

lemma preempt_view_simps [simp]:
  "v_idle (preempt_view v) = v_idle v" "v_free (preempt_view v) = v_free v" "v_sem (preempt_view v) = v_sem v"
  by (simp_all add: preempt_view_def)

lemma forced_switches:
  assumes "sched_ok s v"
  shows "\<exists>s' v'. repeat_op k force_task_switch s = Some s' \<and> sched_ok s' v' \<and> sched_frame s s'
     \<and> v_run v' # v_ready v' = rotate k (v_run v # v_ready v)
     \<and> v_idle v' = v_idle v \<and> v_free v' = v_free v \<and> v_sem v' = v_sem v"
proof (induction k)
  case 0
  then show ?case using assms by (intro exI[of _ s] exI[of _ v]) simp
next
  case (Suc k)
  then obtain s1 v1 where 1: "repeat_op k force_task_switch s = Some s1" "sched_ok s1 v1" "sched_frame s s1"
     "v_run v1 # v_ready v1 = rotate k (v_run v # v_ready v)"
     "v_idle v1 = v_idle v" "v_free v1 = v_free v" "v_sem v1 = v_sem v" by blast
  obtain s2 where 2: "force_task_switch s1 = Some s2" "sched_ok s2 (preempt_view v1)" "sched_frame s1 s2"
    using force_task_switch_step[OF 1(2)] by blast
  have "repeat_op (Suc k) force_task_switch s = Some s2" unfolding repeat_op_Suc using 1(1) 2(1) by simp
  moreover have "v_run (preempt_view v1) # v_ready (preempt_view v1) = rotate (Suc k) (v_run v # v_ready v)"
    unfolding preempt_view_ring 1(4) by simp
  ultimately show ?case
    using 1 2 sched_frame_trans[OF 1(3) 2(3)] by (intro exI[of _ s2] exI[of _ "preempt_view v1"]) simp
qed

text \<open>A whole time slice.\<close>

lemma ticks_of_slice:
  assumes "sched_ok s v" "n < unat (remaining_quantum s)"
  shows "\<exists>s'. repeat_op n schedule s = Some s' \<and> sched_ok s' v \<and> sched_frame s s'
     \<and> unat (remaining_quantum s') = unat (remaining_quantum s) - n"
  using assms(2)
proof (induction n)
  case 0
  then show ?case using assms by simp
next
  case (Suc n)
  then obtain s1 where 1: "repeat_op n schedule s = Some s1" "sched_ok s1 v" "sched_frame s s1"
     "unat (remaining_quantum s1) = unat (remaining_quantum s) - n" by auto
  then have "unat (remaining_quantum s1) > 1" using Suc.prems by simp
  then have ne: "remaining_quantum s1 \<noteq> 1" "remaining_quantum s1 \<noteq> 0" by auto
  obtain s2 where 2: "schedule s1 = Some s2" "sched_ok s2 v" "sched_frame s1 s2"
     "remaining_quantum s2 = remaining_quantum s1 - 1"
    using schedule_step[OF 1(2)] ne by (auto simp: tick_view_def)
  have "unat (remaining_quantum s2) = unat (remaining_quantum s1) - 1"
    unfolding 2(4) using ne(2) unat_minus_one[of "remaining_quantum s1"] by simp
  moreover have "repeat_op (Suc n) schedule s = Some s2" unfolding repeat_op_Suc using 1(1) 2(1) by simp
  ultimately show ?case using 1 2 sched_frame_trans[OF 1(3) 2(3)] by (intro exI[of _ s2]) simp
qed

lemma whole_slice:
  assumes "sched_ok s v" "remaining_quantum s \<noteq> 0" "v_ready v \<noteq> []"
  shows "\<exists>s'. repeat_op (unat (remaining_quantum s)) schedule s = Some s' \<and> sched_ok s' (preempt_view v)
     \<and> sched_frame s s' \<and> remaining_quantum s' = total_quantum (tasks s (v_run (preempt_view v)))"
proof -
  obtain m where n: "unat (remaining_quantum s) = Suc m"
    using assms(2) by (cases "unat (remaining_quantum s)") (simp_all add: unat_eq_0)
  then obtain s1 where 1: "repeat_op m schedule s = Some s1" "sched_ok s1 v" "sched_frame s s1"
     "unat (remaining_quantum s1) = 1" using ticks_of_slice[OF assms(1), of m] by auto
  then have "remaining_quantum s1 = 1" by (metis unsigned_1 word_unat_eq_iff)
  then obtain s2 where 2: "schedule s1 = Some s2" "sched_ok s2 (preempt_view v)" "sched_frame s1 s2"
     "remaining_quantum s2 = total_quantum (tasks s1 (v_run (preempt_view v)))"
    using schedule_step[OF 1(2)] assms(3) by (auto simp: tick_view_def)
  have "repeat_op (unat (remaining_quantum s)) schedule s = Some s2"
    unfolding n repeat_op_Suc using 1(1) 2(1) by simp
  then show ?thesis using 1 2 sched_frame_trans[OF 1(3) 2(3)] by (auto simp: sched_frame_def)
qed

lemma time_slices:
  assumes "sched_ok s v" "remaining_quantum s \<noteq> 0" "\<And>i. i \<in> set (v_ready v) \<Longrightarrow> total_quantum (tasks s i) \<noteq> 0"
    and "k < length (v_ready v)"
  shows "\<exists>s' v'. repeat_op (unat (remaining_quantum s)
            + sum_list (map (\<lambda>i. unat (total_quantum (tasks s i))) (take k (v_ready v)))) schedule s = Some s'
     \<and> sched_ok s' v' \<and> sched_frame s s' \<and> v_run v' # v_ready v' = rotate (Suc k) (v_run v # v_ready v)
     \<and> remaining_quantum s' = total_quantum (tasks s (v_ready v ! k))"
  using assms(4)
proof (induction k)
  case 0
  then have "v_ready v \<noteq> []" by auto
  then obtain s' where "repeat_op (unat (remaining_quantum s)) schedule s = Some s'" "sched_ok s' (preempt_view v)"
     "sched_frame s s'" "remaining_quantum s' = total_quantum (tasks s (v_run (preempt_view v)))"
    using whole_slice[OF assms(1,2)] by blast
  moreover have "v_run (preempt_view v) = v_ready v ! 0"
    using \<open>v_ready v \<noteq> []\<close> by (cases "v_ready v") (simp_all add: preempt_view_eq)
  ultimately show ?case
    using preempt_view_ring[of v] by (intro exI[of _ s'] exI[of _ "preempt_view v"]) simp
next
  case (Suc k)
  let ?t = "\<lambda>k. unat (remaining_quantum s) + sum_list (map (\<lambda>i. unat (total_quantum (tasks s i))) (take k (v_ready v)))"
  obtain s1 v1 where 1: "repeat_op (?t k) schedule s = Some s1" "sched_ok s1 v1" "sched_frame s s1"
     "v_run v1 # v_ready v1 = rotate (Suc k) (v_run v # v_ready v)"
     "remaining_quantum s1 = total_quantum (tasks s (v_ready v ! k))"
    using Suc.IH Suc.prems by auto
  have k: "k < length (v_ready v)" using Suc.prems by simp
  have "length (v_run v1 # v_ready v1) = Suc (length (v_ready v))" unfolding 1(4) by simp
  then have "v_ready v1 \<noteq> []" using Suc.prems by auto
  moreover have "remaining_quantum s1 \<noteq> 0" unfolding 1(5) using assms(3) k by simp
  ultimately obtain s2 where 2: "repeat_op (unat (remaining_quantum s1)) schedule s1 = Some s2"
     "sched_ok s2 (preempt_view v1)" "sched_frame s1 s2"
     "remaining_quantum s2 = total_quantum (tasks s1 (v_run (preempt_view v1)))"
    using whole_slice[OF 1(2)] by blast
  have ring: "v_run (preempt_view v1) # v_ready (preempt_view v1) = rotate (Suc (Suc k)) (v_run v # v_ready v)"
    unfolding preempt_view_ring 1(4) by simp
  have "hd (rotate (Suc (Suc k)) (v_run v # v_ready v)) = (v_run v # v_ready v) ! Suc (Suc k)"
    by (subst hd_rotate_conv_nth) (use Suc.prems in simp_all)
  then have "v_run (preempt_view v1) = v_ready v ! Suc k" unfolding ring[symmetric] by simp
  moreover have "?t (Suc k) = ?t k + unat (remaining_quantum s1)"
    unfolding 1(5) using k by (simp add: take_Suc_conv_app_nth)
  then have "repeat_op (?t (Suc k)) schedule s = Some s2"
    using 1(1) 2(1) by (simp only: repeat_op_add) simp
  moreover have "sched_frame s s2" using 1(3) 2(3) by (rule sched_frame_trans)
  ultimately show ?case using 2(2,4) 1(3) ring
    by (intro exI[of _ s2] exI[of _ "preempt_view v1"]) (simp add: sched_frame_def)
qed

text \<open>The running task queues itself on \<open>freequeue\<close> or on a semaphore and lets the next one run.\<close>

lemma leave_processor:
  assumes "sched_ok s v" "queue_of v q = Some xs" "between w"
    and "(qmap v)(q \<mapsto> map TaskN (xs @ [v_run v])) = qmap w" "v_idle w = v_idle v"
  shows "\<exists>h s'. list_add_tail (Some (TaskN (v_run v))) (Some q) (heap s) = Some h
     \<and> sched_next_rr (s\<lparr>heap := h\<rparr>) = Some s' \<and> sched_ok s' (next_view w) \<and> switched (v_run (next_view w)) s s'"
proof -
  note ok = sched_okD[OF assms(1)]
  obtain h where h: "list_add_tail (Some (TaskN (v_run v))) (Some q) (heap s) = Some h" "queues h (qmap w)"
    using add_tail_view[OF ok(6) assms(2) ok(7)] assms(4) by auto
  let ?w = "w\<lparr>v_run := v_run v\<rparr>"
  have "views (s\<lparr>heap := h\<rparr>) ?w" using ok(4,5) h(2) assms(5) by (simp add: views_def)
  from sched_next_refines[OF this] obtain s' where
    s': "sched_next_rr (s\<lparr>heap := h\<rparr>) = Some s'" "views s' (next_view ?w)" "switched (v_run (next_view ?w)) (s\<lparr>heap := h\<rparr>) s'"
    by blast
  have nv: "next_view ?w = next_view w" by (simp add: next_view_def split: list.splits)
  have "view_ok (next_view w)" using view_ok_next[OF assms(3) h(2)] .
  moreover have "switched (v_run (next_view w)) s s'"
    using s'(3) unfolding nv switched_def
    by (simp add: sched_frame_def read_stack_def stack_slot_def stack_index_def)
  ultimately show ?thesis using h(1) s' unfolding nv by (auto simp: sched_ok_def switched_def)
qed

lemma sched_ok_upd [simp]:
  "sched_ok (s\<lparr>list_sem := f\<rparr>) v \<longleftrightarrow> sched_ok s v" "sched_ok (s\<lparr>mm := m\<rparr>) v \<longleftrightarrow> sched_ok s v"
  "sched_ok (s\<lparr>cr3 := c\<rparr>) v \<longleftrightarrow> sched_ok s v" "sched_ok (s\<lparr>kbd := k\<rparr>) v \<longleftrightarrow> sched_ok s v"
  "sched_ok (s\<lparr>scr := sc\<rparr>) v \<longleftrightarrow> sched_ok s v" "sched_ok (s\<lparr>zeos_ticks := z\<rparr>) v \<longleftrightarrow> sched_ok s v"
  "sched_ok (upd_task t (\<lambda>ts. ts\<lparr>PID := p\<rparr>) s) v \<longleftrightarrow> sched_ok s v"
  "sched_ok (upd_task t (\<lambda>ts. ts\<lparr>destroyed := d\<rparr>) s) v \<longleftrightarrow> sched_ok s v"
  "sched_ok (upd_task t (\<lambda>ts. ts\<lparr>p_stats := g ts\<rparr>) s) v \<longleftrightarrow> sched_ok s v"
  by (simp_all add: sched_ok_def views_def upd_task_def)

section \<open>Initialisation\<close>

definition allocate_DIR :: "nat \<Rightarrow> kstate \<Rightarrow> DWord \<times> kstate" where
  "allocate_DIR t s = (let pos = t in (1, upd_task t (\<lambda>ts. ts\<lparr>dir_pages_baseAddr := pos\<rparr>) s))"

definition init_freequeue :: "kstate \<Rightarrow> kstate option" where
  "init_freequeue s = do {
     h \<leftarrow> INIT_LIST_HEAD (Some FreeQ) (heap s);
     mfold (\<lambda>i s. do {
         let s = upd_task i (\<lambda>ts. ts\<lparr>PID := -1\<rparr>) s;
         h \<leftarrow> list_add_tail (Some (TaskN i)) (Some FreeQ) (heap s);
         Some (s\<lparr>heap := h\<rparr>) }) [0..<NR_TASKS] (s\<lparr>heap := h\<rparr>) }"

definition init_sched :: "kstate \<Rightarrow> kstate option" where
  "init_sched s = do {
     s \<leftarrow> init_freequeue s;
     h \<leftarrow> INIT_LIST_HEAD (Some ReadyQ) (heap s);
     Some (s\<lparr>heap := h\<rparr>) }"

text \<open>\<open>cpu_idle\<close> is the address of the function.\<close>

definition init_idle :: "DWord \<Rightarrow> kstate \<Rightarrow> kstate option" where
  "init_idle cpu_idle s = do {
     l \<leftarrow> list_first (Some FreeQ) (heap s);
     h \<leftarrow> list_del l (heap s);
     let s = s\<lparr>heap := h\<rparr>;
     c \<leftarrow> list_head_to_task_struct l;
     let s = upd_task c (\<lambda>ts. ts\<lparr>PID := 0\<rparr>) s;
     let s = upd_task c (\<lambda>ts. ts\<lparr>total_quantum := DEFAULT_QUANTUM\<rparr>) s;
     s \<leftarrow> init_stats c s;
     let (_, s) = allocate_DIR c s;
     let s = write_stack (stack_addr s c (KERNEL_STACK_SIZE - 1)) cpu_idle s;
     let s = write_stack (stack_addr s c (KERNEL_STACK_SIZE - 2)) 0 s;
     let s = upd_task c (\<lambda>ts. ts\<lparr>register_esp := stack_addr s c (KERNEL_STACK_SIZE - 2)\<rparr>) s;
     Some (s\<lparr>idle_task := Some c\<rparr>) }"

definition init_task1 :: "kstate \<Rightarrow> kstate option" where
  "init_task1 s = do {
     l \<leftarrow> list_first (Some FreeQ) (heap s);
     h \<leftarrow> list_del l (heap s);
     let s = s\<lparr>heap := h\<rparr>;
     c \<leftarrow> list_head_to_task_struct l;
     let s = upd_task c (\<lambda>ts. ts\<lparr>PID := 1\<rparr>) s;
     let s = upd_task c (\<lambda>ts. ts\<lparr>total_quantum := DEFAULT_QUANTUM\<rparr>) s;
     let s = upd_task c (\<lambda>ts. ts\<lparr>tstate := ST_RUN\<rparr>) s;
     let s = s\<lparr>remaining_quantum := total_quantum (tasks s c)\<rparr>;
     s \<leftarrow> init_stats c s;
     let (_, s) = allocate_DIR c s;
     let s = s\<lparr>mm := set_user_pages (get_PT s (tasks s c)) (mm s)\<rparr>;
     let s = s\<lparr>tss_esp0 := stack_addr s c KERNEL_STACK_SIZE\<rparr>;
     let s = s\<lparr>msr_175 := stack_addr s c KERNEL_STACK_SIZE\<rparr>;
     Some (set_cr3 (dir_pages_baseAddr (tasks s c)) s) }"

text \<open>The queues after each step.\<close>

lemma init_freequeue_queues:
  "\<exists>s'. init_freequeue s = Some s' \<and> queues (heap s') [FreeQ \<mapsto> map TaskN [0..<10]]
     \<and> (\<exists>h. s' = s\<lparr>heap := h, tasks := (\<lambda>i. if i < 10 then (tasks s i)\<lparr>PID := -1\<rparr> else tasks s i)\<rparr>)"
proof -
  have "queues (heap s) Map.empty" by (simp add: queues_def)
  from queues_init[OF this, of FreeQ] obtain h where h: "INIT_LIST_HEAD (Some FreeQ) (heap s) = Some h"
    "queues h [FreeQ \<mapsto> []]" by auto
  define f where "f = (\<lambda>i s. do {
         let s = upd_task i (\<lambda>ts. ts\<lparr>PID := -1\<rparr>) s;
         h \<leftarrow> list_add_tail (Some (TaskN i)) (Some FreeQ) (heap s);
         Some (s\<lparr>heap := h\<rparr>) })"
  define I where "I = (\<lambda>js s'. queues (heap s') [FreeQ \<mapsto> map TaskN js]
     \<and> (\<exists>h. s' = s\<lparr>heap := h, tasks := (\<lambda>i. if i \<in> set js then (tasks s i)\<lparr>PID := -1\<rparr> else tasks s i)\<rparr>))"
  have "\<exists>s'. mfold f [0..<NR_TASKS] (s\<lparr>heap := h\<rparr>) = Some s' \<and> I [0..<NR_TASKS] s'"
  proof (rule mfold_invariant_prefix)
    show "I [] (s\<lparr>heap := h\<rparr>)" using h(2) by (auto simp: I_def)
  next
    fix js i rest s1 assume js: "[0..<NR_TASKS] = js @ i # rest" and I: "I js s1"
    then have "distinct (js @ i # rest)" by (metis distinct_upt)
    then have i: "i \<notin> set js" by simp
    obtain g where s1: "s1 = s\<lparr>heap := g, tasks := (\<lambda>i. if i \<in> set js then (tasks s i)\<lparr>PID := -1\<rparr> else tasks s i)\<rparr>"
      "queues g [FreeQ \<mapsto> map TaskN js]" using I by (auto simp: I_def)
    have "TaskN i \<notin> nodes [FreeQ \<mapsto> map TaskN js]" using i by (auto simp: nodes_upd)
    from queues_list_add_tail[OF s1(2) fun_upd_same this] obtain g' where
      g': "list_add_tail (Some (TaskN i)) (Some FreeQ) g = Some g'" "queues g' [FreeQ \<mapsto> map TaskN (js @ [i])]"
      by auto
    let ?s2 = "upd_task i (\<lambda>ts. ts\<lparr>PID := -1\<rparr>) s1\<lparr>heap := g'\<rparr>"
    have "f i s1 = Some ?s2" using g'(1) s1(1) by (simp add: f_def upd_task_def)
    moreover have "I (js @ [i]) ?s2"
      unfolding I_def using g'(2) i
      by (auto simp: s1(1) upd_task_def fun_eq_iff intro!: exI[of _ g'])
    ultimately show "\<exists>s'. f i s1 = Some s' \<and> I (js @ [i]) s'" by blast
  qed
  then obtain s' where "mfold f [0..<NR_TASKS] (s\<lparr>heap := h\<rparr>) = Some s'" "I [0..<NR_TASKS] s'" by blast
  then show ?thesis using h(1) by (auto simp: init_freequeue_def f_def I_def NR_TASKS_def)
qed

definition boot_view :: view where
  "boot_view = \<lparr>v_run = 1, v_idle = 0, v_free = [2..<10], v_ready = [], v_sem = Map.empty\<rparr>"

lemma init_sched_queues:
  "\<exists>s'. init_sched s = Some s' \<and> queues (heap s') (qmap (boot_view\<lparr>v_free := [0..<10]\<rparr>))
     \<and> (\<exists>h. s' = s\<lparr>heap := h, tasks := (\<lambda>i. if i < 10 then (tasks s i)\<lparr>PID := -1\<rparr> else tasks s i)\<rparr>)"
proof -
  obtain s1 where s1: "init_freequeue s = Some s1" "queues (heap s1) [FreeQ \<mapsto> map TaskN [0..<10]]"
    "\<exists>h. s1 = s\<lparr>heap := h, tasks := (\<lambda>i. if i < 10 then (tasks s i)\<lparr>PID := -1\<rparr> else tasks s i)\<rparr>"
    using init_freequeue_queues by blast
  have "ReadyQ \<notin> nodes ([FreeQ \<mapsto> map TaskN [0..<10]](ReadyQ := None))"
    by (simp add: fun_upd_twist nodes_upd image_iff)
  from queues_init[OF s1(2) this] obtain h where h: "INIT_LIST_HEAD (Some ReadyQ) (heap s1) = Some h"
    "queues h [FreeQ \<mapsto> map TaskN [0..<10], ReadyQ \<mapsto> []]" by auto
  have "[FreeQ \<mapsto> map TaskN [0..<10], ReadyQ \<mapsto> []] q = qmap (boot_view\<lparr>v_free := [0..<10]\<rparr>) q" for q
    by (cases q) (simp_all add: boot_view_def)
  then have "[FreeQ \<mapsto> map TaskN [0..<10], ReadyQ \<mapsto> []] = qmap (boot_view\<lparr>v_free := [0..<10]\<rparr>)" by blast
  moreover obtain g where "s1 = s\<lparr>heap := g, tasks := (\<lambda>i. if i < 10 then (tasks s i)\<lparr>PID := -1\<rparr> else tasks s i)\<rparr>"
    using s1(3) by blast
  ultimately show ?thesis using s1(1) h
    by (intro exI[of _ "s1\<lparr>heap := h\<rparr>"]) (auto simp: init_sched_def intro!: exI[of _ h])
qed

lemma init_stats_run:
  "\<exists>st n. init_stats t s = Some (upd_task t (\<lambda>ts. ts\<lparr>p_stats := st\<rparr>) (s\<lparr>tsc_reads := n\<rparr>))
     \<and> user_ticks st = 0 \<and> system_ticks st = 0 \<and> blocked_ticks st = 0 \<and> ready_ticks st = 0 \<and> total_trans st = 0"
  by (simp add: init_stats_def read_ticks_def get_ticks_eq upd_task_def) (rule exI conjI refl | simp)+

text \<open>Taking the first free task, as \<open>init_idle\<close>, \<open>init_task1\<close>, \<open>sys_fork\<close> and \<open>sys_createthread\<close> do.\<close>

lemma take_free:
  assumes "queues (heap s) (qmap v)" "v_free v = c # cs"
  shows "\<exists>h. list_first (Some FreeQ) (heap s) = Some (Some (TaskN c)) \<and> list_del (Some (TaskN c)) (heap s) = Some h
     \<and> queues h (qmap (v\<lparr>v_free := cs\<rparr>))"
  using first_view[OF assms(1), of FreeQ] del_view[OF assms(1), of FreeQ] assms(2)
  by (auto simp: qmap_upd)

lemma init_idle_run:
  assumes "queues (heap s) (qmap v)" "v_free v = c # cs" "c < 10"
  shows "\<exists>h st n. init_idle ci s = Some (s\<lparr>heap := h, tsc_reads := n, idle_task := Some c,
      tasks := (tasks s)(c := (tasks s c)\<lparr>PID := 0, total_quantum := DEFAULT_QUANTUM, p_stats := st,
          dir_pages_baseAddr := c, register_esp := stack_addr s c 1022\<rparr>),
      kstack := (kstack s)(c := (kstack s c)(1023 := ci, 1022 := 0))\<rparr>)
    \<and> queues h (qmap (v\<lparr>v_free := cs\<rparr>))"
proof -
  obtain h where h: "list_first (Some FreeQ) (heap s) = Some (Some (TaskN c))"
    "list_del (Some (TaskN c)) (heap s) = Some h" "queues h (qmap (v\<lparr>v_free := cs\<rparr>))"
    using take_free[OF assms(1,2)] by blast
  let ?s1 = "upd_task c (\<lambda>ts. ts\<lparr>total_quantum := DEFAULT_QUANTUM\<rparr>) (upd_task c (\<lambda>ts. ts\<lparr>PID := 0\<rparr>) (s\<lparr>heap := h\<rparr>))"
  obtain st n where st: "init_stats c ?s1 = Some (upd_task c (\<lambda>ts. ts\<lparr>p_stats := st\<rparr>) (?s1\<lparr>tsc_reads := n\<rparr>))"
    using init_stats_run by blast
  have "init_idle ci s = Some (s\<lparr>heap := h, tsc_reads := n, idle_task := Some c,
      tasks := (tasks s)(c := (tasks s c)\<lparr>PID := 0, total_quantum := DEFAULT_QUANTUM, p_stats := st,
          dir_pages_baseAddr := c, register_esp := stack_addr s c 1022\<rparr>),
      kstack := (kstack s)(c := (kstack s c)(1023 := ci, 1022 := 0))\<rparr>)"
    using h(1,2) st assms(3)
    by (simp add: init_idle_def list_head_to_task_struct_def upd_task_def allocate_DIR_def write_stack_addr
        KERNEL_STACK_SIZE_def Let_def)
  then show ?thesis using h(3) by blast
qed

lemma init_task1_run:
  assumes "queues (heap s) (qmap v)" "v_free v = c # cs" "c < 10"
  shows "\<exists>h st n. init_task1 s = Some (s\<lparr>heap := h, tsc_reads := n, remaining_quantum := DEFAULT_QUANTUM,
      tasks := (tasks s)(c := (tasks s c)\<lparr>PID := 1, total_quantum := DEFAULT_QUANTUM, tstate := ST_RUN,
          p_stats := st, dir_pages_baseAddr := c\<rparr>),
      mm := set_user_pages (PT_of_dir (mm s) c) (mm s), tss_esp0 := stack_addr s c 1024,
      msr_175 := stack_addr s c 1024, cr3 := c\<rparr>)
    \<and> queues h (qmap (v\<lparr>v_free := cs\<rparr>))"
proof -
  obtain h where h: "list_first (Some FreeQ) (heap s) = Some (Some (TaskN c))"
    "list_del (Some (TaskN c)) (heap s) = Some h" "queues h (qmap (v\<lparr>v_free := cs\<rparr>))"
    using take_free[OF assms(1,2)] by blast
  let ?s1 = "upd_task c (\<lambda>ts. ts\<lparr>tstate := ST_RUN\<rparr>) (upd_task c (\<lambda>ts. ts\<lparr>total_quantum := DEFAULT_QUANTUM\<rparr>)
      (upd_task c (\<lambda>ts. ts\<lparr>PID := 1\<rparr>) (s\<lparr>heap := h\<rparr>)))\<lparr>remaining_quantum := DEFAULT_QUANTUM\<rparr>"
  obtain st n where st: "init_stats c ?s1 = Some (upd_task c (\<lambda>ts. ts\<lparr>p_stats := st\<rparr>) (?s1\<lparr>tsc_reads := n\<rparr>))"
    using init_stats_run by blast
  have "init_task1 s = Some (s\<lparr>heap := h, tsc_reads := n, remaining_quantum := DEFAULT_QUANTUM,
      tasks := (tasks s)(c := (tasks s c)\<lparr>PID := 1, total_quantum := DEFAULT_QUANTUM, tstate := ST_RUN,
          p_stats := st, dir_pages_baseAddr := c\<rparr>),
      mm := set_user_pages (PT_of_dir (mm s) c) (mm s), tss_esp0 := stack_addr s c 1024,
      msr_175 := stack_addr s c 1024, cr3 := c\<rparr>)"
    using h(1,2) st
    by (simp add: init_task1_def list_head_to_task_struct_def upd_task_def allocate_DIR_def set_cr3_def get_PT_def
        KERNEL_STACK_SIZE_def Let_def)
  then show ?thesis using h(3) by blast
qed

text \<open>The part of \<open>main\<close> that builds the tasks.\<close>

definition start_tasks :: "DWord \<Rightarrow> kstate \<Rightarrow> kstate option" where
  "start_tasks cpu_idle s = do { s \<leftarrow> init_sched s; s \<leftarrow> init_idle cpu_idle s; init_task1 s }"

lemma upt_10: "[0..<10] = 0 # 1 # [2..<10]"
  by (simp add: upt_rec)

lemma start_tasks_run:
  "\<exists>s'. start_tasks ci s = Some s' \<and> queues (heap s') (qmap boot_view)
    \<and> running s' = running s \<and> idle_task s' = Some 0 \<and> remaining_quantum s' = DEFAULT_QUANTUM
    \<and> (\<forall>i. PID (tasks s' i) = (if i = 0 then 0 else if i = 1 then 1 else if i < 10 then -1 else PID (tasks s i)))
    \<and> tstate (tasks s' 1) = ST_RUN
    \<and> (\<forall>i. total_quantum (tasks s' i) = (if i < 2 then DEFAULT_QUANTUM else total_quantum (tasks s i)))
    \<and> (\<forall>i. dir_pages_baseAddr (tasks s' i) = (if i < 2 then i else dir_pages_baseAddr (tasks s i)))
    \<and> register_esp (tasks s' 0) = stack_addr s 0 1022 \<and> kstack s' 0 1022 = 0 \<and> kstack s' 0 1023 = ci
    \<and> mm s' = set_user_pages (PT_of_dir (mm s) 1) (mm s)
    \<and> tss_esp0 s' = stack_addr s 1 1024 \<and> msr_175 s' = stack_addr s 1 1024 \<and> cr3 s' = 1
    \<and> task_base s' = task_base s \<and> list_sem s' = list_sem s \<and> kbd s' = kbd s \<and> scr s' = scr s
    \<and> global_PID s' = global_PID s \<and> global_TID s' = global_TID s \<and> zeos_ticks s' = zeos_ticks s"
proof -
  obtain h1 where s1: "init_sched s = Some (s\<lparr>heap := h1, tasks := (\<lambda>i. if i < 10 then (tasks s i)\<lparr>PID := -1\<rparr> else tasks s i)\<rparr>)"
    "queues h1 (qmap (boot_view\<lparr>v_free := [0..<10]\<rparr>))" using init_sched_queues[of s] by auto
  let ?s1 = "s\<lparr>heap := h1, tasks := (\<lambda>i. if i < 10 then (tasks s i)\<lparr>PID := -1\<rparr> else tasks s i)\<rparr>"
  have q1: "queues (heap ?s1) (qmap (boot_view\<lparr>v_free := [0..<10]\<rparr>))" using s1(2) by simp
  from init_idle_run[OF q1, of 0 "1 # [2..<10]" ci] obtain h2 st0 n2 where
    s2: "init_idle ci ?s1 = Some (?s1\<lparr>heap := h2, tsc_reads := n2, idle_task := Some 0,
      tasks := (tasks ?s1)(0 := (tasks ?s1 0)\<lparr>PID := 0, total_quantum := DEFAULT_QUANTUM, p_stats := st0,
          dir_pages_baseAddr := 0, register_esp := stack_addr ?s1 0 1022\<rparr>),
      kstack := (kstack ?s1)(0 := (kstack ?s1 0)(1023 := ci, 1022 := 0))\<rparr>)" (is "_ = Some ?s2")
    "queues h2 (qmap (boot_view\<lparr>v_free := 1 # [2..<10]\<rparr>))" by (auto simp: upt_10 boot_view_def)
  have q2: "queues (heap ?s2) (qmap (boot_view\<lparr>v_free := 1 # [2..<10]\<rparr>))" using s2(2) by simp
  from init_task1_run[OF q2, of 1 "[2..<10]"] obtain h3 st1 n3 where
    s3: "init_task1 ?s2 = Some (?s2\<lparr>heap := h3, tsc_reads := n3, remaining_quantum := DEFAULT_QUANTUM,
      tasks := (tasks ?s2)(1 := (tasks ?s2 1)\<lparr>PID := 1, total_quantum := DEFAULT_QUANTUM, tstate := ST_RUN,
          p_stats := st1, dir_pages_baseAddr := 1\<rparr>),
      mm := set_user_pages (PT_of_dir (mm ?s2) 1) (mm ?s2), tss_esp0 := stack_addr ?s2 1 1024,
      msr_175 := stack_addr ?s2 1 1024, cr3 := 1\<rparr>)"
    "queues h3 (qmap (boot_view\<lparr>v_free := [2..<10]\<rparr>))" by auto
  have bv: "boot_view\<lparr>v_free := [2..<10]\<rparr> = boot_view" by (simp add: boot_view_def)
  have "start_tasks ci s = Some (?s2\<lparr>heap := h3, tsc_reads := n3, remaining_quantum := DEFAULT_QUANTUM,
      tasks := (tasks ?s2)(1 := (tasks ?s2 1)\<lparr>PID := 1, total_quantum := DEFAULT_QUANTUM, tstate := ST_RUN,
          p_stats := st1, dir_pages_baseAddr := 1\<rparr>),
      mm := set_user_pages (PT_of_dir (mm ?s2) 1) (mm ?s2), tss_esp0 := stack_addr ?s2 1 1024,
      msr_175 := stack_addr ?s2 1 1024, cr3 := 1\<rparr>)" (is "_ = Some ?s3")
    unfolding start_tasks_def by (simp only: bind.bind_lunit s1(1) s2(1) s3(1))
  then show ?thesis using s3(2) unfolding bv by (intro exI[of _ ?s3] conjI) (simp_all add: less_2_cases_iff)
qed

lemma boot_view_ok: "view_ok boot_view"
  unfolding view_ok_def enqueued_iff by (auto simp: boot_view_def NR_TASKS_def)

text \<open>A kernel with two more tasks ready, for the concrete instances below.\<close>

definition three_task_view :: view where
  "three_task_view = \<lparr>v_run = 1, v_idle = 0, v_free = [4..<10], v_ready = [2, 3], v_sem = Map.empty\<rparr>"

lemma three_task_kernel:
  "\<exists>s. sched_ok s three_task_view \<and> remaining_quantum s = 10 \<and> (\<forall>i. total_quantum (tasks s i) = 10)"
proof -
  obtain h where "queues h (qmap three_task_view)"
    using views_build[of three_task_view] by (auto simp: three_task_view_def)
  moreover have "view_ok three_task_view"
    unfolding view_ok_def enqueued_iff by (auto simp: three_task_view_def NR_TASKS_def)
  ultimately show ?thesis
    by (intro exI[of _ "kernel_image (\<lambda>_. 0) (\<lambda>_. 0) 0\<lparr>heap := h, running := 1, idle_task := Some 0,
          remaining_quantum := 10, tasks := \<lambda>_. zero_task\<lparr>total_quantum := 10\<rparr>\<rparr>"])
       (simp add: sched_ok_def views_def three_task_view_def kernel_image_def zero_task_def)
qed

section \<open>Properties\<close>

text \<open>
  C3: A clock tick implements the abstract round robin. In a consistent kernel \<open>schedule\<close> never
  faults; when it exhausts the quantum and another task is ready, the running task goes to the
  end of the ready queue and the first ready one runs with its full quantum; when nobody else is
  ready the running task gets a new quantum; otherwise only the quantum is one less. The result
  is consistent again, and neither memory, devices, semaphores nor the free list are touched.
\<close>

theorem schedule_refines_round_robin:
  assumes "sched_ok s v"
  shows "\<exists>s' v'. schedule s = Some s' \<and> sched_ok s' v' \<and> sched_frame s s'
     \<and> (if remaining_quantum s = 1 \<and> v_ready v \<noteq> []
        then v' = v\<lparr>v_run := hd (v_ready v), v_ready := tl (v_ready v) @ [v_run v]\<rparr>
        else v' = v)
     \<and> remaining_quantum s' = (if remaining_quantum s = 1 then total_quantum (tasks s (v_run v'))
          else remaining_quantum s - 1)"
proof -
  obtain s' where "schedule s = Some s'" "sched_ok s' (tick_view (remaining_quantum s) v)" "sched_frame s s'"
     "remaining_quantum s' = (if remaining_quantum s = 1
          then total_quantum (tasks s (v_run (tick_view (remaining_quantum s) v))) else remaining_quantum s - 1)"
    using schedule_step[OF assms] by blast
  then show ?thesis
    by (intro exI[of _ s'] exI[of _ "tick_view (remaining_quantum s) v"])
       (auto simp: tick_view_def preempt_view_eq neq_Nil_conv)
qed

theorem schedule_refines_round_robin_witness:
  "\<exists>s s' v'. sched_ok s three_task_view \<and> schedule s = Some s' \<and> sched_ok s' v' \<and> remaining_quantum s' = 9"
proof -
  obtain s where "sched_ok s three_task_view" "remaining_quantum s = 10" using three_task_kernel by blast
  then show ?thesis using schedule_refines_round_robin[of s three_task_view] by fastforce
qed

text \<open>
  C4: Every ready task gets the processor, after exactly the slices of the tasks before it: from a
  consistent kernel where quanta are not zero, the \<open>k\<close>-th task of the ready queue starts its
  slice, with its full quantum, after the rest of the running task's slice and the quanta of the
  \<open>k\<close> tasks in front of it have elapsed in clock ticks; no task is lost from the ring on the way.
\<close>

theorem ready_task_runs_after_the_slices_before_it:
  assumes "sched_ok s v" "remaining_quantum s \<noteq> 0" "\<forall>i \<in> set (v_ready v). total_quantum (tasks s i) \<noteq> 0"
    and "k < length (v_ready v)"
  shows "\<exists>s' v'. repeat_op (unat (remaining_quantum s)
            + sum_list (map (\<lambda>i. unat (total_quantum (tasks s i))) (take k (v_ready v)))) schedule s = Some s'
     \<and> sched_ok s' v' \<and> running s' = v_ready v ! k
     \<and> v_ready v' = drop (Suc k) (v_ready v) @ v_run v # take k (v_ready v)
     \<and> remaining_quantum s' = total_quantum (tasks s (v_ready v ! k))"
proof -
  obtain s' v' where s': "repeat_op (unat (remaining_quantum s)
            + sum_list (map (\<lambda>i. unat (total_quantum (tasks s i))) (take k (v_ready v)))) schedule s = Some s'"
     "sched_ok s' v'" "v_run v' # v_ready v' = rotate (Suc k) (v_run v # v_ready v)"
     "remaining_quantum s' = total_quantum (tasks s (v_ready v ! k))"
    using time_slices[OF assms(1,2) _ assms(4)] assms(3) by blast
  have "rotate (Suc k) (v_run v # v_ready v) = drop (Suc k) (v_run v # v_ready v) @ take (Suc k) (v_run v # v_ready v)"
    using assms(4) by (simp only: rotate_drop_take) simp
  also have "\<dots> = v_ready v ! k # (drop (Suc k) (v_ready v) @ v_run v # take k (v_ready v))"
    using assms(4) by (simp add: Cons_nth_drop_Suc[symmetric])
  finally have "v_run v' = v_ready v ! k" "v_ready v' = drop (Suc k) (v_ready v) @ v_run v # take k (v_ready v)"
    using s'(3) by auto
  then show ?thesis
    using s'(1,2,4) sched_okD(4)[OF s'(2)] by (intro exI[of _ s'] exI[of _ v']) simp
qed

theorem ready_task_runs_after_the_slices_before_it_witness:
  "\<exists>s s' v'. sched_ok s three_task_view \<and> repeat_op 20 schedule s = Some s' \<and> running s' = 3
     \<and> sched_ok s' v' \<and> v_ready v' = [1, 2]"
proof -
  obtain s where s: "sched_ok s three_task_view" "remaining_quantum s = 10" "\<forall>i. total_quantum (tasks s i) = 10"
    using three_task_kernel by blast
  have "unat (10::DWord) + sum_list (map (\<lambda>i. unat (total_quantum (tasks s i))) (take 1 (v_ready three_task_view))) = 20"
    using s(3) by (simp add: three_task_view_def)
  then show ?thesis
    using ready_task_runs_after_the_slices_before_it[of s three_task_view 1] s by (auto simp: three_task_view_def)
qed

lemma saved_context_kept:
  assumes "sched_ok s v" "j < length (v_ready v)"
  shows "\<exists>s' v'. repeat_op (Suc j) force_task_switch s = Some s' \<and> sched_ok s' v' \<and> sched_frame s s'
     \<and> v_run v' # v_ready v' = rotate (Suc j) (v_run v # v_ready v)
     \<and> register_esp (tasks s' (v_run v)) = cpu_ebp s"
  using assms(2)
proof (induction j)
  case 0
  obtain s' where "force_task_switch s = Some s'" "sched_ok s' (preempt_view v)" "sched_frame s s'"
     "register_esp (tasks s' (v_run v)) = cpu_ebp s"
    using force_task_switch_step[OF assms(1)] by fastforce
  then show ?case
    using preempt_view_ring[of v] by (intro exI[of _ s'] exI[of _ "preempt_view v"]) simp
next
  case (Suc j)
  then obtain s1 v1 where 1: "repeat_op (Suc j) force_task_switch s = Some s1" "sched_ok s1 v1" "sched_frame s s1"
     "v_run v1 # v_ready v1 = rotate (Suc j) (v_run v # v_ready v)"
     "register_esp (tasks s1 (v_run v)) = cpu_ebp s" by auto
  obtain s2 where 2: "force_task_switch s1 = Some s2" "sched_ok s2 (preempt_view v1)" "sched_frame s1 s2"
     "\<forall>i. register_esp (tasks s2 i) = (if i = v_run v1 then cpu_ebp s1 else register_esp (tasks s1 i))"
    using force_task_switch_step[OF 1(2)] by blast
  have "v_run v1 = (v_run v # v_ready v) ! Suc j"
    using arg_cong[OF 1(4), of hd] hd_rotate_conv_nth[of "v_run v # v_ready v" "Suc j"] Suc.prems
    by (simp del: rotate_Suc nth_Cons_Suc)
  moreover have "v_run v \<notin> set (v_ready v)" using sched_okD(7)[OF assms(1)] by (auto simp: enqueued_iff)
  ultimately have "v_run v1 \<noteq> v_run v" using Suc.prems by (metis Suc_lessD nth_Cons_Suc nth_mem)
  then have "register_esp (tasks s2 (v_run v)) = cpu_ebp s" using 1(5) 2(4) by simp
  moreover have "repeat_op (Suc (Suc j)) force_task_switch s = Some s2"
    using repeat_op_Suc[of "Suc j" force_task_switch s] 1(1) 2(1) by (simp del: repeat_op.simps(2))
  moreover have "v_run (preempt_view v1) # v_ready (preempt_view v1) = rotate (Suc (Suc j)) (v_run v # v_ready v)"
    unfolding preempt_view_ring 1(4) by simp
  ultimately show ?case using 2(2) sched_frame_trans[OF 1(3) 2(3)] by blast
qed

text \<open>
  C14: A task that gives up the processor resumes where it left off. When it has gone once around
  the ring of ready tasks by forced switches, the switch back to it reloads the frame pointer and
  the return address from the stack word its \<open>%ebp\<close> pointed at when it was switched out, and
  the page directory and the kernel stack of the TSS are its own again.
\<close>

theorem switch_back_resumes_saved_context:
  assumes "sched_ok s v" "v_ready v \<noteq> []"
  shows "\<exists>s'. repeat_op (Suc (length (v_ready v))) force_task_switch s = Some s' \<and> sched_ok s' v
     \<and> running s' = running s
     \<and> cpu_ebp s' = read_stack s (cpu_ebp s) \<and> cpu_eip s' = read_stack s (cpu_ebp s + 4)
     \<and> cr3 s' = dir_pages_baseAddr (current s) \<and> tss_esp0 s' = stack_addr s (running s) KERNEL_STACK_SIZE"
proof -
  obtain j where j: "length (v_ready v) = Suc j" using assms(2) by (cases "v_ready v") auto
  obtain s1 v1 where 1: "repeat_op (Suc j) force_task_switch s = Some s1" "sched_ok s1 v1" "sched_frame s s1"
     "v_run v1 # v_ready v1 = rotate (Suc j) (v_run v # v_ready v)"
     "register_esp (tasks s1 (v_run v)) = cpu_ebp s"
    using saved_context_kept[OF assms(1), of j] j by auto
  obtain s2 v2 where 2: "repeat_op (Suc (Suc j)) force_task_switch s = Some s2" "sched_ok s2 v2"
     "v_run v2 # v_ready v2 = rotate (Suc (Suc j)) (v_run v # v_ready v)"
     "v_idle v2 = v_idle v \<and> v_free v2 = v_free v \<and> v_sem v2 = v_sem v"
    using forced_switches[OF assms(1), of "Suc (Suc j)"] by blast
  have "rotate (Suc (Suc j)) (v_run v # v_ready v) = v_run v # v_ready v" using j by (intro rotate_id) simp
  then have v2: "v2 = v" using 2(3,4) by simp
  have f: "force_task_switch s1 = Some s2"
    using repeat_op_Suc[of "Suc j" force_task_switch s] 1(1) 2(1) by (simp del: repeat_op.simps(2))
  have "v_run (preempt_view v1) # v_ready (preempt_view v1) = v_run v # v_ready v"
    unfolding preempt_view_ring 1(4) using \<open>rotate (Suc (Suc j)) _ = _\<close> by simp
  then have "v_run (preempt_view v1) = v_run v" by simp
  then have "cpu_ebp s2 = read_stack s1 (cpu_ebp s)" "cpu_eip s2 = read_stack s1 (cpu_ebp s + 4)"
     "cr3 s2 = dir_pages_baseAddr (tasks s1 (v_run v))" "tss_esp0 s2 = stack_addr s1 (v_run v) KERNEL_STACK_SIZE"
    using force_task_switch_step[OF 1(2)] f 1(5) by auto
  moreover have "read_stack s1 = read_stack s" "stack_addr s1 = stack_addr s"
    "dir_pages_baseAddr (tasks s1 (v_run v)) = dir_pages_baseAddr (tasks s (v_run v))"
    using 1(3) by (auto simp: sched_frame_def read_stack_def stack_slot_def stack_index_def stack_addr_def fun_eq_iff)
  ultimately show ?thesis
    using 2(1,2) v2 sched_okD(4)[OF assms(1)] sched_okD(4)[OF 2(2)] j by (auto simp: current_def)
qed

theorem switch_back_resumes_saved_context_witness:
  "\<exists>s s'. sched_ok s three_task_view \<and> repeat_op 3 force_task_switch s = Some s' \<and> running s' = running s
     \<and> cpu_eip s' = read_stack s (cpu_ebp s + 4)"
proof -
  obtain s where s: "sched_ok s three_task_view" using three_task_kernel by blast
  have n: "Suc (length (v_ready three_task_view)) = 3" "v_ready three_task_view \<noteq> []" by (simp_all add: three_task_view_def)
  show ?thesis using switch_back_resumes_saved_context[OF s n(2)] s unfolding n(1) by blast
qed





text \<open>
  Booting establishes the invariant from any contents of memory: after \<open>init_sched\<close>,
  \<open>init_idle\<close> and \<open>init_task1\<close>, when the first return to user mode has made task 1 the running
  one, the kernel is consistent, slots 2 to 9 are free in order and have PID -1, tasks 0 and 1
  have PIDs 0 and 1, their own directories and the default quantum, and the context saved for the
  idle task resumes at \<open>cpu_idle\<close>.
\<close>

theorem boot_establishes_consistent_kernel:
  "\<exists>s'. start_tasks idle_code s = Some s' \<and> sched_ok (s'\<lparr>running := 1\<rparr>) \<lparr>v_run = 1, v_idle = 0,
        v_free = [2..<10], v_ready = [], v_sem = Map.empty\<rparr>
     \<and> map (\<lambda>i. PID (tasks s' i)) [0..<10] = [0, 1] @ replicate 8 (-1)
     \<and> map (\<lambda>i. total_quantum (tasks s' i)) [0..<2] = [10, 10]
     \<and> map (\<lambda>i. dir_pages_baseAddr (tasks s' i)) [0..<2] = [0, 1]
     \<and> remaining_quantum s' = 10 \<and> cr3 s' = 1 \<and> tss_esp0 s' = stack_addr s' 1 KERNEL_STACK_SIZE
     \<and> read_stack s' (register_esp (tasks s' 0)) = 0 \<and> read_stack s' (register_esp (tasks s' 0) + 4) = idle_code"
proof -
  obtain s' where s': "start_tasks idle_code s = Some s'" "queues (heap s') (qmap boot_view)" "idle_task s' = Some 0"
    "tstate (tasks s' 1) = ST_RUN" "register_esp (tasks s' 0) = stack_addr s 0 1022" "kstack s' 0 1022 = 0"
    "kstack s' 0 1023 = idle_code" "task_base s' = task_base s" "remaining_quantum s' = DEFAULT_QUANTUM" "cr3 s' = 1"
    "tss_esp0 s' = stack_addr s 1 1024"
    "\<forall>i. PID (tasks s' i) = (if i = 0 then 0 else if i = 1 then 1 else if i < 10 then -1 else PID (tasks s i))"
    "\<forall>i. total_quantum (tasks s' i) = (if i < 2 then DEFAULT_QUANTUM else total_quantum (tasks s i))"
    "\<forall>i. dir_pages_baseAddr (tasks s' i) = (if i < 2 then i else dir_pages_baseAddr (tasks s i))"
    using start_tasks_run[of idle_code s] by blast
  have "sched_ok (s'\<lparr>running := 1\<rparr>) boot_view"
    using s' boot_view_ok by (simp add: sched_ok_def views_def boot_view_def)
  moreover have "read_stack s' (stack_addr s 0 1022) = 0" "read_stack s' (stack_addr s 0 1022 + 4) = idle_code"
    using s'(6-8) by (simp_all add: read_stack_addr stack_addr_next)
  moreover have "stack_addr s' 1 KERNEL_STACK_SIZE = stack_addr s 1 1024"
    using s'(8) by (simp add: stack_addr_def KERNEL_STACK_SIZE_def)
  ultimately show ?thesis
    using s' by (intro exI[of _ s']) (simp add: boot_view_def DEFAULT_QUANTUM_def upt_rec numeral_eq_Suc)
qed

end
