(* ===== verification/Sem_Spec.thy ===== *)
theory Sem_Spec
  imports Main
begin

text \<open>
  What a semaphore promises, whatever stands for a thread: its value with the threads that wait for a
  unit, in the order they came. A thread takes a unit or its place in the waiting list; a unit given
  wakes the thread that came first. \<^theory_text>\<open>Semaphore\<close> shows that the system calls of the kernel keep this
  contract, and \<^theory_text>\<open>Game_Threads\<close> runs the two threads of the game on it.
\<close>

definition take_unit :: "'t \<Rightarrow> int \<times> 't list \<Rightarrow> bool \<times> int \<times> 't list" where
  "take_unit t a = (case a of (c, ws) \<Rightarrow> if 0 < c then (True, c - 1, ws) else (False, c - 1, ws @ [t]))"

definition give_unit :: "int \<times> 't list \<Rightarrow> 't option \<times> int \<times> 't list" where
  "give_unit a = (case a of (c, ws) \<Rightarrow> (if ws = [] then None else Some (hd ws), c + 1, tl ws))"

end
