(* ===== verification/Semaphore.thy ===== *)
theory Semaphore
  imports Sched Sem_Spec
begin

text \<open>
  The semaphores of \<open>sys.c\<close>: the eight slots of \<open>list_sem\<close>, each with its counter and its queue
  of blocked tasks. A call that blocks switches to another task inside \<open>sched_next_rr\<close>; what the
  caller still has to do when it runs again is \<open>sem_wait_exit\<close>. The abstract semaphore is a
  number and a list of waiting tasks, of which one is not zero or empty.
\<close>

section \<open>The operations\<close>

definition MAX_SEM :: int where "MAX_SEM = 8"

definition sem_index :: "DWord \<Rightarrow> nat" where
  "sem_index n_sem = unat n_sem"

definition upd_sem :: "nat \<Rightarrow> (semaphore \<Rightarrow> semaphore) \<Rightarrow> kstate \<Rightarrow> kstate" where
  "upd_sem n f s = s\<lparr>list_sem := (list_sem s)(n := f (list_sem s n))\<rparr>"

definition valid_sem :: "DWord \<Rightarrow> bool \<Rightarrow> kstate \<Rightarrow> DWord" where
  "valid_sem n_sem isNew s =
     (if MAX_SEM \<le> sint n_sem \<or> sint n_sem < 0 then -1
      else if isNew then (if isInit (list_sem s (sem_index n_sem)) \<noteq> 0 then -1 else 0)
      else (if isInit (list_sem s (sem_index n_sem)) = 0 then -1 else 0))"

definition sys_sem_init :: "DWord \<Rightarrow> DWord \<Rightarrow> kstate \<Rightarrow> (DWord \<times> kstate) option" where
  "sys_sem_init n_sem val s =
     (if valid_sem n_sem True s \<noteq> 0 then Some (-1, s)
      else do {
        let n = sem_index n_sem;
        let s = upd_sem n (\<lambda>m. m\<lparr>counter := val\<rparr>) s;
        h \<leftarrow> INIT_LIST_HEAD (Some (SemQ n)) (heap s);
        let s = s\<lparr>heap := h\<rparr>;
        Some (0, upd_sem n (\<lambda>m. m\<lparr>isInit := 1\<rparr>) s) })"

text \<open>What a call gives: its result, or that the caller has been switched out in the middle of it.\<close>

datatype outcome = Returned DWord | Switched_out

text \<open>The end of \<open>sys_sem_wait\<close>, run by the task that called it.\<close>

definition sem_wait_exit :: "kstate \<Rightarrow> outcome \<times> kstate" where
  "sem_wait_exit s =
     (if destroyed (current s) = 1
      then (Returned (-1), upd_task (running s) (\<lambda>ts. ts\<lparr>destroyed := 0\<rparr>) s)
      else (Returned 0, s))"

definition sys_sem_wait :: "DWord \<Rightarrow> kstate \<Rightarrow> (outcome \<times> kstate) option" where
  "sys_sem_wait n_sem s =
     (if valid_sem n_sem False s \<noteq> 0 then Some (Returned (-1), s)
      else do {
        let n = sem_index n_sem;
        let s = upd_sem n (\<lambda>m. m\<lparr>counter := counter m - 1\<rparr>) s;
        if sint (counter (list_sem s n)) < 0
        then do {
          h \<leftarrow> list_add_tail (Some (TaskN (running s))) (Some (SemQ n)) (heap s);
          s \<leftarrow> sched_next_rr (s\<lparr>heap := h\<rparr>);
          Some (Switched_out, s) }
        else Some (sem_wait_exit s) })"

definition sys_sem_signal :: "DWord \<Rightarrow> kstate \<Rightarrow> (DWord \<times> kstate) option" where
  "sys_sem_signal n_sem s =
     (if valid_sem n_sem False s \<noteq> 0 then Some (-1, s)
      else do {
        let n = sem_index n_sem;
        let s = upd_sem n (\<lambda>m. m\<lparr>counter := counter m + 1\<rparr>) s;
        if sint (counter (list_sem s n)) \<le> 0
        then do {
          lib \<leftarrow> list_first (Some (SemQ n)) (heap s);
          h \<leftarrow> list_del lib (heap s);
          h \<leftarrow> list_add_tail lib (Some ReadyQ) h;
          Some (0, s\<lparr>heap := h\<rparr>) }
        else Some (0, s) })"

text \<open>The \<open>while\<close> loop of \<open>sys_sem_destroy\<close>: \<^const>\<open>None\<close> when it faults or does not end.\<close>

partial_function (option) wake_all :: "nat \<Rightarrow> kstate \<Rightarrow> kstate option" where
  "wake_all n s = do {
     e \<leftarrow> list_empty (Some (SemQ n)) (heap s);
     if e then Some s
     else do {
       lib \<leftarrow> list_first (Some (SemQ n)) (heap s);
       h \<leftarrow> list_del lib (heap s);
       l \<leftarrow> list_head_to_task_struct lib;
       let s = upd_task l (\<lambda>ts. ts\<lparr>destroyed := 1\<rparr>) (s\<lparr>heap := h\<rparr>);
       h \<leftarrow> list_add_tail lib (Some ReadyQ) (heap s);
       wake_all n (s\<lparr>heap := h\<rparr>) } }"

definition sys_sem_destroy :: "DWord \<Rightarrow> kstate \<Rightarrow> (DWord \<times> kstate) option" where
  "sys_sem_destroy n_sem s =
     (if valid_sem n_sem False s \<noteq> 0 then Some (-1, s)
      else do {
        let n = sem_index n_sem;
        s \<leftarrow> wake_all n s;
        Some (0, upd_sem n (\<lambda>m. m\<lparr>isInit := 0\<rparr>) s) })"

lemma valid_sem_iff:
  "valid_sem n isNew s = 0 \<longleftrightarrow> unat n < 8 \<and> (isNew \<longleftrightarrow> isInit (list_sem s (unat n)) = 0)"
proof -
  have "0 \<le> sint n \<and> sint n < 8 \<longleftrightarrow> unat n < 8"
    using sint_small32[of 8 n] by simp
  then show ?thesis by (auto simp: valid_sem_def MAX_SEM_def sem_index_def)
qed

section \<open>The invariant and the abstract semaphore\<close>

text \<open>
  Of a slot that is not initialised no task is waiting; of one that is, there are waiting tasks
  exactly when the counter is negative, and then minus the counter of them.
\<close>

definition sem_ok :: "kstate \<Rightarrow> view \<Rightarrow> bool" where
  "sem_ok s v \<longleftrightarrow> (\<forall>n<8. if isInit (list_sem s n) = 0 then v_sem v n = None \<or> v_sem v n = Some []
     else \<exists>xs. v_sem v n = Some xs \<and> int (length xs) = max 0 (- sint (counter (list_sem s n))))"

definition kernel_ok :: "kstate \<Rightarrow> view \<Rightarrow> bool" where
  "kernel_ok s v \<longleftrightarrow> sched_ok s v \<and> sem_ok s v"

definition sem_abs :: "kstate \<Rightarrow> view \<Rightarrow> nat \<Rightarrow> (int \<times> nat list) option" where
  "sem_abs s v n = (if 8 \<le> n \<or> isInit (list_sem s n) = 0 then None
     else Some (sint (counter (list_sem s n)), the (v_sem v n)))"

lemma kernel_okD: "kernel_ok s v \<Longrightarrow> sched_ok s v" "kernel_ok s v \<Longrightarrow> sem_ok s v"
  by (simp_all add: kernel_ok_def)

lemma sem_okD:
  assumes "sem_ok s v" "valid_sem n_sem False s = 0"
  obtains xs where "v_sem v (sem_index n_sem) = Some xs" "sem_index n_sem < 8"
    "isInit (list_sem s (sem_index n_sem)) \<noteq> 0"
    "int (length xs) = max 0 (- sint (counter (list_sem s (sem_index n_sem))))"
  using assms unfolding sem_ok_def valid_sem_iff sem_index_def by (auto split: if_splits)

lemma in_sem_upd:
  "(\<exists>k xs. (f(n \<mapsto> ys)) k = Some xs \<and> i \<in> set xs) \<longleftrightarrow> i \<in> set ys \<or> (\<exists>k xs. k \<noteq> n \<and> f k = Some xs \<and> i \<in> set xs)"
proof
  assume "\<exists>k xs. (f(n \<mapsto> ys)) k = Some xs \<and> i \<in> set xs"
  then obtain k xs where "(f(n \<mapsto> ys)) k = Some xs" "i \<in> set xs" by blast
  then show "i \<in> set ys \<or> (\<exists>k xs. k \<noteq> n \<and> f k = Some xs \<and> i \<in> set xs)" by (cases "k = n") auto
next
  assume "i \<in> set ys \<or> (\<exists>k xs. k \<noteq> n \<and> f k = Some xs \<and> i \<in> set xs)"
  then show "\<exists>k xs. (f(n \<mapsto> ys)) k = Some xs \<and> i \<in> set xs"
  proof
    assume "i \<in> set ys"
    then show ?thesis by (intro exI[of _ n] exI[of _ ys]) simp
  next
    assume "\<exists>k xs. k \<noteq> n \<and> f k = Some xs \<and> i \<in> set xs"
    then obtain k xs where "k \<noteq> n" "f k = Some xs" "i \<in> set xs" by blast
    then show ?thesis by (intro exI[of _ k] exI[of _ xs]) simp
  qed
qed

lemma in_sem_split:
  "f n = Some zs \<Longrightarrow> (\<exists>k xs. f k = Some xs \<and> i \<in> set xs) \<longleftrightarrow> i \<in> set zs \<or> (\<exists>k xs. k \<noteq> n \<and> f k = Some xs \<and> i \<in> set xs)"
  by (metis option.inject)

lemma view_ok_same_members:
  assumes "view_ok v" "\<And>i. enqueued w i \<longleftrightarrow> enqueued v i" "v_run w = v_run v" "v_idle w = v_idle v"
    and "set (v_free w) \<subseteq> set (v_free v)" "\<And>n xs. v_sem w n = Some xs \<Longrightarrow> v_idle v \<notin> set xs"
  shows "view_ok w"
  using assms unfolding view_ok_def by auto

text \<open>The first waiting task becomes ready.\<close>

definition wake_view :: "nat \<Rightarrow> view \<Rightarrow> view" where
  "wake_view n v = v\<lparr>v_sem := (v_sem v)(n \<mapsto> tl (the (v_sem v n))),
     v_ready := v_ready v @ [hd (the (v_sem v n))]\<rparr>"

lemma wake_first:
  assumes "sched_ok s v" "v_sem v n = Some (x # xs)"
  shows "\<exists>h1 h2. list_first (Some (SemQ n)) (heap s) = Some (Some (TaskN x))
     \<and> list_del (Some (TaskN x)) (heap s) = Some h1
     \<and> list_add_tail (Some (TaskN x)) (Some ReadyQ) h1 = Some h2 \<and> sched_ok (s\<lparr>heap := h2\<rparr>) (wake_view n v)"
proof -
  note ok = sched_okD[OF assms(1)]
  obtain h1 h2 where h: "list_first (Some (SemQ n)) (heap s) = Some (Some (TaskN x))"
     "list_del (Some (TaskN x)) (heap s) = Some h1" "list_add_tail (Some (TaskN x)) (Some ReadyQ) h1 = Some h2"
     "queues h2 ((qmap v)(SemQ n \<mapsto> map TaskN xs, ReadyQ \<mapsto> map TaskN (v_ready v) @ [TaskN x]))"
    using lq.move_first[OF ok(6), of "SemQ n" "TaskN x" "map TaskN xs" ReadyQ "map TaskN (v_ready v)"] assms(2) by auto
  have w: "wake_view n v = v\<lparr>v_sem := (v_sem v)(n \<mapsto> xs), v_ready := v_ready v @ [x]\<rparr>"
    using assms(2) by (simp add: wake_view_def)
  have "(qmap v)(SemQ n \<mapsto> map TaskN xs, ReadyQ \<mapsto> map TaskN (v_ready v @ [x])) = qmap (wake_view n v)"
    unfolding w qmap_upd by simp
  then have q: "queues h2 (qmap (wake_view n v))" using h(4) by simp
  have "view_ok (wake_view n v)"
  proof (rule view_ok_same_members[OF ok(2)])
    show "enqueued (wake_view n v) i \<longleftrightarrow> enqueued v i" for i
      unfolding enqueued_iff w using in_sem_upd[of "v_sem v" n xs i] in_sem_split[of "v_sem v" n "x # xs" i] assms(2)
      by (simp del: fun_upd_apply) blast
    fix k ys assume "v_sem (wake_view n v) k = Some ys"
    then have "set ys \<subseteq> set (the (v_sem v k))" "v_sem v k \<noteq> None"
      using assms(2) unfolding w by (auto split: if_splits)
    then show "v_idle v \<notin> set ys" using ok(2) unfolding view_ok_def by auto
  qed (simp_all add: w)
  then show ?thesis using h q ok by (auto simp: sched_ok_def views_def w)
qed

lemma sem_ok_frame: "list_sem s' = list_sem s \<Longrightarrow> v_sem v' = v_sem v \<Longrightarrow> sem_ok s' v' \<longleftrightarrow> sem_ok s v"
  by (simp add: sem_ok_def)

text \<open>Changing one slot of \<open>list_sem\<close> and its queue.\<close>

lemma sem_ok_change:
  assumes "sem_ok s v" "\<And>k. k \<noteq> n \<Longrightarrow> list_sem s' k = list_sem s k" "v_sem v' = (v_sem v)(n \<mapsto> xs)"
    and "if isInit (list_sem s' n) = 0 then xs = [] else int (length xs) = max 0 (- sint (counter (list_sem s' n)))"
  shows "sem_ok s' v'"
  unfolding sem_ok_def
proof (intro allI impI)
  fix k :: nat assume "k < 8"
  then show "if isInit (list_sem s' k) = 0 then v_sem v' k = None \<or> v_sem v' k = Some []
     else \<exists>xs. v_sem v' k = Some xs \<and> int (length xs) = max 0 (- sint (counter (list_sem s' k)))"
    using assms by (cases "k = n") (auto simp: sem_ok_def split: if_splits)
qed

text \<open>How many tasks can wait.\<close>

lemma queue_length_bound:
  assumes "view_ok v" "queues h (qmap v)" "queue_of v q = Some xs"
  shows "length xs \<le> 10"
proof -
  have "set xs \<subseteq> {..<10}" using assms(1,3) unfolding view_ok_def enqueued_def NR_TASKS_def by blast
  then have "card (set xs) \<le> 10" using card_mono[of "{..<10}" "set xs"] by simp
  then show ?thesis using distinct_card[OF queue_distinct[OF assms(2,3)]] by simp
qed

lemma counter_bound:
  assumes "kernel_ok s v" "valid_sem n_sem False s = 0"
  shows "- 10 \<le> sint (counter (list_sem s (sem_index n_sem)))"
proof -
  note ok = sched_okD[OF kernel_okD(1)[OF assms(1)]]
  obtain xs where xs: "v_sem v (sem_index n_sem) = Some xs"
    "int (length xs) = max 0 (- sint (counter (list_sem s (sem_index n_sem))))"
    using sem_okD[OF kernel_okD(2)[OF assms(1)] assms(2)] by blast
  have "length xs \<le> 10" using queue_length_bound[OF ok(2,6), of "SemQ (sem_index n_sem)" xs] xs(1) by simp
  then show ?thesis using xs(2) by linarith
qed

lemma SemQ_fresh: "SemQ n \<notin> nodes ((qmap v)(SemQ n := None))"
proof
  assume "SemQ n \<in> nodes ((qmap v)(SemQ n := None))"
  then obtain q ys where q: "((qmap v)(SemQ n := None)) q = Some ys" "SemQ n \<in> set (q # ys)"
    unfolding in_nodes by blast
  then have "q \<noteq> SemQ n" "qmap v q = Some ys" by (auto split: if_splits)
  then show False using q(2) by (auto simp: qmap_def)
qed

subsection \<open>sys_sem_init\<close>

lemma sys_sem_init_run:
  assumes "sched_ok s v" "sem_ok s v" "valid_sem n_sem True s = 0"
  shows "\<exists>s'. sys_sem_init n_sem val s = Some (0, s') \<and> sched_ok s' (v\<lparr>v_sem := (v_sem v)(sem_index n_sem \<mapsto> [])\<rparr>)
     \<and> list_sem s' = (list_sem s)(sem_index n_sem := \<lparr>isInit = 1, counter = val\<rparr>)"
proof -
  let ?n = "sem_index n_sem" and ?w = "v\<lparr>v_sem := (v_sem v)(sem_index n_sem \<mapsto> [])\<rparr>"
  note ok = sched_okD[OF assms(1)]
  have n: "?n < 8" "isInit (list_sem s ?n) = 0" using assms(3) by (auto simp: valid_sem_iff sem_index_def)
  then have old: "v_sem v ?n = None \<or> v_sem v ?n = Some []" using assms(2) by (auto simp: sem_ok_def)
  obtain h where h: "INIT_LIST_HEAD (Some (SemQ ?n)) (heap s) = Some h" "queues h (qmap ?w)"
    using queues_init[OF ok(6) SemQ_fresh, of ?n] qmap_upd(3)[of v ?n "[]"] by auto
  have "view_ok ?w"
  proof (rule view_ok_same_members[OF ok(2)])
    show "enqueued ?w i \<longleftrightarrow> enqueued v i" for i
      unfolding enqueued_iff using old in_sem_upd[of "v_sem v" ?n "[]" i]
      by (simp del: fun_upd_apply) (metis empty_iff empty_set option.distinct(1) option.inject)
    fix k ys assume "v_sem ?w k = Some ys"
    then show "v_idle v \<notin> set ys" using ok(2) unfolding view_ok_def by (auto split: if_splits)
  qed simp_all
  moreover have "running s = v_run v" "idle_task s = Some (v_idle v)" "tstate (tasks s (v_run v)) = ST_RUN" using ok by simp_all
  ultimately show ?thesis
    using h assms(3) by (intro exI[of _ "upd_sem ?n (\<lambda>m. m\<lparr>isInit := 1\<rparr>) (upd_sem ?n (\<lambda>m. m\<lparr>counter := val\<rparr>) s\<lparr>heap := h\<rparr>)"])
      (cases "list_sem s ?n", simp add: sys_sem_init_def upd_sem_def sched_ok_def views_def Let_def)
qed

subsection \<open>sys_sem_wait\<close>

lemma sys_sem_wait_run:
  assumes "kernel_ok s v" "valid_sem n_sem False s = 0" "v_run v \<noteq> v_idle v"
  defines "n \<equiv> sem_index n_sem"
  defines "s1 \<equiv> upd_sem n (\<lambda>m. m\<lparr>counter := counter m - 1\<rparr>) s"
  shows "if 0 < sint (counter (list_sem s n))
     then sys_sem_wait n_sem s = Some (sem_wait_exit s1) \<and> kernel_ok s1 v
     else \<exists>s' xs v'. v_sem v n = Some xs \<and> v' = next_view (v\<lparr>v_sem := (v_sem v)(n \<mapsto> xs @ [v_run v])\<rparr>)
          \<and> sys_sem_wait n_sem s = Some (Switched_out, s') \<and> kernel_ok s' v' \<and> switched (v_run v') s1 s'"
proof -
  obtain xs where xs: "v_sem v n = Some xs" "n < 8" "isInit (list_sem s n) \<noteq> 0"
    "int (length xs) = max 0 (- sint (counter (list_sem s n)))"
    using sem_okD[OF kernel_okD(2)[OF assms(1)] assms(2)] unfolding n_def by blast
  have c: "sint (counter (list_sem s1 n)) = sint (counter (list_sem s n)) - 1"
    using counter_bound[OF assms(1,2)] sint_pred32[of "counter (list_sem s n)"] by (simp add: s1_def upd_sem_def n_def)
  have l1: "list_sem s1 n = (list_sem s n)\<lparr>counter := counter (list_sem s n) - 1\<rparr>" "\<And>k. k \<noteq> n \<Longrightarrow> list_sem s1 k = list_sem s k"
    by (simp_all add: s1_def upd_sem_def)
  have ok1: "sched_ok s1 v" using kernel_okD(1)[OF assms(1)] by (simp add: s1_def upd_sem_def)
  show ?thesis
  proof (cases "0 < sint (counter (list_sem s n))")
    case True
    have "v_sem v = (v_sem v)(n \<mapsto> xs)" using xs(1) by auto
    from sem_ok_change[OF kernel_okD(2)[OF assms(1)] l1(2) this] have "sem_ok s1 v"
      using xs True c l1(1) by simp
    moreover have "sys_sem_wait n_sem s = Some (sem_wait_exit s1)"
      using True c assms(2) by (simp add: sys_sem_wait_def s1_def n_def Let_def)
    ultimately show ?thesis using True ok1 by (simp add: kernel_ok_def)
  next
    case False
    let ?w = "v\<lparr>v_sem := (v_sem v)(n \<mapsto> xs @ [v_run v])\<rparr>"
    have "between ?w" using between_sem[OF sched_okD(2)[OF ok1] assms(3) xs(1)] .
    then obtain h s' where h: "list_add_tail (Some (TaskN (v_run v))) (Some (SemQ n)) (heap s1) = Some h"
      "sched_next_rr (s1\<lparr>heap := h\<rparr>) = Some s'" "sched_ok s' (next_view ?w)" "switched (v_run (next_view ?w)) s1 s'"
      using leave_processor[OF ok1, of "SemQ n" xs ?w] xs(1) by (auto simp: qmap_upd simp flip: map_append)
    have "sys_sem_wait n_sem s = Some (Switched_out, s')"
      using False c assms(2) h(1,2) sched_okD(4)[OF ok1] by (simp add: sys_sem_wait_def s1_def n_def Let_def)
    moreover have ls: "list_sem s' = list_sem s1" using h(4) by (simp add: switched_def sched_frame_def)
    have "sem_ok s' (next_view ?w)"
      by (rule sem_ok_change[OF kernel_okD(2)[OF assms(1)], of n]) (use ls l1 xs False c in auto)
    ultimately show ?thesis using False h(3,4) xs(1) by (simp add: kernel_ok_def)
  qed
qed

subsection \<open>sys_sem_signal\<close>

lemma sys_sem_signal_run:
  assumes "kernel_ok s v" "valid_sem n_sem False s = 0" "sint (counter (list_sem s (sem_index n_sem))) < 2147483647"
  defines "n \<equiv> sem_index n_sem"
  defines "s1 \<equiv> upd_sem n (\<lambda>m. m\<lparr>counter := counter m + 1\<rparr>) s"
  shows "if 0 \<le> sint (counter (list_sem s n))
     then sys_sem_signal n_sem s = Some (0, s1) \<and> kernel_ok s1 v
     else \<exists>h. sys_sem_signal n_sem s = Some (0, s1\<lparr>heap := h\<rparr>) \<and> kernel_ok (s1\<lparr>heap := h\<rparr>) (wake_view n v)
        \<and> the (v_sem v n) \<noteq> []"
proof -
  obtain xs where xs: "v_sem v n = Some xs" "n < 8" "isInit (list_sem s n) \<noteq> 0"
    "int (length xs) = max 0 (- sint (counter (list_sem s n)))"
    using sem_okD[OF kernel_okD(2)[OF assms(1)] assms(2)] unfolding n_def by blast
  have c: "sint (counter (list_sem s1 n)) = sint (counter (list_sem s n)) + 1"
    using assms(3) sint_succ32[of "counter (list_sem s n)"] by (simp add: s1_def upd_sem_def n_def)
  have l1: "list_sem s1 n = (list_sem s n)\<lparr>counter := counter (list_sem s n) + 1\<rparr>" "\<And>k. k \<noteq> n \<Longrightarrow> list_sem s1 k = list_sem s k"
    by (simp_all add: s1_def upd_sem_def)
  have ok1: "sched_ok s1 v" using kernel_okD(1)[OF assms(1)] by (simp add: s1_def upd_sem_def)
  show ?thesis
  proof (cases "0 \<le> sint (counter (list_sem s n))")
    case True
    have "v_sem v = (v_sem v)(n \<mapsto> xs)" using xs(1) by auto
    from sem_ok_change[OF kernel_okD(2)[OF assms(1)] l1(2) this] have "sem_ok s1 v"
      using xs True c l1(1) by simp
    moreover have "sys_sem_signal n_sem s = Some (0, s1)"
      using True c assms(2) by (simp add: sys_sem_signal_def s1_def n_def Let_def)
    ultimately show ?thesis using True ok1 by (simp add: kernel_ok_def)
  next
    case False
    then obtain x ys where x: "xs = x # ys" using xs(4) by (cases xs) auto
    obtain h1 h2 where h: "list_first (Some (SemQ n)) (heap s1) = Some (Some (TaskN x))"
       "list_del (Some (TaskN x)) (heap s1) = Some h1" "list_add_tail (Some (TaskN x)) (Some ReadyQ) h1 = Some h2"
       "sched_ok (s1\<lparr>heap := h2\<rparr>) (wake_view n v)"
      using wake_first[OF ok1, of n x ys] xs(1) x by blast
    have "sys_sem_signal n_sem s = Some (0, s1\<lparr>heap := h2\<rparr>)"
      using False c assms(2) h(1-3) by (simp add: sys_sem_signal_def s1_def n_def Let_def)
    moreover have "sem_ok (s1\<lparr>heap := h2\<rparr>) (wake_view n v)"
      by (rule sem_ok_change[OF kernel_okD(2)[OF assms(1)], of n _ _ ys])
         (use l1 xs False c x in \<open>auto simp: wake_view_def\<close>)
    ultimately show ?thesis using False h(4) xs(1) x by (simp add: kernel_ok_def exI[of _ h2])
  qed
qed

subsection \<open>sys_sem_destroy\<close>

definition woken_view :: "nat \<Rightarrow> view \<Rightarrow> view" where
  "woken_view n v = v\<lparr>v_sem := (v_sem v)(n \<mapsto> []), v_ready := v_ready v @ the (v_sem v n)\<rparr>"

definition mark_destroyed :: "nat set \<Rightarrow> (nat \<Rightarrow> task_struct) \<Rightarrow> nat \<Rightarrow> task_struct" where
  "mark_destroyed X f i = (if i \<in> X then (f i)\<lparr>destroyed := 1\<rparr> else f i)"

lemma wake_all_run:
  "sched_ok s v \<Longrightarrow> v_sem v n = Some xs \<Longrightarrow>
     \<exists>h. wake_all n s = Some (s\<lparr>heap := h, tasks := mark_destroyed (set xs) (tasks s)\<rparr>)
       \<and> sched_ok (s\<lparr>heap := h, tasks := mark_destroyed (set xs) (tasks s)\<rparr>) (woken_view n v)"
proof (induction xs arbitrary: s v)
  case Nil
  have "list_empty (Some (SemQ n)) (heap s) = Some True"
    using empty_view[OF sched_okD(6)[OF Nil(1)], of "SemQ n" "[]"] Nil(2) by simp
  then have "wake_all n s = Some s" by (simp add: wake_all.simps)
  moreover have "woken_view n v = v" using Nil(2) by (cases v) (auto simp: woken_view_def)
  moreover have "mark_destroyed {} (tasks s) = tasks s" by (rule ext) (simp add: mark_destroyed_def)
  ultimately show ?case using Nil(1) by (intro exI[of _ "heap s"]) simp
next
  case (Cons x xs)
  obtain h1 h2 where h: "list_first (Some (SemQ n)) (heap s) = Some (Some (TaskN x))"
     "list_del (Some (TaskN x)) (heap s) = Some h1" "list_add_tail (Some (TaskN x)) (Some ReadyQ) h1 = Some h2"
     "sched_ok (s\<lparr>heap := h2\<rparr>) (wake_view n v)"
    using wake_first[OF Cons.prems] by blast
  let ?s1 = "upd_task x (\<lambda>ts. ts\<lparr>destroyed := 1\<rparr>) (s\<lparr>heap := h1\<rparr>)\<lparr>heap := h2\<rparr>"
  have e: "list_empty (Some (SemQ n)) (heap s) = Some False"
    using empty_view[OF sched_okD(6)[OF Cons.prems(1)], of "SemQ n" "x # xs"] Cons.prems(2) by simp
  have step: "wake_all n s = wake_all n ?s1"
    using h(1-3) e by (subst wake_all.simps) (simp add: list_head_to_task_struct_def upd_task_def Let_def)
  have ok1: "sched_ok ?s1 (wake_view n v)" using h(4) by (auto simp: sched_ok_def views_def upd_task_def)
  have "v_sem (wake_view n v) n = Some xs" using Cons.prems(2) by (simp add: wake_view_def)
  from Cons.IH[OF ok1 this] obtain h where
    IH: "wake_all n ?s1 = Some (?s1\<lparr>heap := h, tasks := mark_destroyed (set xs) (tasks ?s1)\<rparr>)"
    "sched_ok (?s1\<lparr>heap := h, tasks := mark_destroyed (set xs) (tasks ?s1)\<rparr>) (woken_view n (wake_view n v))" by blast
  have "mark_destroyed (set xs) (tasks ?s1) i = mark_destroyed (set (x # xs)) (tasks s) i" for i
    by (simp add: mark_destroyed_def upd_task_def)
  then have m: "mark_destroyed (set xs) (tasks ?s1) = mark_destroyed (set (x # xs)) (tasks s)" by blast
  have s: "?s1\<lparr>heap := h, tasks := mark_destroyed (set (x # xs)) (tasks s)\<rparr> = s\<lparr>heap := h, tasks := mark_destroyed (set (x # xs)) (tasks s)\<rparr>"
    by (simp add: upd_task_def)
  have "woken_view n (wake_view n v) = woken_view n v"
    using Cons.prems(2) by (simp add: woken_view_def wake_view_def)
  then show ?case using IH unfolding step m s by (intro exI[of _ h]) simp
qed

lemma sys_sem_destroy_run:
  assumes "kernel_ok s v" "valid_sem n_sem False s = 0"
  defines "n \<equiv> sem_index n_sem"
  shows "\<exists>xs s'. v_sem v n = Some xs \<and> sys_sem_destroy n_sem s = Some (0, s') \<and> kernel_ok s' (woken_view n v)
     \<and> tasks s' = mark_destroyed (set xs) (tasks s) \<and> list_sem s' = (list_sem s)(n := (list_sem s n)\<lparr>isInit := 0\<rparr>)
     \<and> running s' = running s"
proof -
  obtain xs where xs: "v_sem v n = Some xs"
    using sem_okD[OF kernel_okD(2)[OF assms(1)] assms(2)] unfolding n_def by blast
  obtain h where h: "wake_all n s = Some (s\<lparr>heap := h, tasks := mark_destroyed (set xs) (tasks s)\<rparr>)"
    "sched_ok (s\<lparr>heap := h, tasks := mark_destroyed (set xs) (tasks s)\<rparr>) (woken_view n v)"
    using wake_all_run[OF kernel_okD(1)[OF assms(1)] xs] by blast
  let ?s1 = "s\<lparr>heap := h, tasks := mark_destroyed (set xs) (tasks s)\<rparr>"
  let ?s2 = "upd_sem n (\<lambda>m. m\<lparr>isInit := 0\<rparr>) ?s1"
  have "sem_ok ?s2 (woken_view n v)"
    by (rule sem_ok_change[OF kernel_okD(2)[OF assms(1)], of n _ _ "[]"]) (simp_all add: upd_sem_def woken_view_def)
  moreover have "sched_ok ?s2 (woken_view n v)" using h(2) unfolding upd_sem_def by simp
  ultimately show ?thesis
    using h(1) assms(2) xs by (intro exI[of _ xs] exI[of _ ?s2]) (simp add: sys_sem_destroy_def upd_sem_def kernel_ok_def n_def Let_def)
qed

section \<open>The operations on the abstract semaphore\<close>

lemma valid_sem_abs:
  "valid_sem n_sem False s = 0 \<longleftrightarrow> sem_abs s v (sem_index n_sem) \<noteq> None"
  "valid_sem n_sem True s = 0 \<longleftrightarrow> sem_index n_sem < 8 \<and> sem_abs s v (sem_index n_sem) = None"
  by (auto simp: valid_sem_iff sem_abs_def sem_index_def)

lemma sem_abs_change:
  assumes "\<And>k. k \<noteq> n \<Longrightarrow> list_sem s' k = list_sem s k" "v_sem v' = (v_sem v)(n \<mapsto> xs)" "n < 8"
  shows "sem_abs s' v' = (sem_abs s v)(n := if isInit (list_sem s' n) = 0 then None
     else Some (sint (counter (list_sem s' n)), xs))"
proof
  fix k
  show "sem_abs s' v' k = ((sem_abs s v)(n := if isInit (list_sem s' n) = 0 then None
     else Some (sint (counter (list_sem s' n)), xs))) k"
    using assms by (cases "k = n") (simp_all add: sem_abs_def)
qed

lemma sem_abs_SomeD:
  assumes "sem_ok s v" "sem_abs s v n = Some (c, ws)"
  shows "v_sem v n = Some ws" "sint (counter (list_sem s n)) = c" "n < 8" "isInit (list_sem s n) \<noteq> 0"
    "int (length ws) = max 0 (- c)"
proof -
  show n: "n < 8" "isInit (list_sem s n) \<noteq> 0" and c: "sint (counter (list_sem s n)) = c"
    using assms(2) by (auto simp: sem_abs_def split: if_splits)
  obtain xs where "v_sem v n = Some xs" "int (length xs) = max 0 (- sint (counter (list_sem s n)))"
    using assms(1)[unfolded sem_ok_def, rule_format, of n] n by auto
  then show "v_sem v n = Some ws" "int (length ws) = max 0 (- c)"
    using assms(2) n c by (auto simp: sem_abs_def)
qed

text \<open>A kernel with one semaphore, for the concrete instances below.\<close>

definition one_sem_view :: view where
  "one_sem_view = three_task_view\<lparr>v_sem := [0 \<mapsto> []]\<rparr>"

lemma one_sem_kernel:
  assumes "0 \<le> sint (val :: DWord)"
  shows "\<exists>s. kernel_ok s one_sem_view \<and> sem_abs s one_sem_view 0 = Some (sint val, []) \<and> (\<forall>i. destroyed (tasks s i) = 0)"
proof -
  obtain h where h: "queues h (qmap three_task_view)"
    using views_build[of three_task_view] by (auto simp: three_task_view_def)
  let ?s = "kernel_image (\<lambda>_. 0) (\<lambda>_. 0) 0\<lparr>heap := h, running := 1, idle_task := Some 0\<rparr>"
  have vok: "view_ok three_task_view"
    unfolding view_ok_def enqueued_iff by (auto simp: three_task_view_def NR_TASKS_def)
  obtain g where g: "INIT_LIST_HEAD (Some (SemQ 0)) h = Some g" "queues g (qmap one_sem_view)"
    using queues_init[OF h SemQ_fresh, of 0] qmap_upd(3)[of three_task_view 0 "[]"]
    by (auto simp: one_sem_view_def three_task_view_def)
  let ?t = "?s\<lparr>heap := g, list_sem := (\<lambda>_. \<lparr>isInit = 0, counter = 0\<rparr>)(0 := \<lparr>isInit = 1, counter = val\<rparr>)\<rparr>"
  have "view_ok one_sem_view"
    by (rule view_ok_same_members[OF vok])
       (auto simp: one_sem_view_def three_task_view_def enqueued_iff split: if_splits)
  then have "kernel_ok ?t one_sem_view"
    using g(2) assms by (auto simp: kernel_ok_def sched_ok_def views_def sem_ok_def kernel_image_def zero_task_def
        one_sem_view_def three_task_view_def)
  then show ?thesis
    by (intro exI[of _ ?t]) (simp add: sem_abs_def one_sem_view_def kernel_image_def zero_task_def)
qed

section \<open>Properties\<close>

text \<open>
  C13: \<open>sys_sem_init\<close> creates a semaphore with the given value and nobody waiting, on a slot
  between 0 and 7 that has none, and fails with -1 and no effect on any other argument. Other
  semaphores and the task queues are untouched, and the invariant holds afterwards for every
  value that is not negative as an \<open>int\<close>.
\<close>

theorem sem_init_creates_semaphore:
  assumes "kernel_ok s v"
  shows "if sem_index n_sem < 8 \<and> sem_abs s v (sem_index n_sem) = None
     then \<exists>s' v'. sys_sem_init n_sem val s = Some (0, s') \<and> sched_ok s' v' \<and> (0 \<le> sint val \<longrightarrow> kernel_ok s' v')
        \<and> sem_abs s' v' = (sem_abs s v)(sem_index n_sem \<mapsto> (sint val, []))
        \<and> v_run v' = v_run v \<and> v_ready v' = v_ready v \<and> v_free v' = v_free v
     else sys_sem_init n_sem val s = Some (-1, s)"
proof (cases "valid_sem n_sem True s = 0")
  case True
  let ?n = "sem_index n_sem" and ?w = "v\<lparr>v_sem := (v_sem v)(sem_index n_sem \<mapsto> [])\<rparr>"
  obtain s' where s': "sys_sem_init n_sem val s = Some (0, s')" "sched_ok s' ?w"
    "list_sem s' = (list_sem s)(?n := \<lparr>isInit = 1, counter = val\<rparr>)"
    using sys_sem_init_run[OF kernel_okD[OF assms] True] by blast
  have "sem_abs s' ?w = (sem_abs s v)(?n \<mapsto> (sint val, []))"
    using sem_abs_change[of ?n s' s ?w v "[]"] s'(3) True by (simp add: valid_sem_iff sem_index_def)
  moreover have "kernel_ok s' ?w" if "0 \<le> sint val"
    using sem_ok_change[OF kernel_okD(2)[OF assms], of ?n s' ?w "[]"] that s'(2,3) by (simp add: kernel_ok_def)
  moreover have "sem_index n_sem < 8 \<and> sem_abs s v (sem_index n_sem) = None" using True valid_sem_abs(2) by blast
  ultimately show ?thesis using s'(1,2) by (intro if_P[THEN iffD2] exI[of _ s'] exI[of _ ?w]) auto
next
  case False
  then have "\<not> (sem_index n_sem < 8 \<and> sem_abs s v (sem_index n_sem) = None)" using valid_sem_abs(2) by blast
  then show ?thesis using False by (simp add: sys_sem_init_def)
qed

theorem sem_init_creates_semaphore_witness:
  "\<exists>s s' v'. kernel_ok s one_sem_view \<and> sys_sem_init 3 5 s = Some (0, s') \<and> kernel_ok s' v'
     \<and> sem_abs s' v' 3 = Some (5, []) \<and> sys_sem_init 0 5 s = Some (-1, s) \<and> sys_sem_init 8 5 s = Some (-1, s)"
proof -
  obtain s where s: "kernel_ok s one_sem_view" "sem_abs s one_sem_view 0 = Some (0, [])"
    using one_sem_kernel[of 0] by auto
  have "sem_abs s one_sem_view 3 = None"
    using kernel_okD(2)[OF s(1)] by (auto simp: sem_ok_def sem_abs_def one_sem_view_def split: if_splits dest!: spec[of _ 3])
  then obtain s' v' where s': "sys_sem_init 3 5 s = Some (0, s')" "kernel_ok s' v'"
    "sem_abs s' v' = (sem_abs s one_sem_view)(3 \<mapsto> (5, []))"
    using sem_init_creates_semaphore[OF s(1), of 3 5] by (auto simp: sem_index_def)
  have "sys_sem_init 0 5 s = Some (-1, s)" "sys_sem_init 8 5 s = Some (-1, s)"
    using sem_init_creates_semaphore[OF s(1), of 0 5] sem_init_creates_semaphore[OF s(1), of 8 5] s(2)
    by (simp_all add: sem_index_def)
  then show ?thesis using s(1) s' by (intro exI[of _ s] exI[of _ s'] exI[of _ v']) simp
qed

text \<open>
  C5: \<open>sys_sem_wait\<close> takes one unit from a semaphore whose value is positive and returns 0 to the
  caller, which keeps running. Otherwise the value goes down all the same, the caller joins the
  end of the waiting list and the first ready task (or the idle task) runs. On a slot without a
  semaphore it fails with -1 and no effect. The invariant is kept in every case.
\<close>

theorem sem_wait_takes_or_blocks:
  assumes "kernel_ok s v" "v_run v \<noteq> v_idle v" "destroyed (current s) \<noteq> 1"
  shows "case sem_abs s v (sem_index n_sem) of
       None \<Rightarrow> sys_sem_wait n_sem s = Some (Returned (-1), s)
     | Some a \<Rightarrow> (case take_unit (v_run v) a of
           (True, a') \<Rightarrow> \<exists>s'. sys_sem_wait n_sem s = Some (Returned 0, s') \<and> kernel_ok s' v
              \<and> sem_abs s' v = (sem_abs s v)(sem_index n_sem \<mapsto> a')
         | (False, a') \<Rightarrow> \<exists>s' v'. sys_sem_wait n_sem s = Some (Switched_out, s') \<and> kernel_ok s' v'
              \<and> sem_abs s' v' = (sem_abs s v)(sem_index n_sem \<mapsto> a')
              \<and> running s' = hd (v_ready v @ [v_idle v]) \<and> v_ready v' = tl (v_ready v) \<and> v_free v' = v_free v)"
proof (cases "sem_abs s v (sem_index n_sem)")
  case None
  then have "valid_sem n_sem False s \<noteq> 0" using valid_sem_abs(1)[of n_sem s v] by simp
  then show ?thesis using None by (simp add: sys_sem_wait_def)
next
  case (Some cw)
  let ?n = "sem_index n_sem"
  obtain c ws where cw: "cw = (c, ws)" by fastforce
  have val: "valid_sem n_sem False s = 0" using Some valid_sem_abs(1)[of n_sem s v] by simp
  note abs = sem_abs_SomeD[OF kernel_okD(2)[OF assms(1)] Some[unfolded cw]]
  let ?s1 = "upd_sem ?n (\<lambda>m. m\<lparr>counter := counter m - 1\<rparr>) s"
  have c1: "sint (counter (list_sem s ?n) - 1) = c - 1"
    using counter_bound[OF assms(1) val] sint_pred32[of "counter (list_sem s ?n)"] abs(2) by simp
  note run = sys_sem_wait_run[OF assms(1) val assms(2)]
  show ?thesis
  proof (cases "0 < c")
    case True
    then have "sys_sem_wait n_sem s = Some (sem_wait_exit ?s1)" "kernel_ok ?s1 v" using run abs(2) by auto
    moreover have "sem_wait_exit ?s1 = (Returned 0, ?s1)"
      using assms(3) by (simp add: sem_wait_exit_def current_def upd_sem_def)
    moreover have "sem_abs ?s1 v = (sem_abs s v)(?n \<mapsto> (c - 1, ws))"
    proof -
      have "v_sem v = (v_sem v)(?n \<mapsto> ws)" using abs(1) by auto
      from sem_abs_change[OF _ this abs(3), of ?s1 s] show ?thesis using abs(4) c1 by (simp add: upd_sem_def)
    qed
    ultimately show ?thesis using Some cw True by (simp add: take_unit_def)
  next
    case False
    let ?v' = "next_view (v\<lparr>v_sem := (v_sem v)(?n \<mapsto> ws @ [v_run v])\<rparr>)"
    obtain s' where s': "sys_sem_wait n_sem s = Some (Switched_out, s')" "kernel_ok s' ?v'" "switched (v_run ?v') ?s1 s'"
      using run False abs(1,2) by auto
    have ls: "list_sem s' = list_sem ?s1" using s'(3) by (simp add: switched_def sched_frame_def)
    have "sem_abs s' ?v' = (sem_abs s v)(?n \<mapsto> (c - 1, ws @ [v_run v]))"
      using sem_abs_change[of ?n s' s ?v' v "ws @ [v_run v]"] ls abs(3,4) c1 by (simp add: upd_sem_def)
    moreover have "running s' = hd (v_ready v @ [v_idle v])" "v_ready ?v' = tl (v_ready v)" "v_free ?v' = v_free v"
      using sched_okD(4)[OF kernel_okD(1)[OF s'(2)]] by (simp_all add: next_view_def split: list.splits)
    ultimately show ?thesis
      using Some cw False s'(1,2) by (simp add: take_unit_def exI[of _ s']) (intro exI[of _ ?v'] conjI; simp)
  qed
qed

theorem sem_wait_takes_or_blocks_witness:
  "\<exists>s s1 s2 v2. kernel_ok s one_sem_view \<and> sys_sem_wait 0 s = Some (Returned 0, s1)
     \<and> kernel_ok s1 one_sem_view \<and> sys_sem_wait 0 s1 = Some (Switched_out, s2) \<and> kernel_ok s2 v2
     \<and> sem_abs s2 v2 0 = Some (-1, [1]) \<and> running s2 = 2"
proof -
  obtain s where s: "kernel_ok s one_sem_view" "sem_abs s one_sem_view 0 = Some (1, [])" "\<forall>i. destroyed (tasks s i) = 0"
    using one_sem_kernel[of 1] by auto
  have v: "v_run one_sem_view = 1" "v_idle one_sem_view = 0" "v_ready one_sem_view = [2, 3]"
    by (simp_all add: one_sem_view_def three_task_view_def)
  obtain s1 where s1: "sys_sem_wait 0 s = Some (Returned 0, s1)" "kernel_ok s1 one_sem_view"
    "sem_abs s1 one_sem_view = (sem_abs s one_sem_view)(0 \<mapsto> (0, []))"
    using sem_wait_takes_or_blocks[OF s(1), of 0] s(2,3) v by (auto simp: take_unit_def sem_index_def current_def)
  have "sem_wait_exit (upd_sem 0 (\<lambda>m. m\<lparr>counter := counter m - 1\<rparr>) s) = (Returned 0, upd_sem 0 (\<lambda>m. m\<lparr>counter := counter m - 1\<rparr>) s)"
    using s(3) by (simp add: sem_wait_exit_def upd_sem_def current_def)
  then have "s1 = upd_sem 0 (\<lambda>m. m\<lparr>counter := counter m - 1\<rparr>) s"
    using s1(1) by (auto simp: sys_sem_wait_def sem_index_def upd_sem_def Let_def split: if_splits bind_splits)
  then have "destroyed (current s1) \<noteq> 1" using s(3) by (simp add: upd_sem_def current_def)
  then obtain s2 v2 where "sys_sem_wait 0 s1 = Some (Switched_out, s2)" "kernel_ok s2 v2"
    "sem_abs s2 v2 = (sem_abs s1 one_sem_view)(0 \<mapsto> (-1, [1]))" "running s2 = 2"
    using sem_wait_takes_or_blocks[OF s1(2), of 0] s1(3) v by (auto simp: take_unit_def sem_index_def)
  then show ?thesis using s(1) s1(1,2) by (intro exI[of _ s] exI[of _ s1] exI[of _ s2] exI[of _ v2]) simp
qed

text \<open>
  C6: \<open>sys_sem_signal\<close> adds one unit; when tasks are waiting, the one that has waited longest goes
  to the end of the ready queue, and the caller keeps running. On a slot without a semaphore it
  fails with -1 and no effect. The invariant is kept as long as the counter is not the largest
  \<open>int\<close>.
\<close>

theorem sem_signal_wakes_first:
  assumes "kernel_ok s v" "\<forall>c ws. sem_abs s v (sem_index n_sem) = Some (c, ws) \<longrightarrow> c < 2147483647"
  shows "case sem_abs s v (sem_index n_sem) of
       None \<Rightarrow> sys_sem_signal n_sem s = Some (-1, s)
     | Some a \<Rightarrow> (case give_unit a of (woken, a') \<Rightarrow>
         \<exists>s' v'. sys_sem_signal n_sem s = Some (0, s') \<and> kernel_ok s' v'
         \<and> sem_abs s' v' = (sem_abs s v)(sem_index n_sem \<mapsto> a')
         \<and> v_ready v' = v_ready v @ (case woken of None \<Rightarrow> [] | Some w \<Rightarrow> [w])
         \<and> v_run v' = v_run v \<and> v_free v' = v_free v \<and> (fst a < 0 \<longleftrightarrow> woken \<noteq> None))"
proof (cases "sem_abs s v (sem_index n_sem)")
  case None
  then have "valid_sem n_sem False s \<noteq> 0" using valid_sem_abs(1)[of n_sem s v] by simp
  then show ?thesis using None by (simp add: sys_sem_signal_def)
next
  case (Some cw)
  let ?n = "sem_index n_sem"
  obtain c ws where cw: "cw = (c, ws)" by fastforce
  have val: "valid_sem n_sem False s = 0" using Some valid_sem_abs(1)[of n_sem s v] by simp
  note abs = sem_abs_SomeD[OF kernel_okD(2)[OF assms(1)] Some[unfolded cw]]
  let ?s1 = "upd_sem ?n (\<lambda>m. m\<lparr>counter := counter m + 1\<rparr>) s"
  have lt: "c < 2147483647" using assms(2) Some cw by simp
  then have c1: "sint (counter (list_sem s ?n) + 1) = c + 1"
    using sint_succ32[of "counter (list_sem s ?n)"] abs(2) by simp
  note run = sys_sem_signal_run[OF assms(1) val, unfolded abs(2), OF lt]
  have ws: "c < 0 \<longleftrightarrow> ws \<noteq> []" using abs(5) by (cases ws) auto
  show ?thesis
  proof (cases "0 \<le> c")
    case True
    then have "v_sem v = (v_sem v)(?n \<mapsto> tl ws)" using abs(1) ws by auto
    from sem_abs_change[OF _ this abs(3), of ?s1 s]
    have "sem_abs ?s1 v = (sem_abs s v)(?n \<mapsto> (c + 1, tl ws))" using abs(4) c1 by (simp add: upd_sem_def)
    then show ?thesis using Some cw True run ws by (auto simp: give_unit_def intro!: exI[of _ v])
  next
    case False
    obtain h where h: "sys_sem_signal n_sem s = Some (0, ?s1\<lparr>heap := h\<rparr>)" "kernel_ok (?s1\<lparr>heap := h\<rparr>) (wake_view ?n v)"
      using run False by auto
    have w: "v_sem (wake_view ?n v) = (v_sem v)(?n \<mapsto> tl ws)" "v_ready (wake_view ?n v) = v_ready v @ [hd ws]"
      "v_run (wake_view ?n v) = v_run v" "v_free (wake_view ?n v) = v_free v" using abs(1) by (simp_all add: wake_view_def)
    from sem_abs_change[OF _ w(1) abs(3), of "?s1\<lparr>heap := h\<rparr>" s]
    have "sem_abs (?s1\<lparr>heap := h\<rparr>) (wake_view ?n v) = (sem_abs s v)(?n \<mapsto> (c + 1, tl ws))"
      using abs(4) c1 by (simp add: upd_sem_def)
    then show ?thesis using Some cw False h w ws by (auto simp: give_unit_def intro!: exI[of _ "?s1\<lparr>heap := h\<rparr>"] exI[of _ "wake_view ?n v"])
  qed
qed

text \<open>A kernel where task 1 waits on semaphore 0.\<close>

lemma waiting_kernel:
  "\<exists>s v. kernel_ok s v \<and> sem_abs s v 0 = Some (-1, [1]) \<and> v_run v = 2 \<and> v_ready v = [3] \<and> v_idle v = 0"
proof -
  obtain s where s: "kernel_ok s one_sem_view" "sem_abs s one_sem_view 0 = Some (0, [])"
    using one_sem_kernel[of 0] by auto
  have v: "v_run one_sem_view = 1" "v_idle one_sem_view = 0" "v_ready one_sem_view = [2, 3]" "v_sem one_sem_view 0 = Some []"
    by (simp_all add: one_sem_view_def three_task_view_def)
  have val: "valid_sem 0 False s = 0" using s(2) valid_sem_abs(1)[of 0 s one_sem_view] by (simp add: sem_index_def)
  let ?v' = "next_view (one_sem_view\<lparr>v_sem := (v_sem one_sem_view)(0 \<mapsto> [1])\<rparr>)"
  let ?s1 = "upd_sem 0 (\<lambda>m. m\<lparr>counter := counter m - 1\<rparr>) s"
  note abs = sem_abs_SomeD[OF kernel_okD(2)[OF s(1)] s(2)]
  obtain s' where s': "kernel_ok s' ?v'" "switched (v_run ?v') ?s1 s'"
    using sys_sem_wait_run[OF s(1) val] v abs(2) by (auto simp: sem_index_def)
  have "sem_abs s' ?v' 0 = Some (-1, [1])"
    using s'(2) abs by (simp add: sem_abs_def switched_def sched_frame_def upd_sem_def sint_pred32)
  moreover have "v_run ?v' = 2" "v_ready ?v' = [3]" "v_idle ?v' = 0" using v by (simp_all add: next_view_def)
  ultimately show ?thesis using s'(1) by blast
qed

theorem sem_signal_wakes_first_witness:
  "\<exists>s v s' v'. kernel_ok s v \<and> sem_abs s v 0 = Some (-1, [1]) \<and> sys_sem_signal 0 s = Some (0, s')
     \<and> kernel_ok s' v' \<and> sem_abs s' v' 0 = Some (0, []) \<and> v_ready v' = [3, 1]"
proof -
  obtain s v where s: "kernel_ok s v" "sem_abs s v 0 = Some (-1, [1])" "v_ready v = [3]" using waiting_kernel by blast
  then obtain s' v' where "sys_sem_signal 0 s = Some (0, s')" "kernel_ok s' v'"
    "sem_abs s' v' = (sem_abs s v)(0 \<mapsto> (0, []))" "v_ready v' = [3, 1]"
    using sem_signal_wakes_first[OF s(1), of 0] by (auto simp: give_unit_def sem_index_def)
  then show ?thesis using s by (intro exI[of _ s] exI[of _ v] exI[of _ s'] exI[of _ v']) simp
qed

text \<open>
  C7: \<open>sys_sem_destroy\<close> always returns: it moves every waiting task, in order, to the end of the
  ready queue with its \<open>destroyed\<close> flag set, and leaves the slot without a semaphore. When the
  \<open>j\<close>-th of them gets the processor in its turn, the rest of its \<open>sys_sem_wait\<close> returns -1 and
  clears the flag. On a slot without a semaphore the call fails with -1 and no effect.
\<close>

theorem sem_destroy_releases_all:
  assumes "kernel_ok s v"
  shows "case sem_abs s v (sem_index n_sem) of
       None \<Rightarrow> sys_sem_destroy n_sem s = Some (-1, s)
     | Some (c, ws) \<Rightarrow> \<exists>s' v'. sys_sem_destroy n_sem s = Some (0, s') \<and> kernel_ok s' v'
         \<and> sem_abs s' v' = (sem_abs s v)(sem_index n_sem := None)
         \<and> v_ready v' = v_ready v @ ws \<and> v_run v' = v_run v \<and> v_free v' = v_free v
         \<and> (\<forall>i. destroyed (tasks s' i) = (if i \<in> set ws then 1 else destroyed (tasks s i)))
         \<and> (\<forall>j < length ws. \<exists>t. repeat_op (Suc (length (v_ready v) + j)) force_task_switch s' = Some t
              \<and> running t = ws ! j
              \<and> sem_wait_exit t = (Returned (-1), upd_task (ws ! j) (\<lambda>ts. ts\<lparr>destroyed := 0\<rparr>) t))"
proof (cases "sem_abs s v (sem_index n_sem)")
  case None
  then have "valid_sem n_sem False s \<noteq> 0" using valid_sem_abs(1)[of n_sem s v] by simp
  then show ?thesis using None by (simp add: sys_sem_destroy_def)
next
  case (Some cw)
  let ?n = "sem_index n_sem"
  obtain c ws where cw: "cw = (c, ws)" by fastforce
  have val: "valid_sem n_sem False s = 0" using Some valid_sem_abs(1)[of n_sem s v] by simp
  note abs = sem_abs_SomeD[OF kernel_okD(2)[OF assms(1)] Some[unfolded cw]]
  obtain s' where s': "sys_sem_destroy n_sem s = Some (0, s')" "kernel_ok s' (woken_view ?n v)"
     "tasks s' = mark_destroyed (set ws) (tasks s)" "list_sem s' = (list_sem s)(?n := (list_sem s ?n)\<lparr>isInit := 0\<rparr>)"
    using sys_sem_destroy_run[OF assms val] abs(1) by auto
  have w: "v_sem (woken_view ?n v) = (v_sem v)(?n \<mapsto> [])" "v_ready (woken_view ?n v) = v_ready v @ ws"
    "v_run (woken_view ?n v) = v_run v" "v_free (woken_view ?n v) = v_free v" using abs(1) by (simp_all add: woken_view_def)
  have d: "destroyed (tasks s' i) = (if i \<in> set ws then 1 else destroyed (tasks s i))" for i
    by (simp add: s'(3) mark_destroyed_def)
  have "sem_abs s' (woken_view ?n v) = (sem_abs s v)(?n := None)"
    using sem_abs_change[of ?n s' s, OF _ w(1) abs(3)] s'(4) by simp
  moreover have "\<exists>t. repeat_op (Suc (length (v_ready v) + j)) force_task_switch s' = Some t \<and> running t = ws ! j
      \<and> sem_wait_exit t = (Returned (-1), upd_task (ws ! j) (\<lambda>ts. ts\<lparr>destroyed := 0\<rparr>) t)" if j: "j < length ws" for j
  proof -
    let ?k = "Suc (length (v_ready v) + j)" and ?ring = "v_run v # v_ready v @ ws"
    obtain t v2 where t: "repeat_op ?k force_task_switch s' = Some t" "sched_ok t v2" "sched_frame s' t"
      "v_run v2 # v_ready v2 = rotate ?k ?ring"
      using forced_switches[OF kernel_okD(1)[OF s'(2)], of ?k] w by auto
    have "hd (rotate ?k ?ring) = ?ring ! (?k mod length ?ring)" by (rule hd_rotate_conv_nth) simp
    also have "?k mod length ?ring = ?k" using j by (intro mod_less) simp
    also have "?ring ! ?k = ws ! j" by (simp add: nth_append)
    finally have "v_run v2 = ws ! j" using t(4) by (metis list.sel(1))
    then have "running t = ws ! j" "destroyed (tasks t (ws ! j)) = 1"
      using sched_okD(4)[OF t(2)] t(3) d[of "ws ! j"] j by (simp_all add: sched_frame_def)
    then show ?thesis using t(1) by (simp add: sem_wait_exit_def current_def)
  qed
  ultimately show ?thesis
    using Some cw s'(1,2) w d by (simp del: repeat_op.simps(2)) (intro exI[of _ "woken_view ?n v"] conjI; simp)
qed

theorem sem_destroy_releases_all_witness:
  "\<exists>s v s' t. kernel_ok s v \<and> sem_abs s v 0 = Some (-1, [1]) \<and> sys_sem_destroy 0 s = Some (0, s')
     \<and> repeat_op 2 force_task_switch s' = Some t \<and> running t = 1 \<and> fst (sem_wait_exit t) = Returned (-1)"
proof -
  obtain s v where s: "kernel_ok s v" "sem_abs s v 0 = Some (-1, [1])" "v_ready v = [3]" using waiting_kernel by blast
  have two: "Suc (length (v_ready v) + 0) = 2" using s(3) by simp
  obtain s' where s': "sys_sem_destroy 0 s = Some (0, s')"
    "\<forall>j < length [1::nat]. \<exists>t. repeat_op (Suc (length (v_ready v) + j)) force_task_switch s' = Some t
      \<and> running t = [1] ! j \<and> sem_wait_exit t = (Returned (-1), upd_task ([1] ! j) (\<lambda>ts. ts\<lparr>destroyed := 0\<rparr>) t)"
    using sem_destroy_releases_all[OF s(1), of 0] s(2) by (auto simp: sem_index_def simp del: repeat_op.simps(2))
  have "(0::nat) < length [1::nat]" by simp
  then obtain t where "repeat_op 2 force_task_switch s' = Some t" "running t = 1" "fst (sem_wait_exit t) = Returned (-1)"
    using s'(2)[rule_format, of 0] unfolding two by auto
  then show ?thesis using s s'(1) by blast
qed



end
