(* ===== verification/Process.thy ===== *)
theory Process
  imports Semaphore
begin

text \<open>
  Processes, threads and dynamic pages (\<open>sys.c\<close>): \<open>sys_fork\<close>, \<open>sys_exit\<close>, \<open>sys_createthread\<close>,
  \<open>sys_terminatethread\<close>, \<open>sys_alloc\<close> and \<open>sys_dealloc\<close>. The steps on page tables and frames are
  functions on \<^typ>\<open>mm_state\<close>; the system calls combine them with the task queues. The invariant
  \<open>mm_ok\<close> says that no frame is free while mapped, and that a data page shares its frame with no
  other page of any page table.
\<close>

section \<open>Steps on the page tables\<close>

definition map_in :: "nat \<Rightarrow> nat \<Rightarrow> DWord \<Rightarrow> mm_state \<Rightarrow> mm_state" where
  "map_in t page frame m = m\<lparr>pagusr_table := (pagusr_table m)(t := set_ss_pag (pagusr_table m t) page frame)\<rparr>"

definition unmap_in :: "nat \<Rightarrow> nat \<Rightarrow> mm_state \<Rightarrow> mm_state" where
  "unmap_in t page m = m\<lparr>pagusr_table := (pagusr_table m)(t := del_ss_pag (pagusr_table m t) page)\<rparr>"

text \<open>\<open>free_frame(get_frame(PT, page)); del_ss_pag(PT, page);\<close>\<close>

definition release_page :: "nat \<Rightarrow> nat \<Rightarrow> mm_state \<Rightarrow> mm_state" where
  "release_page t page m =
     unmap_in t page (m\<lparr>phys_mem := free_frame (get_frame (pagusr_table m t) page) (phys_mem m)\<rparr>)"

text \<open>The loop of \<open>sys_fork\<close> that gives the child its data pages: \<open>Some pag\<close> when frame \<open>pag\<close> is missing.\<close>

fun fork_data_pages :: "nat \<Rightarrow> nat \<Rightarrow> nat \<Rightarrow> mm_state \<Rightarrow> nat option \<times> mm_state" where
  "fork_data_pages t 0 pag m = (None, m)"
| "fork_data_pages t (Suc n) pag m =
     (case alloc_frame (phys_mem m) of (new_ph_pag, pm) \<Rightarrow>
        if new_ph_pag \<noteq> -1
        then fork_data_pages t n (pag + 1) (map_in t (PAG_LOG_INIT_DATA + pag) new_ph_pag (m\<lparr>phys_mem := pm\<rparr>))
        else (Some pag, m\<lparr>phys_mem := pm\<rparr>))"

text \<open>The frame behind a page, if the processor can reach it; copying a page to another.\<close>

definition page_frame :: "nat \<Rightarrow> nat \<Rightarrow> mm_state \<Rightarrow> nat option" where
  "page_frame t page m =
     (if page < TOTAL_PAGES \<and> pte_present (pagusr_table m t page) = 1
      then Some (unat (get_frame (pagusr_table m t) page)) else None)"

definition copy_page :: "nat \<Rightarrow> nat \<Rightarrow> nat \<Rightarrow> mm_state \<Rightarrow> mm_state option" where
  "copy_page t src dst m = do {
     fs \<leftarrow> page_frame t src m;
     fd \<leftarrow> page_frame t dst m;
     Some (m\<lparr>frame_mem := (frame_mem m)(fd := frame_mem m fs)\<rparr>) }"

definition fork_copy_page :: "nat \<Rightarrow> nat \<Rightarrow> nat \<Rightarrow> mm_state \<Rightarrow> mm_state option" where
  "fork_copy_page parent child pag m = do {
     let m = map_in parent (pag + NUM_PAG_DATA) (get_frame (pagusr_table m child) pag) m;
     m \<leftarrow> copy_page parent pag (pag + NUM_PAG_DATA) m;
     Some (unmap_in parent (pag + NUM_PAG_DATA) m) }"

definition fork_share_page :: "nat \<Rightarrow> nat \<Rightarrow> nat \<Rightarrow> mm_state \<Rightarrow> mm_state" where
  "fork_share_page parent child pag m = map_in child pag (get_frame (pagusr_table m parent) pag) m"

section \<open>System calls\<close>

text \<open>\<open>copy_data(current(), uchild, sizeof(union task_union))\<close>: the fields, the list node and the stack.\<close>

definition copy_task_union :: "nat \<Rightarrow> nat \<Rightarrow> kstate \<Rightarrow> kstate" where
  "copy_task_union src dst s =
     s\<lparr>tasks := (tasks s)(dst := tasks s src), kstack := (kstack s)(dst := kstack s src),
       heap := \<lparr>nxt = (nxt (heap s))(TaskN dst := nxt (heap s) (TaskN src)),
                prv = (prv (heap s))(TaskN dst := prv (heap s) (TaskN src))\<rparr>\<rparr>"

text \<open>
  \<open>sys_fork\<close>; \<open>ret_from_fork\<close> is the address of that function, and \<open>cpu_ebp\<close> is the frame pointer
  \<open>get_ebp\<close> returns.
\<close>

definition fork_child_stack :: "DWord \<Rightarrow> nat \<Rightarrow> kstate \<Rightarrow> kstate" where
  "fork_child_stack ret_from_fork c s =
     (let register_ebp = cpu_ebp s;
          register_ebp = (register_ebp - stack_addr s (running s) 0) + stack_addr s c 0;
          s = upd_task c (\<lambda>ts. ts\<lparr>register_esp := register_ebp + 4\<rparr>) s;
          temp_ebp = read_stack s register_ebp;
          s = upd_task c (\<lambda>ts. ts\<lparr>register_esp := register_esp ts - 4\<rparr>) s;
          s = write_stack (register_esp (tasks s c)) ret_from_fork s;
          s = upd_task c (\<lambda>ts. ts\<lparr>register_esp := register_esp ts - 4\<rparr>) s
      in write_stack (register_esp (tasks s c)) temp_ebp s)"

text \<open>The end of \<open>sys_fork\<close>, from the flush of the TLB on.\<close>

definition fork_finish :: "DWord \<Rightarrow> nat \<Rightarrow> kstate \<Rightarrow> (DWord \<times> kstate) option" where
  "fork_finish ret_from_fork c s = do {
     let s = set_cr3 (get_DIR (current s)) s;
     let s = s\<lparr>global_PID := global_PID s + 1\<rparr>;
     let s = upd_task c (\<lambda>ts. ts\<lparr>PID := global_PID s\<rparr>) s;
     let s = upd_task c (\<lambda>ts. ts\<lparr>tstate := ST_READY\<rparr>) s;
     let s = fork_child_stack ret_from_fork c s;
     s \<leftarrow> init_stats c s;
     let s = upd_task c (\<lambda>ts. ts\<lparr>tstate := ST_READY\<rparr>) s;
     h \<leftarrow> list_add_tail (Some (TaskN c)) (Some ReadyQ) (heap s);
     Some (PID (tasks s c), s\<lparr>heap := h\<rparr>) }"

definition sys_fork :: "DWord \<Rightarrow> kstate \<Rightarrow> (DWord \<times> kstate) option" where
  "sys_fork ret_from_fork s = do {
     e \<leftarrow> list_empty (Some FreeQ) (heap s);
     if e then Some (- ENOMEM, s)
     else do {
       l \<leftarrow> list_first (Some FreeQ) (heap s);
       h \<leftarrow> list_del l (heap s);
       c \<leftarrow> list_head_to_task_struct l;
       let s = copy_task_union (running s) c (s\<lparr>heap := h\<rparr>);
       let (_, s) = allocate_DIR c s;
       let process_PT = get_PT s (tasks s c);
       case fork_data_pages process_PT NUM_PAG_DATA 0 (mm s) of
         (Some pag, m) \<Rightarrow> do {
           let m = fold (\<lambda>i. release_page process_PT (PAG_LOG_INIT_DATA + i)) [0..<pag] m;
           h \<leftarrow> list_add_tail l (Some FreeQ) (heap s);
           Some (- EAGAIN, s\<lparr>mm := m, heap := h\<rparr>) }
       | (None, m) \<Rightarrow> do {
           let parent_PT = get_PT s (current s);
           let m = fold (fork_share_page parent_PT process_PT) [0..<NUM_PAG_KERNEL] m;
           let m = fold (\<lambda>pag. fork_share_page parent_PT process_PT (PAG_LOG_INIT_CODE + pag)) [0..<NUM_PAG_CODE] m;
           m \<leftarrow> mfold (fork_copy_page parent_PT process_PT)
                 [NUM_PAG_KERNEL + NUM_PAG_CODE..<NUM_PAG_KERNEL + NUM_PAG_CODE + NUM_PAG_DATA] m;
           fork_finish ret_from_fork c (s\<lparr>mm := m\<rparr>) } } }"

text \<open>\<open>sys_exit\<close> does not return to its caller.\<close>

definition sys_exit :: "kstate \<Rightarrow> kstate option" where
  "sys_exit s = do {
     let process_PT = get_PT s (current s);
     let s = s\<lparr>mm := fold (\<lambda>i. release_page process_PT (PAG_LOG_INIT_DATA + i)) [0..<NUM_PAG_DATA] (mm s)\<rparr>;
     h \<leftarrow> list_add_tail (Some (TaskN (running s))) (Some FreeQ) (heap s);
     let s = s\<lparr>heap := h\<rparr>;
     let s = upd_task (running s) (\<lambda>ts. ts\<lparr>PID := -1\<rparr>) s;
     sched_next_rr s }"

definition sys_yield :: "kstate \<Rightarrow> (outcome \<times> kstate) option" where
  "sys_yield s = do { s \<leftarrow> force_task_switch s; Some (Switched_out, s) }"

text \<open>The search of \<open>alloc_k\<close> for a page without a frame.\<close>

definition find_free_page :: "page_table \<Rightarrow> nat option" where
  "find_free_page PT =
     find (\<lambda>i. get_frame PT i = 0) [NUM_PAG_KERNEL + NUM_PAG_CODE + NUM_PAG_DATA..<TOTAL_PAGES]"

definition alloc_k :: "kstate \<Rightarrow> DWord \<times> kstate" where
  "alloc_k s =
     (let t = get_PT s (current s) in
      case find_free_page (pagusr_table (mm s) t) of
        Some lpage \<Rightarrow>
          (case alloc_frame (phys_mem (mm s)) of (frame, pm) \<Rightarrow>
             let s = s\<lparr>mm := (mm s)\<lparr>phys_mem := pm\<rparr>\<rparr> in
             if frame = -1 then (- ENOMEM, s)
             else (push_bit 12 (of_nat lpage), s\<lparr>mm := map_in t lpage frame (mm s)\<rparr>))
      | None \<Rightarrow> (- ENOMEM, s))"

definition sys_alloc :: "kstate \<Rightarrow> DWord \<times> kstate" where
  "sys_alloc s = alloc_k s"

definition dealloc_k :: "DWord \<Rightarrow> kstate \<Rightarrow> DWord \<times> kstate" where
  "dealloc_k lpage s =
     (if unat lpage < NUM_PAG_KERNEL + NUM_PAG_CODE + NUM_PAG_DATA \<or> TOTAL_PAGES \<le> unat lpage then (- EACCES, s)
      else let t = get_PT s (current s);
               frame = get_frame (pagusr_table (mm s) t) (unat lpage)
           in if frame = 0 then (- EFAULT, s)
              else let s = s\<lparr>mm := (mm s)\<lparr>phys_mem := free_frame frame (phys_mem (mm s))\<rparr>\<rparr>;
                       s = s\<lparr>mm := unmap_in t (unat lpage) (mm s)\<rparr>
                   in (0, set_cr3 (get_DIR (current s)) s))"

definition sys_dealloc :: "DWord \<Rightarrow> kstate \<Rightarrow> DWord \<times> kstate" where
  "sys_dealloc address s = (let lpage = drop_bit 12 address in dealloc_k lpage s)"

text \<open>A store of a word to a virtual address, through the page table of the running task.\<close>

definition store_user :: "DWord \<Rightarrow> DWord \<Rightarrow> kstate \<Rightarrow> kstate option" where
  "store_user addr val s = do {
     f \<leftarrow> page_frame (get_PT s (current s)) (unat (drop_bit 12 addr)) (mm s);
     Some (s\<lparr>mm := (mm s)\<lparr>frame_mem := (frame_mem (mm s))(f := (frame_mem (mm s) f)(unat addr mod 4096 div 4 := val))\<rparr>\<rparr>) }"

text \<open>What \<open>sys_createthread\<close> writes into the new slot.\<close>

definition thread_slot :: "DWord \<Rightarrow> DWord \<Rightarrow> nat \<Rightarrow> kstate \<Rightarrow> kstate" where
  "thread_slot twrap user_stack c s =
     (let s = write_stack (stack_addr s c (KERNEL_STACK_SIZE - 2)) (user_stack + 4 * 1021) s;
          s = write_stack (stack_addr s c (KERNEL_STACK_SIZE - 5)) twrap s;
          s = upd_task c (\<lambda>ts. ts\<lparr>register_esp := stack_addr s c (KERNEL_STACK_SIZE - 18)\<rparr>) s;
          s = s\<lparr>global_TID := global_TID s + 1\<rparr>;
          s = upd_task c (\<lambda>ts. ts\<lparr>TID := global_TID s\<rparr>) s
      in upd_task c (\<lambda>ts. ts\<lparr>tstate := ST_READY\<rparr>) s)"

definition sys_createthread :: "DWord \<Rightarrow> DWord \<Rightarrow> DWord \<Rightarrow> kstate \<Rightarrow> (DWord \<times> kstate) option" where
  "sys_createthread twrap func param s = do {
     e \<leftarrow> list_empty (Some FreeQ) (heap s);
     if e then Some (- ENOMEM, s)
     else do {
       l \<leftarrow> list_first (Some FreeQ) (heap s);
       h \<leftarrow> list_del l (heap s);
       c \<leftarrow> list_head_to_task_struct l;
       let s = copy_task_union (running s) c (s\<lparr>heap := h\<rparr>);
       let (user_stack, s) = alloc_k s;
       s \<leftarrow> store_user (user_stack + 4 * 1021) 0 s;
       s \<leftarrow> store_user (user_stack + 4 * 1022) func s;
       s \<leftarrow> store_user (user_stack + 4 * 1023) param s;
       let s = thread_slot twrap user_stack c s;
       h \<leftarrow> list_add_tail (Some (TaskN c)) (Some ReadyQ) (heap s);
       Some (0, s\<lparr>heap := h\<rparr>) } }"

definition sys_terminatethread :: "kstate \<Rightarrow> (outcome \<times> kstate) option" where
  "sys_terminatethread s = do {
     let user_stack = kstack s (running s) (KERNEL_STACK_SIZE - 2);
     let lpage = drop_bit 12 user_stack;
     let (isError, s) = dealloc_k lpage s;
     if sint isError < 0 then Some (Returned isError, s)
     else do {
       h \<leftarrow> list_add_tail (Some (TaskN (running s))) (Some FreeQ) (heap s);
       s \<leftarrow> sched_next_rr (s\<lparr>heap := h\<rparr>);
       Some (Switched_out, s) } }"

section \<open>The memory invariant\<close>

definition gf :: "mm_state \<Rightarrow> nat \<Rightarrow> nat \<Rightarrow> DWord" where
  "gf m t p = get_frame (pagusr_table m t) p"

definition mm_ok :: "mm_state \<Rightarrow> bool" where
  "mm_ok m \<longleftrightarrow> (\<forall>t<10. \<forall>p\<in>{256..<1024}. gf m t p \<noteq> 0 \<longrightarrow> unat (gf m t p) \<notin> free_frames (phys_mem m))
     \<and> (\<forall>t<10. \<forall>u<10. \<forall>p\<in>{264..<1024}. \<forall>q\<in>{256..<1024}. gf m t p \<noteq> 0 \<longrightarrow> gf m t p = gf m u q \<longrightarrow> t = u \<and> p = q)"

lemma mm_okD:
  assumes "mm_ok m"
  shows "t < 10 \<Longrightarrow> 256 \<le> p \<Longrightarrow> p < 1024 \<Longrightarrow> gf m t p \<noteq> 0 \<Longrightarrow> unat (gf m t p) \<notin> free_frames (phys_mem m)"
    and "t < 10 \<Longrightarrow> u < 10 \<Longrightarrow> 264 \<le> p \<Longrightarrow> p < 1024 \<Longrightarrow> 256 \<le> q \<Longrightarrow> q < 1024 \<Longrightarrow> gf m t p \<noteq> 0
       \<Longrightarrow> gf m t p = gf m u q \<Longrightarrow> t = u \<and> p = q"
  using assms unfolding mm_ok_def by auto

lemma mm_okI:
  assumes "\<And>t p. t < 10 \<Longrightarrow> 256 \<le> p \<Longrightarrow> p < 1024 \<Longrightarrow> gf m t p \<noteq> 0 \<Longrightarrow> unat (gf m t p) \<notin> free_frames (phys_mem m)"
    and "\<And>t u p q. t < 10 \<Longrightarrow> u < 10 \<Longrightarrow> 264 \<le> p \<Longrightarrow> p < 1024 \<Longrightarrow> 256 \<le> q \<Longrightarrow> q < 1024 \<Longrightarrow> gf m t p \<noteq> 0
       \<Longrightarrow> gf m t p = gf m u q \<Longrightarrow> t = u \<and> p = q"
  shows "mm_ok m"
  unfolding mm_ok_def by (intro conjI allI ballI impI; use assms in \<open>auto\<close>)

lemma gf_simps [simp]:
  "gf (map_in t p f m) u q = (if u = t \<and> q = p then f AND mask 20 else gf m u q)"
  "gf (unmap_in t p m) u q = (if u = t \<and> q = p then 0 else gf m u q)"
  "gf (release_page t p m) u q = (if u = t \<and> q = p then 0 else gf m u q)"
  "gf (m\<lparr>phys_mem := pm\<rparr>) u q = gf m u q" "gf (m\<lparr>frame_mem := fm\<rparr>) u q = gf m u q"
  by (auto simp: gf_def map_in_def unmap_in_def release_page_def get_frame_set get_frame_del)

lemma mm_frames [simp]:
  "phys_mem (map_in t p f m) = phys_mem m" "phys_mem (unmap_in t p m) = phys_mem m"
  "frame_mem (map_in t p f m) = frame_mem m" "frame_mem (unmap_in t p m) = frame_mem m"
  "frame_mem (release_page t p m) = frame_mem m"
  "dir_pages (map_in t p f m) = dir_pages m" "dir_pages (unmap_in t p m) = dir_pages m"
  "dir_pages (release_page t p m) = dir_pages m"
  "phys_mem (release_page t p m) = free_frame (gf m t p) (phys_mem m)"
  by (simp_all add: map_in_def unmap_in_def release_page_def gf_def)

lemma free_frame_frames: "free_frames (free_frame f pm) = free_frames pm \<union> ({unat f} \<inter> (pool - {256}))"
  by (auto simp: free_frame_def free_frames_def pool_def layout_defs)

lemma alloc_frameD:
  assumes "alloc_frame pm = (fr, pm')" "fr \<noteq> -1"
  shows "unat fr \<in> free_frames pm" "fr \<noteq> 0" "fr AND mask 20 = fr" "free_frames pm' = free_frames pm - {unat fr}"
proof -
  have "free_frames pm \<noteq> {}" using assms by (auto simp: alloc_frame_first split: if_splits)
  then obtain f where f: "f \<in> free_frames pm" "fr = of_nat f" "free_frames pm' = free_frames pm - {f}"
    using frames.alloc_some[of pm] assms(1) by auto
  have fp: "f \<in> pool" using f(1) by (auto simp: free_frames_def)
  have u: "unat fr = f" using frame_word[OF fp] f(2) by simp
  show "unat fr \<in> free_frames pm" "free_frames pm' = free_frames pm - {unat fr}" using f u by simp_all
  show "fr \<noteq> 0" using u pool_bounds[OF fp] by auto
  show "fr AND mask 20 = fr" using pool_frame_mask[OF fp] f(2) by simp
qed

lemma alloc_frame_fail: "alloc_frame pm = (-1, pm') \<Longrightarrow> pm' = pm \<and> free_frames pm = {}"
  using frame_word_not_error[of "Min (free_frames pm)"] Min_in[of "free_frames pm"]
  by (auto simp: alloc_frame_first free_frames_def split: if_splits)

text \<open>Each kind of step keeps the invariant.\<close>

lemma mm_ok_fewer:
  assumes "mm_ok m" "\<And>t p. gf m' t p = 0 \<or> gf m' t p = gf m t p" "phys_mem m' = phys_mem m"
  shows "mm_ok m'"
proof (rule mm_okI)
  fix t p assume a: "t < 10" "256 \<le> p" "p < 1024" "gf m' t p \<noteq> 0"
  then show "unat (gf m' t p) \<notin> free_frames (phys_mem m')"
    using mm_okD(1)[OF assms(1) a(1-3)] assms(2)[of t p] assms(3) by auto
next
  fix t u p q assume a: "t < 10" "u < 10" "264 \<le> p" "p < 1024" "256 \<le> q" "q < 1024" "gf m' t p \<noteq> 0" "gf m' t p = gf m' u q"
  then show "t = u \<and> p = q" using mm_okD(2)[OF assms(1) a(1-6)] assms(2)[of t p] assms(2)[of u q] by auto
qed

lemma mm_ok_alloc_page:
  assumes "mm_ok m" "alloc_frame (phys_mem m) = (fr, pm)" "fr \<noteq> -1" "264 \<le> p"
  shows "mm_ok (map_in t p fr (m\<lparr>phys_mem := pm\<rparr>))"
proof -
  note fr = alloc_frameD[OF assms(2,3)]
  have new: "gf m u q \<noteq> fr" if "u < 10" "256 \<le> q" "q < 1024" for u q
    using mm_okD(1)[OF assms(1) that] fr(1,2) by auto
  show ?thesis
  proof (rule mm_okI)
    fix u q assume a: "u < 10" "256 \<le> q" "q < 1024" "gf (map_in t p fr (m\<lparr>phys_mem := pm\<rparr>)) u q \<noteq> 0"
    then show "unat (gf (map_in t p fr (m\<lparr>phys_mem := pm\<rparr>)) u q) \<notin> free_frames (phys_mem (map_in t p fr (m\<lparr>phys_mem := pm\<rparr>)))"
      using mm_okD(1)[OF assms(1) a(1-3)] fr(3,4) by (auto split: if_splits)
  next
    fix u u' q q' assume "u < 10" "u' < 10" "264 \<le> q" "q < 1024" "256 \<le> q'" "q' < 1024"
      "gf (map_in t p fr (m\<lparr>phys_mem := pm\<rparr>)) u q \<noteq> 0"
      "gf (map_in t p fr (m\<lparr>phys_mem := pm\<rparr>)) u q = gf (map_in t p fr (m\<lparr>phys_mem := pm\<rparr>)) u' q'"
    then show "u = u' \<and> q = q'"
      using mm_okD(2)[OF assms(1), of u u' q q'] new[of u q] new[of u' q'] fr(3) by (auto split: if_splits)
  qed
qed

lemma mm_ok_release:
  assumes "mm_ok m" "t < 10" "264 \<le> p" "p < 1024"
  shows "mm_ok (release_page t p m)"
proof (rule mm_okI)
  fix u q assume a: "u < 10" "256 \<le> q" "q < 1024" "gf (release_page t p m) u q \<noteq> 0"
  then have nz: "gf m u q \<noteq> 0" and ne: "u \<noteq> t \<or> q \<noteq> p" and g: "gf (release_page t p m) u q = gf m u q"
    by (auto split: if_splits)
  have "unat (gf m u q) \<noteq> unat (gf m t p)"
    using mm_okD(2)[OF assms(1,2) a(1) assms(3,4) a(2,3)] nz ne by (metis word_unat_eq_iff)
  then show "unat (gf (release_page t p m) u q) \<notin> free_frames (phys_mem (release_page t p m))"
    unfolding g using mm_okD(1)[OF assms(1) a(1-3) nz] by (auto simp: free_frame_frames)
next
  fix u u' q q' assume "u < 10" "u' < 10" "264 \<le> q" "q < 1024" "256 \<le> q'" "q' < 1024"
    "gf (release_page t p m) u q \<noteq> 0" "gf (release_page t p m) u q = gf (release_page t p m) u' q'"
  then show "u = u' \<and> q = q'" using mm_okD(2)[OF assms(1), of u u' q q'] by (auto split: if_splits)
qed

lemma mm_ok_share:
  assumes "mm_ok m" "par < 10" "p < 264"
  shows "mm_ok (fork_share_page par c p m)"
proof -
  have e: "get_frame (pagusr_table m par) p AND mask 20 = gf m par p"
    by (simp add: gf_def get_frame_def pte_pbase_addr_def get_bits_def)
  have g: "gf (fork_share_page par c p m) u q = (if u = c \<and> q = p then gf m par p else gf m u q)" for u q
    unfolding fork_share_page_def using e by simp
  have pm: "phys_mem (fork_share_page par c p m) = phys_mem m" by (simp add: fork_share_page_def)
  show ?thesis
  proof (rule mm_okI)
    fix u q assume "u < 10" "256 \<le> q" "q < 1024" "gf (fork_share_page par c p m) u q \<noteq> 0"
    then show "unat (gf (fork_share_page par c p m) u q) \<notin> free_frames (phys_mem (fork_share_page par c p m))"
      unfolding g pm using mm_okD(1)[OF assms(1)] assms(2) by (auto split: if_splits)
  next
    fix u u' q q' assume a: "u < 10" "u' < 10" "264 \<le> q" "q < 1024" "256 \<le> q'" "q' < 1024"
      "gf (fork_share_page par c p m) u q \<noteq> 0" "gf (fork_share_page par c p m) u q = gf (fork_share_page par c p m) u' q'"
    then have "q \<noteq> p" using assms(3) by simp
    then show "u = u' \<and> q = q'"
      using a mm_okD(2)[OF assms(1), of u u' q q'] mm_okD(2)[OF assms(1), of u par q p] assms(2,3)
      unfolding g by (auto split: if_splits)
  qed
qed

text \<open>The flags of the pages.\<close>

definition pres :: "mm_state \<Rightarrow> nat \<Rightarrow> nat \<Rightarrow> bool" where
  "pres m t p \<longleftrightarrow> pte_present (pagusr_table m t p) = 1"

lemma pres_simps [simp]:
  "pres (map_in t p f m) u q \<longleftrightarrow> (u = t \<and> q = p) \<or> pres m u q"
  "pres (unmap_in t p m) u q \<longleftrightarrow> \<not> (u = t \<and> q = p) \<and> pres m u q"
  "pres (release_page t p m) u q \<longleftrightarrow> \<not> (u = t \<and> q = p) \<and> pres m u q"
  "pres (m\<lparr>phys_mem := pm\<rparr>) u q \<longleftrightarrow> pres m u q" "pres (m\<lparr>frame_mem := fm\<rparr>) u q \<longleftrightarrow> pres m u q"
proof -
  have o: "q \<noteq> p \<Longrightarrow> set_ss_pag T p f q = T q" for T :: page_table by (simp add: set_ss_pag_def)
  show "pres (map_in t p f m) u q \<longleftrightarrow> (u = t \<and> q = p) \<or> pres m u q"
    by (cases "q = p") (auto simp: pres_def map_in_def pte_flags_set o)
  have z: "pte_present 0 = 0" by (simp add: pte_defs)
  then show "pres (unmap_in t p m) u q \<longleftrightarrow> \<not> (u = t \<and> q = p) \<and> pres m u q"
    "pres (release_page t p m) u q \<longleftrightarrow> \<not> (u = t \<and> q = p) \<and> pres m u q"
    by (auto simp: pres_def unmap_in_def release_page_def del_ss_pag_def)
qed (simp_all add: pres_def)

text \<open>The pages a process in user mode can write.\<close>

definition usr :: "mm_state \<Rightarrow> nat \<Rightarrow> nat \<Rightarrow> bool" where
  "usr m t p \<longleftrightarrow> pte_user (pagusr_table m t p) = 1 \<and> pte_rw (pagusr_table m t p) = 1 \<and> pres m t p"

lemma usr_map [simp]: "usr (map_in t p f m) u q \<longleftrightarrow> (u = t \<and> q = p) \<or> usr m u q"
proof -
  have o: "q \<noteq> p \<Longrightarrow> set_ss_pag T p f q = T q" for T :: page_table by (simp add: set_ss_pag_def)
  show ?thesis by (cases "q = p") (auto simp: usr_def pres_def map_in_def pte_flags_set o)
qed

lemma usr_phys_mem [simp]: "usr (m\<lparr>phys_mem := pm\<rparr>) u q \<longleftrightarrow> usr m u q"
  by (simp add: usr_def)


lemma page_frame_gf: "page_frame t p m = (if p < 1024 \<and> pres m t p then Some (unat (gf m t p)) else None)"
  by (simp add: page_frame_def pres_def gf_def layout_defs)

subsection \<open>The loops\<close>

lemma nth_after: "a < q \<Longrightarrow> (x # xs) ! (q - a) = xs ! (q - Suc a)"
  by (simp add: nth_Cons' Suc_diff_Suc flip: diff_Suc_eq_diff_pred)

lemma fork_data_pages_frames:
  "fork_data_pages t n pag m = (r, m') \<Longrightarrow>
    \<exists>frs. length frs = min n (card (free_frames (phys_mem m))) \<and> distinct frs
     \<and> set frs \<subseteq> free_frames (phys_mem m) \<and> free_frames (phys_mem m') = free_frames (phys_mem m) - set frs
     \<and> (\<forall>u q. gf m' u q = (if u = t \<and> 264 + pag \<le> q \<and> q < 264 + pag + length frs
                            then of_nat (frs ! (q - 264 - pag)) else gf m u q))
     \<and> (\<forall>u q. pres m' u q \<longleftrightarrow> (u = t \<and> 264 + pag \<le> q \<and> q < 264 + pag + length frs) \<or> pres m u q)
     \<and> (\<forall>u q. usr m' u q \<longleftrightarrow> (u = t \<and> 264 + pag \<le> q \<and> q < 264 + pag + length frs) \<or> usr m u q)
     \<and> r = (if length frs = n then None else Some (pag + length frs))
     \<and> frame_mem m' = frame_mem m \<and> dir_pages m' = dir_pages m \<and> (mm_ok m \<longrightarrow> mm_ok m')"
proof (induction n arbitrary: pag m)
  case 0
  then show ?case by (intro exI[of _ "[]"]) auto
next
  case (Suc n)
  obtain fr pm where al: "alloc_frame (phys_mem m) = (fr, pm)" by fastforce
  show ?case
  proof (cases "fr = -1")
    case True
    then have "pm = phys_mem m" "free_frames (phys_mem m) = {}" using alloc_frame_fail al by auto
    then show ?thesis using Suc.prems al True by (intro exI[of _ "[]"]) auto
  next
    case False
    note fr = alloc_frameD[OF al False]
    let ?m1 = "map_in t (264 + pag) fr (m\<lparr>phys_mem := pm\<rparr>)"
    have "fork_data_pages t n (pag + 1) ?m1 = (r, m')" using Suc.prems al False by (simp add: layout_defs)
    from Suc.IH[OF this] obtain frs where IH: "length frs = min n (card (free_frames pm))" "distinct frs"
      "set frs \<subseteq> free_frames pm" "free_frames (phys_mem m') = free_frames pm - set frs"
      "\<forall>u q. gf m' u q = (if u = t \<and> 264 + (pag + 1) \<le> q \<and> q < 264 + (pag + 1) + length frs
                            then of_nat (frs ! (q - 264 - (pag + 1))) else gf ?m1 u q)"
      "\<forall>u q. pres m' u q \<longleftrightarrow> (u = t \<and> 264 + (pag + 1) \<le> q \<and> q < 264 + (pag + 1) + length frs) \<or> pres ?m1 u q"
      "\<forall>u q. usr m' u q \<longleftrightarrow> (u = t \<and> 264 + (pag + 1) \<le> q \<and> q < 264 + (pag + 1) + length frs) \<or> usr ?m1 u q"
      "r = (if length frs = n then None else Some (pag + 1 + length frs))"
      "frame_mem m' = frame_mem m" "dir_pages m' = dir_pages m" "mm_ok ?m1 \<longrightarrow> mm_ok m'" by auto
    have c: "card (free_frames (phys_mem m)) = Suc (card (free_frames pm))"
      unfolding fr(4) by (rule card_Suc_Diff1[OF _ fr(1), symmetric]) simp
    have "gf m' u q = (if u = t \<and> 264 + pag \<le> q \<and> q < 264 + pag + length (unat fr # frs)
                            then of_nat ((unat fr # frs) ! (q - 264 - pag)) else gf m u q)" for u q
      using IH(5) fr(3) nth_after[of "264 + pag" q "unat fr" frs] by (cases "q = 264 + pag") auto
    moreover have "pres m' u q \<longleftrightarrow> (u = t \<and> 264 + pag \<le> q \<and> q < 264 + pag + length (unat fr # frs)) \<or> pres m u q" for u q
      using IH(6) by auto
    moreover have "usr m' u q \<longleftrightarrow> (u = t \<and> 264 + pag \<le> q \<and> q < 264 + pag + length (unat fr # frs)) \<or> usr m u q" for u q
      using IH(7) by auto
    moreover have "mm_ok m \<longrightarrow> mm_ok m'" using mm_ok_alloc_page[OF _ al False, of "264 + pag" t] IH(11) by simp
    moreover have "unat fr \<notin> set frs" "set (unat fr # frs) \<subseteq> free_frames (phys_mem m)"
      "free_frames (phys_mem m') = free_frames (phys_mem m) - set (unat fr # frs)"
      using IH(3,4) fr(1,4) by auto
    ultimately show ?thesis using IH c by (intro exI[of _ "unat fr # frs"]) simp
  qed
qed

lemma release_loop:
  assumes "t < 10" "264 + n \<le> 1024"
  shows "let m' = fold (\<lambda>i. release_page t (264 + i)) [0..<n] m in
     (\<forall>u q. gf m' u q = (if u = t \<and> 264 \<le> q \<and> q < 264 + n then 0 else gf m u q))
     \<and> (\<forall>u q. pres m' u q \<longleftrightarrow> \<not> (u = t \<and> 264 \<le> q \<and> q < 264 + n) \<and> pres m u q)
     \<and> frame_mem m' = frame_mem m \<and> dir_pages m' = dir_pages m \<and> (mm_ok m \<longrightarrow> mm_ok m')
     \<and> free_frames (phys_mem m') =
         free_frames (phys_mem m) \<union> ((\<lambda>p. unat (gf m t p)) ` {264..<264 + n} \<inter> (pool - {256}))"
  using assms(2)
proof (induction n)
  case 0
  then show ?case by auto
next
  case (Suc n)
  define m1 where "m1 = fold (\<lambda>i. release_page t (264 + i)) [0..<n] m"
  have IH: "\<forall>u q. gf m1 u q = (if u = t \<and> 264 \<le> q \<and> q < 264 + n then 0 else gf m u q)"
     "\<forall>u q. pres m1 u q \<longleftrightarrow> \<not> (u = t \<and> 264 \<le> q \<and> q < 264 + n) \<and> pres m u q"
     "frame_mem m1 = frame_mem m" "dir_pages m1 = dir_pages m" "mm_ok m \<longrightarrow> mm_ok m1"
     "free_frames (phys_mem m1) = free_frames (phys_mem m) \<union> ((\<lambda>p. unat (gf m t p)) ` {264..<264 + n} \<inter> (pool - {256}))"
    using Suc.IH Suc.prems unfolding m1_def Let_def by simp_all
  let ?m' = "release_page t (264 + n) m1"
  have step: "fold (\<lambda>i. release_page t (264 + i)) [0..<Suc n] m = ?m'" by (simp add: m1_def)
  have "gf m1 t (264 + n) = gf m t (264 + n)" using IH(1) by simp
  moreover have "{264..<264 + Suc n} = insert (264 + n) {264..<264 + n}" by auto
  ultimately have "free_frames (phys_mem ?m') =
      free_frames (phys_mem m) \<union> ((\<lambda>p. unat (gf m t p)) ` {264..<264 + Suc n} \<inter> (pool - {256}))"
    by (auto simp: free_frame_frames IH(6))
  moreover have "mm_ok m \<longrightarrow> mm_ok ?m'" using IH(5) mm_ok_release[of m1 t "264 + n"] assms(1) Suc.prems by simp
  moreover have "\<forall>u q. gf ?m' u q = (if u = t \<and> 264 \<le> q \<and> q < 264 + Suc n then 0 else gf m u q)"
    "\<forall>u q. pres ?m' u q \<longleftrightarrow> \<not> (u = t \<and> 264 \<le> q \<and> q < 264 + Suc n) \<and> pres m u q"
    using IH(1,2) by auto
  ultimately show ?case unfolding Let_def step by (simp add: IH(3,4))
qed

lemma gf_mask: "get_frame T p AND mask 20 = get_frame T p"
  by (simp add: get_frame_def pte_pbase_addr_def get_bits_def)

lemma share_loop:
  assumes "par \<noteq> c"
  shows "let m' = fold (\<lambda>i. fork_share_page par c (b + i)) [0..<n] m in
     (\<forall>u q. gf m' u q = (if u = c \<and> b \<le> q \<and> q < b + n then gf m par q else gf m u q))
     \<and> (\<forall>u q. pres m' u q \<longleftrightarrow> (u = c \<and> b \<le> q \<and> q < b + n) \<or> pres m u q)
     \<and> (\<forall>u q. usr m' u q \<longleftrightarrow> (u = c \<and> b \<le> q \<and> q < b + n) \<or> usr m u q)
     \<and> phys_mem m' = phys_mem m \<and> frame_mem m' = frame_mem m \<and> dir_pages m' = dir_pages m
     \<and> (mm_ok m \<longrightarrow> par < 10 \<longrightarrow> b + n \<le> 264 \<longrightarrow> mm_ok m')"
proof (induction n)
  case 0
  then show ?case by auto
next
  case (Suc n)
  define m1 where "m1 = fold (\<lambda>i. fork_share_page par c (b + i)) [0..<n] m"
  note IH = Suc.IH[folded m1_def, unfolded Let_def]
  have step: "fold (\<lambda>i. fork_share_page par c (b + i)) [0..<Suc n] m = map_in c (b + n) (gf m1 par (b + n)) m1"
    by (simp add: m1_def fork_share_page_def gf_def)
  have g: "gf m1 par q = gf m par q" for q using IH assms by simp
  have k: "gf m par q AND mask 20 = gf m par q" for q by (simp add: gf_def gf_mask)
  have ok: "mm_ok m \<longrightarrow> par < 10 \<longrightarrow> b + Suc n \<le> 264 \<longrightarrow> mm_ok (map_in c (b + n) (gf m1 par (b + n)) m1)"
    using mm_ok_share[of m1 par "b + n" c] IH by (simp add: fork_share_page_def gf_def)
  show ?case unfolding Let_def step g using IH ok[unfolded g] k by auto
qed

text \<open>One page copied through the temporary mapping 20 pages above it.\<close>

lemma fork_copy_page_run:
  assumes "par \<noteq> c" "264 \<le> p" "p < 284" "pres m par p"
  shows "\<exists>m'. fork_copy_page par c p m = Some m'
     \<and> frame_mem m' = (frame_mem m)(unat (gf m c p) := frame_mem m (unat (gf m par p)))
     \<and> (\<forall>u q. gf m' u q = (if u = par \<and> q = p + 20 then 0 else gf m u q))
     \<and> (\<forall>u q. pres m' u q \<longleftrightarrow> \<not> (u = par \<and> q = p + 20) \<and> pres m u q)
     \<and> (\<forall>q. pagusr_table m' c q = pagusr_table m c q) \<and> phys_mem m' = phys_mem m \<and> dir_pages m' = dir_pages m"
proof -
  let ?src = "unat (gf m par p)" and ?dst = "unat (gf m c p)"
  let ?m2 = "map_in par (p + 20) (get_frame (pagusr_table m c) p) m"
  let ?m' = "unmap_in par (p + 20) (?m2\<lparr>frame_mem := (frame_mem m)(?dst := frame_mem m ?src)\<rparr>)"
  have "get_frame (pagusr_table m c) p AND mask 20 = gf m c p" by (simp add: gf_mask) (simp add: gf_def)
  then have "page_frame par p ?m2 = Some ?src" "page_frame par (p + 20) ?m2 = Some ?dst"
    using assms by (simp_all add: page_frame_gf)
  then have "fork_copy_page par c p m = Some ?m'"
    by (simp add: fork_copy_page_def copy_page_def layout_defs Let_def)
  moreover have "pagusr_table ?m' c q = pagusr_table m c q" for q
    using assms(1) by (simp add: unmap_in_def map_in_def)
  ultimately show ?thesis by (intro exI[of _ ?m']) auto
qed

text \<open>The frames of the child's data pages are no frames of the parent's, nor of one another.\<close>

lemma child_frames_apart:
  assumes "mm_ok m" "par \<noteq> c" "par < 10" "c < 10" "gf m c q \<noteq> 0" "264 \<le> q" "q < 284" "264 \<le> q'" "q' < 284"
  shows "unat (gf m c q) \<noteq> unat (gf m par q')" "q \<noteq> q' \<Longrightarrow> unat (gf m c q) \<noteq> unat (gf m c q')"
  using mm_okD(2)[OF assms(1,4,3), of q q'] mm_okD(2)[OF assms(1,4,4), of q q'] assms(2,5-)
  by (auto simp: word_unat_eq_iff)

lemma copy_loop:
  assumes "mm_ok m" "par \<noteq> c" "par < 10" "c < 10"
    and "\<And>q. 264 \<le> q \<Longrightarrow> q < 284 \<Longrightarrow> pres m par q \<and> gf m c q \<noteq> 0"
    and "k \<le> 20"
  shows "\<exists>m'. mfold (fork_copy_page par c) [264..<264 + k] m = Some m'
     \<and> (\<forall>u q. gf m' u q = (if u = par \<and> 284 \<le> q \<and> q < 284 + k then 0 else gf m u q))
     \<and> (\<forall>u q. pres m' u q \<longleftrightarrow> \<not> (u = par \<and> 284 \<le> q \<and> q < 284 + k) \<and> pres m u q)
     \<and> (\<forall>q. 264 \<le> q \<longrightarrow> q < 264 + k \<longrightarrow> frame_mem m' (unat (gf m c q)) = frame_mem m (unat (gf m par q)))
     \<and> (\<forall>f. f \<notin> (\<lambda>q. unat (gf m c q)) ` {264..<264 + k} \<longrightarrow> frame_mem m' f = frame_mem m f)
     \<and> (\<forall>q. pagusr_table m' c q = pagusr_table m c q)
     \<and> phys_mem m' = phys_mem m \<and> dir_pages m' = dir_pages m"
  using assms(6)
proof (induction k)
  case 0
  then show ?case by auto
next
  case (Suc k)
  let ?p = "264 + k"
  obtain m1 where IH: "mfold (fork_copy_page par c) [264..<264 + k] m = Some m1"
     "\<And>u q. gf m1 u q = (if u = par \<and> 284 \<le> q \<and> q < 284 + k then 0 else gf m u q)"
     "\<And>u q. pres m1 u q \<longleftrightarrow> \<not> (u = par \<and> 284 \<le> q \<and> q < 284 + k) \<and> pres m u q"
     "\<And>q. 264 \<le> q \<Longrightarrow> q < 264 + k \<Longrightarrow> frame_mem m1 (unat (gf m c q)) = frame_mem m (unat (gf m par q))"
     "\<And>f. f \<notin> (\<lambda>q. unat (gf m c q)) ` {264..<264 + k} \<Longrightarrow> frame_mem m1 f = frame_mem m f"
     "\<And>q. pagusr_table m1 c q = pagusr_table m c q" "phys_mem m1 = phys_mem m" "dir_pages m1 = dir_pages m"
    using Suc.IH Suc.prems by auto
  have k: "264 \<le> ?p" "?p < 284" using Suc.prems by simp_all
  have g1: "gf m1 c ?p = gf m c ?p" "gf m1 par ?p = gf m par ?p" "pres m1 par ?p" using assms(5)[OF k] k by (simp_all add: IH(2,3))
  obtain m' where m': "fork_copy_page par c ?p m1 = Some m'"
     "frame_mem m' = (frame_mem m1)(unat (gf m c ?p) := frame_mem m1 (unat (gf m par ?p)))"
     "\<forall>u q. gf m' u q = (if u = par \<and> q = ?p + 20 then 0 else gf m1 u q)"
     "\<forall>u q. pres m' u q \<longleftrightarrow> \<not> (u = par \<and> q = ?p + 20) \<and> pres m1 u q"
     "\<forall>q. pagusr_table m' c q = pagusr_table m1 c q" "phys_mem m' = phys_mem m1" "dir_pages m' = dir_pages m1"
    using fork_copy_page_run[OF assms(2) k g1(3)] unfolding g1(1,2) by blast
  have run: "mfold (fork_copy_page par c) [264..<264 + Suc k] m = Some m'"
    using IH(1) m'(1) unfolding add_Suc_right upt_Suc by (simp add: mfold_append)
  have apart: "unat (gf m c q) \<noteq> unat (gf m par q')" "q \<noteq> q' \<Longrightarrow> unat (gf m c q) \<noteq> unat (gf m c q')"
    if "264 \<le> q" "q < 284" "264 \<le> q'" "q' < 284" for q q'
    using child_frames_apart[OF assms(1-4) conjunct2[OF assms(5)[OF that(1,2)]] that] by blast+
  have "unat (gf m par ?p) \<notin> (\<lambda>q. unat (gf m c q)) ` {264..<264 + k}" using apart(1) k Suc.prems by fastforce
  then have src: "frame_mem m1 (unat (gf m par ?p)) = frame_mem m (unat (gf m par ?p))" by (rule IH(5))
  have "frame_mem m' (unat (gf m c q)) = frame_mem m (unat (gf m par q))" if q: "264 \<le> q" "q < 264 + Suc k" for q
    using IH(4)[of q] apart(2)[of q ?p] src q k Suc.prems by (cases "q = ?p") (simp_all add: m'(2))
  moreover have "frame_mem m' f = frame_mem m f" if "f \<notin> (\<lambda>q. unat (gf m c q)) ` {264..<264 + Suc k}" for f
  proof -
    have "f \<noteq> unat (gf m c ?p)" "f \<notin> (\<lambda>q. unat (gf m c q)) ` {264..<264 + k}" using that by (auto simp: image_iff)
    then show ?thesis using IH(5) by (simp add: m'(2))
  qed
  moreover have "gf m' u q = (if u = par \<and> 284 \<le> q \<and> q < 284 + Suc k then 0 else gf m u q)"
    "pres m' u q \<longleftrightarrow> \<not> (u = par \<and> 284 \<le> q \<and> q < 284 + Suc k) \<and> pres m u q" for u q
    using IH(2,3)[of u q] m'(3,4) by auto
  ultimately show ?case using run IH(6-8) m'(5-7) by simp
qed

subsection \<open>What fork does to memory\<close>

text \<open>The memory \<open>m'\<close> after the process with page table \<open>par\<close> made one with table \<open>c\<close> on the frames \<open>frs\<close>.\<close>

definition forked :: "nat \<Rightarrow> nat \<Rightarrow> nat list \<Rightarrow> mm_state \<Rightarrow> mm_state \<Rightarrow> bool" where
  "forked par c frs m m' \<longleftrightarrow> length frs = 20 \<and> distinct frs \<and> set frs \<subseteq> free_frames (phys_mem m)
     \<and> free_frames (phys_mem m') = free_frames (phys_mem m) - set frs
     \<and> (\<forall>u q. gf m' u q = (if u = c \<and> q < 264 then gf m par q
           else if u = c \<and> q < 284 then of_nat (frs ! (q - 264))
           else if u = par \<and> 284 \<le> q \<and> q < 304 then 0 else gf m u q))
     \<and> (\<forall>q<284. usr m' c q)
     \<and> (\<forall>j<20. frame_mem m' (frs ! j) = frame_mem m (unat (gf m par (264 + j))))
     \<and> (\<forall>f. f \<notin> set frs \<longrightarrow> frame_mem m' f = frame_mem m f)"

lemma forkedD:
  assumes "forked par c frs m m'"
  shows "length frs = 20" "distinct frs" "set frs \<subseteq> free_frames (phys_mem m)"
    "free_frames (phys_mem m') = free_frames (phys_mem m) - set frs"
    "gf m' u q = (if u = c \<and> q < 264 then gf m par q
           else if u = c \<and> q < 284 then of_nat (frs ! (q - 264))
           else if u = par \<and> 284 \<le> q \<and> q < 304 then 0 else gf m u q)"
    "q < 284 \<Longrightarrow> usr m' c q" "j < 20 \<Longrightarrow> frame_mem m' (frs ! j) = frame_mem m (unat (gf m par (264 + j)))"
    "f \<notin> set frs \<Longrightarrow> frame_mem m' f = frame_mem m f"
  using assms unfolding forked_def by blast+

text \<open>Free frames as entries of a page table.\<close>

lemma free_frame_word:
  assumes "set frs \<subseteq> free_frames pm" "j < length frs"
  shows "unat (of_nat (frs ! j) :: DWord) = frs ! j" "(of_nat (frs ! j) :: DWord) \<noteq> 0"
proof -
  have "frs ! j \<in> pool" using assms nth_mem by (fastforce simp: free_frames_def)
  then show "unat (of_nat (frs ! j) :: DWord) = frs ! j" "(of_nat (frs ! j) :: DWord) \<noteq> 0"
    using frame_word pool_bounds[of "frs ! j"] by (metis, metis unat_0 not_numeral_le_zero)
qed

lemma frames_of_pages:
  assumes "\<And>j. j < length frs \<Longrightarrow> gf m c (264 + j) = of_nat (frs ! j)" "set frs \<subseteq> free_frames pm"
  shows "(\<lambda>q. unat (gf m c q)) ` {264..<264 + length frs} = set frs"
proof -
  have "{264..<264 + length frs} = (\<lambda>j. 264 + j) ` {0..<length frs}" by (simp add: image_add_atLeastLessThan add.commute)
  then have "(\<lambda>q. unat (gf m c q)) ` {264..<264 + length frs} = (\<lambda>j. unat (gf m c (264 + j))) ` {0..<length frs}"
    by (simp only: image_image)
  also have "\<dots> = (\<lambda>j. frs ! j) ` {0..<length frs}"
    by (rule image_cong[OF refl]) (simp add: assms(1) free_frame_word(1)[OF assms(2)])
  also have "\<dots> = set frs" by (metis list.set_map map_nth set_upt)
  finally show ?thesis .
qed

text \<open>The two loops that share the kernel and the code.\<close>

lemma share_loops:
  assumes "par \<noteq> c" "par < 10"
  defines "share \<equiv> \<lambda>m. fold (\<lambda>i. fork_share_page par c (256 + i)) [0..<8] (fold (fork_share_page par c) [0..<256] m)"
  shows "gf (share m) u q = (if u = c \<and> q < 264 then gf m par q else gf m u q)"
    "pres (share m) u q \<longleftrightarrow> (u = c \<and> q < 264) \<or> pres m u q" "usr (share m) u q \<longleftrightarrow> (u = c \<and> q < 264) \<or> usr m u q"
    "phys_mem (share m) = phys_mem m" "frame_mem (share m) = frame_mem m" "dir_pages (share m) = dir_pages m"
    "mm_ok m \<Longrightarrow> mm_ok (share m)"
proof -
  define m2 where "m2 = fold (fork_share_page par c) [0..<256] m"
  note sh1 = share_loop[OF assms(1), of 0 256 m, unfolded Let_def add_0, folded m2_def]
  have s: "share m = fold (\<lambda>i. fork_share_page par c (256 + i)) [0..<8] m2" by (simp only: share_def m2_def)
  note sh2 = share_loop[OF assms(1), of 256 8 m2, unfolded Let_def, folded s]
  show "gf (share m) u q = (if u = c \<and> q < 264 then gf m par q else gf m u q)"
    "pres (share m) u q \<longleftrightarrow> (u = c \<and> q < 264) \<or> pres m u q" "usr (share m) u q \<longleftrightarrow> (u = c \<and> q < 264) \<or> usr m u q"
    "phys_mem (share m) = phys_mem m" "frame_mem (share m) = frame_mem m" "dir_pages (share m) = dir_pages m"
    using sh1 sh2 assms(1) by auto
  show "mm_ok (share m)" if "mm_ok m" using sh1 sh2 that assms(2) by simp
qed

lemma fork_memory:
  assumes "mm_ok m" "par \<noteq> c" "par < 10" "c < 10" "20 \<le> card (free_frames (phys_mem m))"
    and "\<And>q. 264 \<le> q \<Longrightarrow> q < 284 \<Longrightarrow> pres m par q"
  shows "\<exists>m1 m4 frs. fork_data_pages c 20 0 m = (None, m1)
     \<and> mfold (fork_copy_page par c) [264..<284] (fold (\<lambda>i. fork_share_page par c (256 + i)) [0..<8]
           (fold (fork_share_page par c) [0..<256] m1)) = Some m4
     \<and> forked par c frs m m4 \<and> dir_pages m4 = dir_pages m \<and> mm_ok m4"
proof -
  obtain r m1 where run: "fork_data_pages c 20 0 m = (r, m1)" by fastforce
  from fork_data_pages_frames[OF run] assms(5) obtain frs where frs: "length frs = 20" "distinct frs"
     "set frs \<subseteq> free_frames (phys_mem m)" "free_frames (phys_mem m1) = free_frames (phys_mem m) - set frs"
     "\<And>u q. gf m1 u q = (if u = c \<and> 264 \<le> q \<and> q < 284 then of_nat (frs ! (q - 264)) else gf m u q)"
     "\<And>u q. pres m1 u q \<longleftrightarrow> (u = c \<and> 264 \<le> q \<and> q < 284) \<or> pres m u q" "r = None"
     "frame_mem m1 = frame_mem m" "dir_pages m1 = dir_pages m" "mm_ok m1"
     "\<And>u q. usr m1 u q \<longleftrightarrow> (u = c \<and> 264 \<le> q \<and> q < 284) \<or> usr m u q"
    using assms(1) by auto
  note fw = free_frame_word[OF frs(3), unfolded frs(1)]
  define m3 where "m3 = fold (\<lambda>i. fork_share_page par c (256 + i)) [0..<8] (fold (fork_share_page par c) [0..<256] m1)"
  note sh = share_loops[OF assms(2,3), of m1, folded m3_def]
  have "pres m3 par q \<and> gf m3 c q \<noteq> 0" if "264 \<le> q" "q < 284" for q
    using that assms(6) by (simp add: sh(1,2) frs(5,6) fw(2))
  from copy_loop[OF sh(7)[OF frs(10)] assms(2-4) this, of 20] obtain m4 where cp:
     "mfold (fork_copy_page par c) [264..<284] m3 = Some m4"
     "\<And>u q. gf m4 u q = (if u = par \<and> 284 \<le> q \<and> q < 304 then 0 else gf m3 u q)"
     "\<And>q. 264 \<le> q \<Longrightarrow> q < 284 \<Longrightarrow> frame_mem m4 (unat (gf m3 c q)) = frame_mem m3 (unat (gf m3 par q))"
     "\<And>f. f \<notin> (\<lambda>q. unat (gf m3 c q)) ` {264..<284} \<Longrightarrow> frame_mem m4 f = frame_mem m3 f"
     "\<And>q. pagusr_table m4 c q = pagusr_table m3 c q" "phys_mem m4 = phys_mem m3" "dir_pages m4 = dir_pages m3"
    by auto
  have fs: "(\<lambda>q. unat (gf m3 c q)) ` {264..<284} = set frs"
    using frames_of_pages[OF _ frs(3), of m3 c] by (simp add: sh(1) frs(1,5))
  have "frame_mem m4 (frs ! j) = frame_mem m (unat (gf m par (264 + j)))" if "j < 20" for j
    using cp(3)[of "264 + j"] that fw(1)[OF that] assms(2) by (simp add: sh(1,5) frs(5,8))
  moreover have "usr m4 c q" if "q < 284" for q
  proof -
    have "usr m3 c q" using that by (auto simp: sh(3) frs(11))
    then show ?thesis by (simp add: usr_def pres_def cp(5))
  qed
  moreover have "gf m4 u q = (if u = c \<and> q < 264 then gf m par q else if u = c \<and> q < 284 then of_nat (frs ! (q - 264))
           else if u = par \<and> 284 \<le> q \<and> q < 304 then 0 else gf m u q)" for u q
    unfolding cp(2) sh(1) frs(5) using assms(2) by simp
  moreover have "frame_mem m4 f = frame_mem m f" if "f \<notin> set frs" for f
    using cp(4)[unfolded fs, OF that] by (simp add: sh(5) frs(8))
  ultimately have "forked par c frs m m4" using frs(1-4) unfolding forked_def cp(6) sh(4) by blast
  moreover have "mm_ok m4" by (rule mm_ok_fewer[OF sh(7)[OF frs(10)]]) (simp_all add: cp(2,6))
  moreover have "dir_pages m4 = dir_pages m" by (simp add: cp(7) sh(6) frs(9))
  ultimately show ?thesis using run frs(7) cp(1) unfolding m3_def by blast
qed

section \<open>The system calls on a consistent kernel\<close>

text \<open>Each directory points to its own page table; the memory invariant.\<close>

definition mem_ok :: "kstate \<Rightarrow> bool" where
  "mem_ok s \<longleftrightarrow> mm_ok (mm s) \<and> (\<forall>t<10. PT_of_dir (mm s) t = t)"

lemma PT_of_dir_cong: "dir_pages m' = dir_pages m \<Longrightarrow> PT_of_dir m' t = PT_of_dir m t"
  by (simp add: PT_of_dir_def)

lemma fork_child_stack_run:
  assumes "c < 10" "cpu_ebp s = stack_addr s (running s) (Suc k)" "Suc k < 1024"
  shows "fork_child_stack rff c s = s\<lparr>tasks := (tasks s)(c := (tasks s c)\<lparr>register_esp := stack_addr s c k\<rparr>),
     kstack := (kstack s)(c := (kstack s c)(Suc k := rff, k := kstack s c (Suc k)))\<rparr>"
proof -
  have e: "stack_addr s (running s) (Suc k) - stack_addr s (running s) 0 + stack_addr s c 0 = stack_addr s c (Suc k)"
    "stack_addr s c (Suc k) - 4 = stack_addr s c k"
    by (simp_all add: stack_addr_def algebra_simps)
  have r: "read_stack s' (stack_addr s c (Suc k)) = kstack s' c (Suc k)" if "task_base s' = task_base s" for s'
    using read_stack_addr[of c "Suc k" s s'] assms(1,3) that by simp
  show ?thesis
    unfolding fork_child_stack_def assms(2) e Let_def
    using assms(1,3) by (simp add: upd_task_def e r write_stack_addr)
qed

text \<open>A slot that is in no queue may be rewritten and then becomes ready.\<close>

lemma fork_finish_run:
  assumes "queues (heap s) (qmap w)" "\<not> enqueued w c" "c < 10" "c \<noteq> running s"
    and "cpu_ebp s = stack_addr s (running s) (Suc k)" "Suc k < 1024"
  shows "\<exists>s'. fork_finish rff c s = Some (global_PID s + 1, s')
     \<and> queues (heap s') (qmap (w\<lparr>v_ready := v_ready w @ [c]\<rparr>))
     \<and> running s' = running s \<and> idle_task s' = idle_task s \<and> list_sem s' = list_sem s \<and> mm s' = mm s
     \<and> global_PID s' = global_PID s + 1 \<and> global_TID s' = global_TID s \<and> remaining_quantum s' = remaining_quantum s
     \<and> kbd s' = kbd s \<and> scr s' = scr s \<and> task_base s' = task_base s
     \<and> (\<forall>i. i \<noteq> c \<longrightarrow> tasks s' i = tasks s i \<and> kstack s' i = kstack s i)
     \<and> PID (tasks s' c) = global_PID s + 1 \<and> TID (tasks s' c) = TID (tasks s c) \<and> tstate (tasks s' c) = ST_READY
     \<and> destroyed (tasks s' c) = destroyed (tasks s c) \<and> total_quantum (tasks s' c) = total_quantum (tasks s c)
     \<and> dir_pages_baseAddr (tasks s' c) = dir_pages_baseAddr (tasks s c)
     \<and> register_esp (tasks s' c) = stack_addr s c k
     \<and> kstack s' c = (kstack s c)(Suc k := rff, k := kstack s c (Suc k))
     \<and> user_ticks (p_stats (tasks s' c)) = 0 \<and> system_ticks (p_stats (tasks s' c)) = 0
     \<and> ready_ticks (p_stats (tasks s' c)) = 0 \<and> cr3 s' = get_DIR (current s)"
proof -
  define s1 where "s1 = upd_task c (\<lambda>ts. ts\<lparr>tstate := ST_READY\<rparr>) (upd_task c (\<lambda>ts. ts\<lparr>PID := global_PID s + 1\<rparr>)
     (set_cr3 (get_DIR (current s)) s\<lparr>global_PID := global_PID s + 1\<rparr>))"
  have s1: "cpu_ebp s1 = stack_addr s1 (running s1) (Suc k)" "stack_addr s1 = stack_addr s"
    "kstack s1 = kstack s" "heap s1 = heap s"
    using assms(5) by (simp_all add: s1_def upd_task_def set_cr3_def)
  define s2 where "s2 = fork_child_stack rff c s1"
  have s2: "s2 = s1\<lparr>tasks := (tasks s1)(c := (tasks s1 c)\<lparr>register_esp := stack_addr s c k\<rparr>),
     kstack := (kstack s)(c := (kstack s c)(Suc k := rff, k := kstack s c (Suc k)))\<rparr>"
    unfolding s2_def fork_child_stack_run[OF assms(3) s1(1) assms(6)] s1(2,3) ..
  obtain st n where st: "init_stats c s2 = Some (upd_task c (\<lambda>ts. ts\<lparr>p_stats := st\<rparr>) (s2\<lparr>tsc_reads := n\<rparr>))"
    "user_ticks st = 0" "system_ticks st = 0" "ready_ticks st = 0"
    using init_stats_run[of c s2] by blast
  define s3 where "s3 = upd_task c (\<lambda>ts. ts\<lparr>tstate := ST_READY\<rparr>) (upd_task c (\<lambda>ts. ts\<lparr>p_stats := st\<rparr>) (s2\<lparr>tsc_reads := n\<rparr>))"
  have "heap s3 = heap s" by (simp add: s3_def s2 s1(4) upd_task_def)
  then obtain h where h: "list_add_tail (Some (TaskN c)) (Some ReadyQ) (heap s3) = Some h"
     "queues h (qmap (w\<lparr>v_ready := v_ready w @ [c]\<rparr>))"
    using add_tail_view[OF assms(1), of ReadyQ "v_ready w" c] assms(2) by (auto simp: qmap_upd simp flip: map_append)
  have "fork_finish rff c s = Some (PID (tasks s3 c), s3\<lparr>heap := h\<rparr>)"
    unfolding fork_finish_def Let_def using st(1) h(1)
    by (simp add: s3_def s2_def s1_def set_cr3_def)
  moreover have "tasks s3 c = (tasks s c)\<lparr>PID := global_PID s + 1, tstate := ST_READY, register_esp := stack_addr s c k, p_stats := st\<rparr>"
    by (simp add: s3_def s2 s1_def upd_task_def set_cr3_def)
  moreover have "tasks s3 i = tasks s i \<and> kstack s3 i = kstack s i" if "i \<noteq> c" for i
    using that by (simp add: s3_def s2 s1_def upd_task_def set_cr3_def)
  moreover have "kstack s3 c = (kstack s c)(Suc k := rff, k := kstack s c (Suc k))"
    by (simp add: s3_def s2 upd_task_def)
  moreover have "running s3 = running s" "idle_task s3 = idle_task s" "list_sem s3 = list_sem s" "mm s3 = mm s"
     "global_PID s3 = global_PID s + 1" "global_TID s3 = global_TID s" "remaining_quantum s3 = remaining_quantum s"
     "kbd s3 = kbd s" "scr s3 = scr s" "task_base s3 = task_base s" "cr3 s3 = get_DIR (current s)"
    by (simp_all add: s3_def s2 s1_def upd_task_def set_cr3_def)
  ultimately show ?thesis using h(2) st(2-4) by (intro exI[of _ "s3\<lparr>heap := h\<rparr>"]) simp
qed

text \<open>The free slot that \<open>sys_fork\<close> and \<open>sys_createthread\<close> take.\<close>

lemma taken_slot:
  assumes "queues h (qmap v)" "v_free v = c # cs"
  shows "\<not> enqueued (v\<lparr>v_free := cs\<rparr>) c"
proof -
  have q: "queue_of v FreeQ = Some (c # cs)" using assms(2) by simp
  have "c \<notin> set cs" using queue_distinct[OF assms(1) q] by simp
  moreover have "c \<notin> set (v_ready v)" using queue_disjoint[OF assms(1) q, of ReadyQ] by auto
  moreover have "c \<notin> set xs" if "v_sem v n = Some xs" for n xs
    using queue_disjoint[OF assms(1) q, of "SemQ n" xs] that by auto
  ultimately show ?thesis unfolding enqueued_iff by auto
qed

lemma copy_task_union_queues:
  assumes "queues h (qmap w)" "\<not> enqueued w c"
  shows "queues (heap (copy_task_union r c (s\<lparr>heap := h\<rparr>))) (qmap w)"
  by (rule queues_outside[OF assms(1)])
     (use assms(2) TaskN_in_nodes[of c w] in \<open>auto simp: copy_task_union_def\<close>)

lemma view_ok_spawn:
  assumes "view_ok v" "v_free v = c # cs"
  shows "view_ok (v\<lparr>v_free := cs, v_ready := v_ready v @ [c]\<rparr>)"
proof (rule view_ok_same_members[OF assms(1)])
  show "enqueued (v\<lparr>v_free := cs, v_ready := v_ready v @ [c]\<rparr>) i \<longleftrightarrow> enqueued v i" for i
    unfolding enqueued_iff using assms(2) by auto
qed (use assms in \<open>auto simp: view_ok_def\<close>)

lemma free_slot_facts:
  assumes "sched_ok s v" "v_free v = c # cs"
  shows "c < 10" "c \<noteq> v_run v" "c \<noteq> v_idle v"
proof -
  have "enqueued v c" using assms(2) by (simp add: enqueued_iff)
  then show "c < 10" "c \<noteq> v_run v" "c \<noteq> v_idle v"
    using sched_okD(2)[OF assms(1)] assms(2) by (auto simp: view_ok_def NR_TASKS_def)
qed

lemma sys_fork_start:
  assumes "sched_ok s v" "mem_ok s" "v_free v = c # cs"
  shows "\<exists>s2 h. list_first (Some FreeQ) (heap s) = Some (Some (TaskN c)) \<and> list_del (Some (TaskN c)) (heap s) = Some h
     \<and> s2 = snd (allocate_DIR c (copy_task_union (running s) c (s\<lparr>heap := h\<rparr>)))
     \<and> queues (heap s2) (qmap (v\<lparr>v_free := cs\<rparr>)) \<and> get_PT s2 (tasks s2 c) = c
     \<and> mm s2 = mm s \<and> current s2 = current s \<and> running s2 = running s
     \<and> (\<forall>i. i \<noteq> c \<longrightarrow> tasks s2 i = tasks s i \<and> kstack s2 i = kstack s i)
     \<and> tasks s2 c = (current s)\<lparr>dir_pages_baseAddr := c\<rparr> \<and> kstack s2 c = kstack s (running s)
     \<and> idle_task s2 = idle_task s \<and> list_sem s2 = list_sem s \<and> cpu_ebp s2 = cpu_ebp s \<and> stack_addr s2 = stack_addr s
     \<and> global_PID s2 = global_PID s \<and> global_TID s2 = global_TID s \<and> remaining_quantum s2 = remaining_quantum s
     \<and> kbd s2 = kbd s \<and> scr s2 = scr s \<and> task_base s2 = task_base s"
proof -
  note ok = sched_okD[OF assms(1)] and c = free_slot_facts[OF assms(1,3)]
  obtain h where h: "list_first (Some FreeQ) (heap s) = Some (Some (TaskN c))"
    "list_del (Some (TaskN c)) (heap s) = Some h" "queues h (qmap (v\<lparr>v_free := cs\<rparr>))"
    using take_free[OF ok(6) assms(3)] by blast
  let ?s2 = "snd (allocate_DIR c (copy_task_union (running s) c (s\<lparr>heap := h\<rparr>)))"
  have "queues (heap ?s2) (qmap (v\<lparr>v_free := cs\<rparr>))"
    using copy_task_union_queues[OF h(3) taken_slot[OF ok(6) assms(3)], of "running s" s]
    by (simp add: allocate_DIR_def upd_task_def)
  moreover have "get_PT ?s2 (tasks ?s2 c) = c"
    using assms(2) c(1) by (simp add: get_PT_def allocate_DIR_def upd_task_def copy_task_union_def mem_ok_def)
  ultimately show ?thesis using h(1,2) c(2) ok(4)
    by (intro exI[of _ ?s2] exI[of _ h])
       (simp add: allocate_DIR_def upd_task_def copy_task_union_def current_def)
qed

definition spawned :: "view \<Rightarrow> view" where
  "spawned v = v\<lparr>v_free := tl (v_free v), v_ready := v_ready v @ [hd (v_free v)]\<rparr>"

lemma sys_fork_calls:
  assumes "sched_ok s v" "v_free v = c # cs" "list_first (Some FreeQ) (heap s) = Some (Some (TaskN c))"
    and "list_del (Some (TaskN c)) (heap s) = Some h" "s2 = snd (allocate_DIR c (copy_task_union (running s) c (s\<lparr>heap := h\<rparr>)))"
    and "get_PT s2 (tasks s2 c) = c" "mm s2 = mm s" "get_PT s2 (current s2) = par"
    and "fork_data_pages c 20 0 (mm s) = (None, m1)"
    and "mfold (fork_copy_page par c) [264..<284] (fold (\<lambda>i. fork_share_page par c (256 + i)) [0..<8]
           (fold (fork_share_page par c) [0..<256] m1)) = Some m4"
  shows "sys_fork rff s = fork_finish rff c (s2\<lparr>mm := m4\<rparr>)"
proof -
  have "list_empty (Some FreeQ) (heap s) = Some False"
    using empty_view[OF sched_okD(6)[OF assms(1)], of FreeQ] assms(2) by simp
  moreover have "allocate_DIR c (copy_task_union (running s) c (s\<lparr>heap := h\<rparr>)) = (1, s2)"
    unfolding assms(5) by (simp add: allocate_DIR_def)
  ultimately show ?thesis
    using assms(3,4,6-10) by (simp add: sys_fork_def list_head_to_task_struct_def layout_defs Let_def)
qed

lemma sys_fork_run:
  assumes "kernel_ok s v" "mem_ok s" "v_free v = c # cs"
    and "dir_pages_baseAddr (current s) = par" "par < 10" "par \<noteq> c" "20 \<le> card (free_frames (phys_mem (mm s)))"
    and "\<And>q. 264 \<le> q \<Longrightarrow> q < 284 \<Longrightarrow> pres (mm s) par q"
    and "cpu_ebp s = stack_addr s (running s) (Suc k)" "Suc k < 1024"
  shows "\<exists>s' frs. sys_fork rff s = Some (global_PID s + 1, s') \<and> kernel_ok s' (spawned v) \<and> mem_ok s' \<and> forked par c frs (mm s) (mm s')
     \<and> global_PID s' = global_PID s + 1 \<and> remaining_quantum s' = remaining_quantum s
     \<and> (\<forall>i. i \<noteq> c \<longrightarrow> tasks s' i = tasks s i \<and> kstack s' i = kstack s i)
     \<and> PID (tasks s' c) = global_PID s + 1 \<and> tstate (tasks s' c) = ST_READY \<and> dir_pages_baseAddr (tasks s' c) = c
     \<and> total_quantum (tasks s' c) = total_quantum (current s)
     \<and> register_esp (tasks s' c) = stack_addr s c k
     \<and> kstack s' c = (kstack s (running s))(Suc k := rff, k := kstack s (running s) (Suc k))
     \<and> stack_addr s' = stack_addr s \<and> task_base s' = task_base s"
proof -
  note so = kernel_okD(1)[OF assms(1)]
  note ok = sched_okD[OF so] and c = free_slot_facts[OF so assms(3)]
  obtain s2 h where s2: "list_first (Some FreeQ) (heap s) = Some (Some (TaskN c))" "list_del (Some (TaskN c)) (heap s) = Some h"
     "s2 = snd (allocate_DIR c (copy_task_union (running s) c (s\<lparr>heap := h\<rparr>)))"
     "queues (heap s2) (qmap (v\<lparr>v_free := cs\<rparr>))" "get_PT s2 (tasks s2 c) = c"
     "mm s2 = mm s" "current s2 = current s" "running s2 = running s"
     "\<forall>i. i \<noteq> c \<longrightarrow> tasks s2 i = tasks s i \<and> kstack s2 i = kstack s i"
     "tasks s2 c = (current s)\<lparr>dir_pages_baseAddr := c\<rparr>" "kstack s2 c = kstack s (running s)"
     "idle_task s2 = idle_task s" "list_sem s2 = list_sem s" "cpu_ebp s2 = cpu_ebp s" "stack_addr s2 = stack_addr s"
     "global_PID s2 = global_PID s" "global_TID s2 = global_TID s" "remaining_quantum s2 = remaining_quantum s"
     "task_base s2 = task_base s"
    using sys_fork_start[OF so assms(2,3)] by blast
  have pPT: "get_PT s2 (current s2) = par"
    using assms(2,4,5) by (simp add: get_PT_def s2(6,7) mem_ok_def)
  obtain m1 m4 frs where m: "fork_data_pages c 20 0 (mm s) = (None, m1)"
     "mfold (fork_copy_page par c) [264..<284] (fold (\<lambda>i. fork_share_page par c (256 + i)) [0..<8]
           (fold (fork_share_page par c) [0..<256] m1)) = Some m4"
     "forked par c frs (mm s) m4" "dir_pages m4 = dir_pages (mm s)" "mm_ok m4"
    using fork_memory[of "mm s" par c] assms(2,5-8) c(1) by (auto simp: mem_ok_def)
  let ?s3 = "s2\<lparr>mm := m4\<rparr>"
  have q3: "queues (heap ?s3) (qmap (v\<lparr>v_free := cs\<rparr>))" using s2(4) by simp
  have ne: "c \<noteq> running ?s3" using c(2) ok(4) s2(8) by simp
  have eb: "cpu_ebp ?s3 = stack_addr ?s3 (running ?s3) (Suc k)" using assms(9) s2(8,14,15) by simp
  obtain s' where s': "fork_finish rff c ?s3 = Some (global_PID ?s3 + 1, s')"
     "queues (heap s') (qmap ((v\<lparr>v_free := cs\<rparr>)\<lparr>v_ready := v_ready (v\<lparr>v_free := cs\<rparr>) @ [c]\<rparr>))"
     "running s' = running ?s3" "idle_task s' = idle_task ?s3" "list_sem s' = list_sem ?s3" "mm s' = mm ?s3"
     "global_PID s' = global_PID ?s3 + 1" "remaining_quantum s' = remaining_quantum ?s3" "task_base s' = task_base ?s3"
     "\<forall>i. i \<noteq> c \<longrightarrow> tasks s' i = tasks ?s3 i \<and> kstack s' i = kstack ?s3 i"
     "PID (tasks s' c) = global_PID ?s3 + 1" "tstate (tasks s' c) = ST_READY"
     "total_quantum (tasks s' c) = total_quantum (tasks ?s3 c)"
     "dir_pages_baseAddr (tasks s' c) = dir_pages_baseAddr (tasks ?s3 c)"
     "register_esp (tasks s' c) = stack_addr ?s3 c k"
     "kstack s' c = (kstack ?s3 c)(Suc k := rff, k := kstack ?s3 c (Suc k))"
    using fork_finish_run[OF q3 taken_slot[OF ok(6) assms(3)] c(1) ne eb assms(10)] by blast
  have "sys_fork rff s = Some (global_PID s + 1, s')"
    using sys_fork_calls[OF so assms(3) s2(1-3,5,6) pPT m(1,2), of rff] s'(1) s2(16) by simp
  moreover have sp: "spawned v = v\<lparr>v_free := cs, v_ready := v_ready v @ [c]\<rparr>" using assms(3) by (simp add: spawned_def)
  have "sched_ok s' (spawned v)"
    unfolding sched_ok_def views_def sp
    using view_ok_spawn[OF ok(2) assms(3)] s'(2,3,4,10) s2(8,9,12) ok(3,4,5) c(2) by simp
  moreover have "sem_ok s' (spawned v)"
    using sem_ok_frame[of s' s "spawned v" v] kernel_okD(2)[OF assms(1)] s'(5) s2(13) by (simp add: sp)
  moreover have "mem_ok s'" using assms(2) m(4,5) s'(6) PT_of_dir_cong[OF m(4)] by (simp add: mem_ok_def)
  moreover have "stack_addr s' = stack_addr s" using s'(9) s2(19) by (simp add: stack_addr_def fun_eq_iff)
  ultimately show ?thesis
    using m(3) s' s2(8-11,15-19) by (intro exI[of _ s'] exI[of _ frs]) (simp add: kernel_ok_def)
qed

end
