(* ===== verification/Process_Steps.thy ===== *)
theory Process_Steps
  imports Process
begin

text \<open>
  What the calls of \<^theory_text>\<open>Process\<close> do to a consistent kernel: \<open>proc_ok\<close> is the invariant of the
  queues, the semaphores and the memory together, and each call keeps it.
\<close>

section \<open>The invariant\<close>

definition proc_ok :: "kstate \<Rightarrow> view \<Rightarrow> bool" where
  "proc_ok s v \<longleftrightarrow> kernel_ok s v \<and> mem_ok s \<and> (\<forall>i<10. dir_pages_baseAddr (tasks s i) < 10)"

lemma proc_okD:
  assumes "proc_ok s v"
  shows "kernel_ok s v" "sched_ok s v" "sem_ok s v" "mem_ok s" "mm_ok (mm s)" "v_run v < 10"
    "get_PT s (current s) = dir_pages_baseAddr (current s)" "get_PT s (current s) < 10"
    "i < 10 \<Longrightarrow> dir_pages_baseAddr (tasks s i) < 10" "running s = v_run v"
proof -
  show k: "kernel_ok s v" "sched_ok s v" "sem_ok s v" "mem_ok s" "mm_ok (mm s)"
    using assms by (simp_all add: proc_ok_def kernel_ok_def mem_ok_def)
  show r: "running s = v_run v" and l: "v_run v < 10"
    using sched_okD(4)[OF k(2)] sched_okD(2)[OF k(2)] by (simp_all add: view_ok_def NR_TASKS_def)
  show d: "i < 10 \<Longrightarrow> dir_pages_baseAddr (tasks s i) < 10" for i using assms by (simp add: proc_ok_def)
  show "get_PT s (current s) = dir_pages_baseAddr (current s)" "get_PT s (current s) < 10"
    using d[of "v_run v"] k(4) l r by (simp_all add: get_PT_def current_def mem_ok_def)
qed

text \<open>Steps of the scheduler and on the devices keep the memory part.\<close>

lemma proc_ok_frame:
  assumes "proc_ok s v" "kernel_ok s' v'" "mm_ok (mm s')" "dir_pages (mm s') = dir_pages (mm s)"
    and "\<And>i. dir_pages_baseAddr (tasks s' i) = dir_pages_baseAddr (tasks s i)"
  shows "proc_ok s' v'"
  using assms PT_of_dir_cong[OF assms(4)] by (simp add: proc_ok_def mem_ok_def)

lemma proc_ok_sched_frame:
  assumes "proc_ok s v" "kernel_ok s' v'" "sched_frame s s'"
  shows "proc_ok s' v'"
  by (rule proc_ok_frame[OF assms(1,2)]) (use assms(3) proc_okD(5)[OF assms(1)] in \<open>simp_all add: sched_frame_def\<close>)

lemma sem_ok_upd [simp]:
  "sem_ok (upd_task t f s) v \<longleftrightarrow> sem_ok s v" "sem_ok (s\<lparr>mm := m\<rparr>) v \<longleftrightarrow> sem_ok s v"
  "sem_ok (s\<lparr>cr3 := c\<rparr>) v \<longleftrightarrow> sem_ok s v" "sem_ok (s\<lparr>kbd := k\<rparr>) v \<longleftrightarrow> sem_ok s v"
  "sem_ok (s\<lparr>scr := sc\<rparr>) v \<longleftrightarrow> sem_ok s v" "sem_ok (s\<lparr>zeos_ticks := z\<rparr>) v \<longleftrightarrow> sem_ok s v"
  by (simp_all add: sem_ok_def upd_task_def)

lemma kernel_ok_upd [simp]:
  "kernel_ok (s\<lparr>mm := m\<rparr>) v \<longleftrightarrow> kernel_ok s v" "kernel_ok (s\<lparr>cr3 := c\<rparr>) v \<longleftrightarrow> kernel_ok s v"
  "kernel_ok (s\<lparr>kbd := k\<rparr>) v \<longleftrightarrow> kernel_ok s v" "kernel_ok (s\<lparr>scr := sc\<rparr>) v \<longleftrightarrow> kernel_ok s v"
  "kernel_ok (s\<lparr>zeos_ticks := z\<rparr>) v \<longleftrightarrow> kernel_ok s v"
  "kernel_ok (upd_task t (\<lambda>ts. ts\<lparr>PID := p\<rparr>) s) v \<longleftrightarrow> kernel_ok s v"
  "kernel_ok (upd_task t (\<lambda>ts. ts\<lparr>destroyed := d\<rparr>) s) v \<longleftrightarrow> kernel_ok s v"
  "kernel_ok (upd_task t (\<lambda>ts. ts\<lparr>p_stats := g ts\<rparr>) s) v \<longleftrightarrow> kernel_ok s v"
  by (simp_all add: kernel_ok_def)

section \<open>Dynamic pages\<close>

lemma find_free_page_first:
  "find_free_page PT = (let unmapped = {p. 284 \<le> p \<and> p < 1024 \<and> get_frame PT p = 0} in
     if unmapped = {} then None else Some (Min unmapped))"
proof -
  have s: "{p \<in> set [284..<1024]. get_frame PT p = 0} = {p. 284 \<le> p \<and> p < 1024 \<and> get_frame PT p = 0}"
    unfolding set_upt by auto
  have *: "find P xs = (if {x \<in> set xs. P x} = {} then None else Some (Min {x \<in> set xs. P x}))"
    if "sorted xs" for P and xs :: "nat list"
    using that
  proof (induction xs)
    case (Cons x xs)
    show ?case
    proof (cases "P x")
      case True
      then have "Min {y \<in> set (x # xs). P y} = x" using Cons.prems by (intro Min_eqI) auto
      then show ?thesis using True by auto
    next
      case False
      then have "{y \<in> set (x # xs). P y} = {y \<in> set xs. P y}" by auto
      then show ?thesis using Cons False by auto
    qed
  qed simp
  show ?thesis
    using *[of "[a..<b]" "\<lambda>i. get_frame PT i = 0" for a b, OF sorted_upt, of 284 1024] unfolding s
    by (simp only: find_free_page_def layout_defs Let_def) simp
qed

definition unmapped_pages :: "mm_state \<Rightarrow> nat \<Rightarrow> nat set" where
  "unmapped_pages m t = {p. 284 \<le> p \<and> p < 1024 \<and> gf m t p = 0}"

lemma finite_unmapped [simp]: "finite (unmapped_pages m t)"
  by (rule finite_subset[of _ "{..<1024}"]) (auto simp: unmapped_pages_def)

lemma Min_unmapped: "unmapped_pages m t \<noteq> {} \<Longrightarrow> Min (unmapped_pages m t) \<in> unmapped_pages m t"
  by (rule Min_in) simp_all

lemma alloc_k_run:
  fixes s :: kstate
  defines "t \<equiv> get_PT s (current s)"
  shows "alloc_k s =
     (if unmapped_pages (mm s) t = {} \<or> free_frames (phys_mem (mm s)) = {} then (- ENOMEM, s)
      else let p = Min (unmapped_pages (mm s) t); f = Min (free_frames (phys_mem (mm s)))
           in (push_bit 12 (of_nat p),
               s\<lparr>mm := map_in t p (of_nat f) ((mm s)\<lparr>phys_mem := (phys_mem (mm s))(f := USED_FRAME)\<rparr>)\<rparr>))"
proof -
  have f: "find_free_page (pagusr_table (mm s) t)
     = (if unmapped_pages (mm s) t = {} then None else Some (Min (unmapped_pages (mm s) t)))"
    unfolding find_free_page_first unmapped_pages_def gf_def Let_def by simp
  have n: "(of_nat (Min (free_frames pm)) :: DWord) \<noteq> -1" if "free_frames pm \<noteq> {}" for pm
    using Min_in[of "free_frames pm"] that by (intro frame_word_not_error) (auto simp: free_frames_def)
  show ?thesis
    unfolding alloc_k_def t_def[symmetric] f Let_def
    using n by (auto simp: alloc_frame_first)
qed

lemma alloc_k_mm:
  assumes "mm_ok (mm s)" "alloc_k s = (r, s')"
  shows "\<exists>m. s' = s\<lparr>mm := m\<rparr> \<and> mm_ok m \<and> dir_pages m = dir_pages (mm s)"
proof (cases "unmapped_pages (mm s) (get_PT s (current s)) = {} \<or> free_frames (phys_mem (mm s)) = {}")
  case True
  then have "s' = s" using assms(2) by (simp add: alloc_k_run)
  then show ?thesis using assms(1) by (intro exI[of _ "mm s"]) simp
next
  case False
  let ?t = "get_PT s (current s)"
  let ?p = "Min (unmapped_pages (mm s) ?t)" and ?f = "Min (free_frames (phys_mem (mm s)))"
  let ?m = "map_in ?t ?p (of_nat ?f) ((mm s)\<lparr>phys_mem := (phys_mem (mm s))(?f := USED_FRAME)\<rparr>)"
  have s': "s' = s\<lparr>mm := ?m\<rparr>" using assms(2) False by (simp add: alloc_k_run Let_def)
  have "?f \<in> pool" using False Min_in[of "free_frames (phys_mem (mm s))"] by (auto simp: free_frames_def)
  then have "mm_ok ?m"
    using mm_ok_alloc_page[OF assms(1), of "of_nat ?f" _ ?p ?t] False Min_unmapped[of "mm s" ?t]
      frame_word_not_error[of ?f] by (simp add: alloc_frame_first unmapped_pages_def)
  then show ?thesis unfolding s' by (intro exI[of _ ?m]) simp
qed

lemma proc_ok_mm:
  assumes "proc_ok s v" "mm_ok m" "dir_pages m = dir_pages (mm s)"
  shows "proc_ok (s\<lparr>mm := m\<rparr>) v"
  by (rule proc_ok_frame[OF assms(1)]) (use proc_okD(1)[OF assms(1)] assms(2,3) in simp_all)

lemma alloc_k_keeps: "proc_ok s v \<Longrightarrow> alloc_k s = (r, s') \<Longrightarrow> proc_ok s' v"
  using alloc_k_mm[OF proc_okD(5)] proc_ok_mm by blast

lemma dealloc_k_run:
  fixes s :: kstate
  defines "t \<equiv> get_PT s (current s)"
  shows "dealloc_k lpage s =
     (if unat lpage < 284 \<or> 1024 \<le> unat lpage then (- EACCES, s)
      else if gf (mm s) t (unat lpage) = 0 then (- EFAULT, s)
      else (0, s\<lparr>mm := release_page t (unat lpage) (mm s), cr3 := dir_pages_baseAddr (current s)\<rparr>))"
  unfolding dealloc_k_def t_def
  by (simp add: layout_defs gf_def release_page_def set_cr3_def get_DIR_def current_def Let_def)

lemma dealloc_k_keeps:
  assumes "proc_ok s v" "dealloc_k lpage s = (r, s')"
  shows "proc_ok s' v \<and> heap s' = heap s \<and> tasks s' = tasks s \<and> kstack s' = kstack s \<and> running s' = running s
     \<and> idle_task s' = idle_task s \<and> list_sem s' = list_sem s"
proof (cases "r = 0")
  case True
  let ?t = "get_PT s (current s)"
  have nz: "- EACCES \<noteq> (0::DWord)" "- EFAULT \<noteq> (0::DWord)" by (simp_all add: errno_defs)
  have p: "284 \<le> unat lpage" "unat lpage < 1024"
    and s': "s' = s\<lparr>mm := release_page ?t (unat lpage) (mm s), cr3 := dir_pages_baseAddr (current s)\<rparr>"
    using assms(2) True nz unfolding dealloc_k_run by (auto split: if_splits)
  have "mm_ok (release_page ?t (unat lpage) (mm s))"
    using mm_ok_release[OF proc_okD(5,8)[OF assms(1)]] p by simp
  then have "proc_ok s' v"
    unfolding s' by (intro proc_ok_frame[OF assms(1)]) (use proc_okD(1)[OF assms(1)] in simp_all)
  then show ?thesis unfolding s' by simp
next
  case False
  then have "s' = s" using assms(2) unfolding dealloc_k_run by (auto split: if_splits)
  then show ?thesis using assms(1) by simp
qed

section \<open>Releasing the data pages\<close>

definition release_data :: "nat \<Rightarrow> nat \<Rightarrow> mm_state \<Rightarrow> mm_state" where
  "release_data t n m = fold (\<lambda>i. release_page t (264 + i)) [0..<n] m"

lemma release_data_run:
  assumes "t < 10" "264 + n \<le> 1024"
  shows "gf (release_data t n m) u q = (if u = t \<and> 264 \<le> q \<and> q < 264 + n then 0 else gf m u q)"
    and "frame_mem (release_data t n m) = frame_mem m" "dir_pages (release_data t n m) = dir_pages m"
    and "mm_ok m \<Longrightarrow> mm_ok (release_data t n m)"
    and "free_frames (phys_mem (release_data t n m)) =
      free_frames (phys_mem m) \<union> ((\<lambda>p. unat (gf m t p)) ` {264..<264 + n} \<inter> (pool - {256}))"
proof -
  note r = release_loop[OF assms, of m, unfolded Let_def, folded release_data_def]
  show "gf (release_data t n m) u q = (if u = t \<and> 264 \<le> q \<and> q < 264 + n then 0 else gf m u q)"
    "frame_mem (release_data t n m) = frame_mem m" "dir_pages (release_data t n m) = dir_pages m"
    "mm_ok m \<Longrightarrow> mm_ok (release_data t n m)"
    "free_frames (phys_mem (release_data t n m)) =
      free_frames (phys_mem m) \<union> ((\<lambda>p. unat (gf m t p)) ` {264..<264 + n} \<inter> (pool - {256}))"
    using r by blast+
qed

section \<open>Leaving the processor\<close>

lemma upd_task_heap: "upd_task t f (s\<lparr>heap := h\<rparr>) = (upd_task t f s)\<lparr>heap := h\<rparr>"
  by (simp add: upd_task_def)

lemma exit_to_next:
  assumes "proc_ok s v" "v_run v \<noteq> v_idle v"
  defines "w \<equiv> v\<lparr>v_free := v_free v @ [v_run v]\<rparr>"
  shows "\<exists>h s'. list_add_tail (Some (TaskN (v_run v))) (Some FreeQ) (heap s) = Some h
     \<and> sched_next_rr (s\<lparr>heap := h\<rparr>) = Some s' \<and> proc_ok s' (next_view w) \<and> switched (v_run (next_view w)) s s'"
proof -
  have b: "between w" unfolding w_def using between_free[OF sched_okD(2)[OF proc_okD(2)[OF assms(1)]] assms(2)] .
  have q: "(qmap v)(FreeQ \<mapsto> map TaskN (v_free v @ [v_run v])) = qmap w" by (simp add: qmap_upd w_def flip: map_append)
  obtain h s' where h: "list_add_tail (Some (TaskN (v_run v))) (Some FreeQ) (heap s) = Some h"
     "sched_next_rr (s\<lparr>heap := h\<rparr>) = Some s'" "sched_ok s' (next_view w)" "switched (v_run (next_view w)) s s'"
    using leave_processor[OF proc_okD(2)[OF assms(1)], of FreeQ "v_free v" w] b q by (auto simp: w_def)
  have f: "sched_frame s s'" using h(4) by (simp add: switched_def)
  have "sem_ok s' (next_view w)"
    using sem_ok_frame[of s' s "next_view w" v] proc_okD(3)[OF assms(1)] f by (simp add: sched_frame_def w_def)
  then have "proc_ok s' (next_view w)"
    using proc_ok_sched_frame[OF assms(1) _ f] h(3) by (simp add: kernel_ok_def)
  then show ?thesis using h by blast
qed

lemma sys_exit_run:
  assumes "proc_ok s v" "v_run v \<noteq> v_idle v"
  defines "w \<equiv> v\<lparr>v_free := v_free v @ [v_run v]\<rparr>"
    and "m \<equiv> release_data (get_PT s (current s)) 20 (mm s)"
  shows "\<exists>s'. sys_exit s = Some s' \<and> proc_ok s' (next_view w) \<and> mm s' = m
     \<and> switched (v_run (next_view w)) (upd_task (v_run v) (\<lambda>ts. ts\<lparr>PID := -1\<rparr>) (s\<lparr>mm := m\<rparr>)) s'"
proof -
  let ?s1 = "upd_task (v_run v) (\<lambda>ts. ts\<lparr>PID := -1\<rparr>) (s\<lparr>mm := m\<rparr>)"
  have r: "mm_ok m" "dir_pages m = dir_pages (mm s)"
    unfolding m_def using release_data_run[OF proc_okD(8)[OF assms(1)], of 20] proc_okD(5)[OF assms(1)] by simp_all
  have "kernel_ok ?s1 v" using proc_okD(1)[OF assms(1)] by simp
  then have ok1: "proc_ok ?s1 v" by (rule proc_ok_frame[OF assms(1)]) (simp_all add: r upd_task_def)
  obtain h s' where h: "list_add_tail (Some (TaskN (v_run v))) (Some FreeQ) (heap ?s1) = Some h"
     "sched_next_rr (?s1\<lparr>heap := h\<rparr>) = Some s'" "proc_ok s' (next_view w)" "switched (v_run (next_view w)) ?s1 s'"
    using exit_to_next[OF ok1 assms(2)] unfolding w_def by blast
  have "heap ?s1 = heap s" by (simp add: upd_task_def)
  then have "sys_exit s = Some s'"
    using h(1,2) proc_okD(10)[OF assms(1)]
    by (simp add: sys_exit_def layout_defs m_def release_data_def upd_task_heap[symmetric] Let_def)
  moreover have "mm s' = m" using h(4) by (simp add: switched_def sched_frame_def upd_task_def)
  ultimately show ?thesis using h(3,4) by blast
qed

lemma sys_terminatethread_run:
  assumes "proc_ok s v" "v_run v \<noteq> v_idle v" "sys_terminatethread s = Some (r, s')"
  shows "\<exists>v'. proc_ok s' v'"
proof -
  obtain e s1 where d: "dealloc_k (drop_bit 12 (kstack s (running s) 1022)) s = (e, s1)" by fastforce
  note k = dealloc_k_keeps[OF assms(1) d]
  have ok1: "proc_ok s1 v" using k by blast
  show ?thesis
  proof (cases "sint e < 0")
    case True
    then have "s' = s1" using assms(3) d by (simp add: sys_terminatethread_def KERNEL_STACK_SIZE_def Let_def)
    then show ?thesis using ok1 by blast
  next
    case False
    obtain h s2 where h: "list_add_tail (Some (TaskN (v_run v))) (Some FreeQ) (heap s1) = Some h"
     "sched_next_rr (s1\<lparr>heap := h\<rparr>) = Some s2" "proc_ok s2 (next_view (v\<lparr>v_free := v_free v @ [v_run v]\<rparr>))"
      using exit_to_next[OF ok1 assms(2)] by blast
    then have "s' = s2" using assms(3) d False k proc_okD(10)[OF assms(1)]
      by (simp add: sys_terminatethread_def KERNEL_STACK_SIZE_def Let_def)
    then show ?thesis using h(3) by blast
  qed
qed

section \<open>fork, whatever happens\<close>

lemma fork_copy_page_keeps:
  assumes "fork_copy_page par c pag m = Some m'" "mm_ok m"
  shows "mm_ok m' \<and> dir_pages m' = dir_pages m"
proof -
  let ?m1 = "map_in par (pag + NUM_PAG_DATA) (get_frame (pagusr_table m c) pag) m"
  obtain fs fd where m': "m' = unmap_in par (pag + NUM_PAG_DATA) (?m1\<lparr>frame_mem := (frame_mem ?m1)(fd := frame_mem ?m1 fs)\<rparr>)"
    using assms(1) by (auto simp: fork_copy_page_def copy_page_def Let_def split: bind_splits)
  have "mm_ok m'" by (rule mm_ok_fewer[OF assms(2)]) (simp_all add: m')
  then show ?thesis by (simp add: m')
qed

lemma fork_copies_keep:
  "mfold (fork_copy_page par c) ps m = Some m' \<Longrightarrow> mm_ok m \<Longrightarrow> mm_ok m' \<and> dir_pages m' = dir_pages m"
proof (induction ps arbitrary: m)
  case (Cons p ps)
  then obtain m1 where m1: "fork_copy_page par c p m = Some m1" "mfold (fork_copy_page par c) ps m1 = Some m'"
    by (auto split: option.splits)
  then show ?case using fork_copy_page_keeps[OF m1(1) Cons.prems(2)] Cons.IH[OF m1(2)] by simp
qed simp

lemma fork_shares_keep:
  assumes "par < 10" "\<And>p. p \<in> set ps \<Longrightarrow> b + p < 264"
  shows "mm_ok m \<Longrightarrow> mm_ok (fold (\<lambda>p. fork_share_page par c (b + p)) ps m)
     \<and> dir_pages (fold (\<lambda>p. fork_share_page par c (b + p)) ps m) = dir_pages m"
  using assms(2)
proof (induction ps arbitrary: m)
  case (Cons p ps)
  have "mm_ok (fork_share_page par c (b + p) m)" "dir_pages (fork_share_page par c (b + p) m) = dir_pages m"
    using mm_ok_share[OF Cons.prems(1) assms(1)] Cons.prems(2)[of p] by (simp_all add: fork_share_page_def)
  then show ?case using Cons.IH[of "fork_share_page par c (b + p) m"] Cons.prems(2) by simp
qed simp

text \<open>A state that differs in one slot that is in no queue, in memory and in the identifiers only.\<close>

definition other_slot :: "nat \<Rightarrow> kstate \<Rightarrow> kstate \<Rightarrow> bool" where
  "other_slot c s s' \<longleftrightarrow> heap s' = heap s \<and> running s' = running s \<and> idle_task s' = idle_task s
     \<and> list_sem s' = list_sem s \<and> mm s' = mm s \<and> task_base s' = task_base s
     \<and> dir_pages_baseAddr (tasks s' c) = dir_pages_baseAddr (tasks s c)
     \<and> (\<forall>i. i \<noteq> c \<longrightarrow> tasks s' i = tasks s i)"

lemma other_slot_refl [simp]: "other_slot c s s"
  by (simp add: other_slot_def)

lemma other_slot_trans: "other_slot c s t \<Longrightarrow> other_slot c t u \<Longrightarrow> other_slot c s u"
  by (simp add: other_slot_def)

lemma other_slot_upd [simp]:
  "(\<And>ts. dir_pages_baseAddr (f ts) = dir_pages_baseAddr ts) \<Longrightarrow> other_slot c s (upd_task c f s)"
  "other_slot c s (write_stack a v s)" "other_slot c s (s\<lparr>global_PID := p\<rparr>)" "other_slot c s (s\<lparr>tsc_reads := n\<rparr>)"
  "other_slot c s (set_cr3 d s)" "other_slot c s (s\<lparr>global_TID := p\<rparr>)"
  by (simp_all add: other_slot_def upd_task_def write_stack_def set_cr3_def)

lemma fork_child_stack_other: "other_slot c s (fork_child_stack rff c s)"
  unfolding fork_child_stack_def Let_def
  by (rule other_slot_trans[OF _ other_slot_upd(2)], rule other_slot_trans[OF _ other_slot_upd(1)],
      rule other_slot_trans[OF _ other_slot_upd(2)], rule other_slot_trans[OF _ other_slot_upd(1)]) simp_all

lemma fork_finish_other:
  assumes "queues (heap s) (qmap w)" "\<not> enqueued w c" "fork_finish rff c s = Some (r, s')"
  shows "\<exists>h s1. s' = s1\<lparr>heap := h\<rparr> \<and> other_slot c s s1 \<and> queues h (qmap (w\<lparr>v_ready := v_ready w @ [c]\<rparr>))"
proof -
  let ?s1 = "upd_task c (\<lambda>ts. ts\<lparr>tstate := ST_READY\<rparr>)
     (upd_task c (\<lambda>ts. ts\<lparr>PID := global_PID (set_cr3 (get_DIR (current s)) s) + 1\<rparr>)
       ((set_cr3 (get_DIR (current s)) s)\<lparr>global_PID := global_PID (set_cr3 (get_DIR (current s)) s) + 1\<rparr>))"
  let ?s2 = "fork_child_stack rff c ?s1"
  obtain st n where st: "init_stats c ?s2 = Some (upd_task c (\<lambda>ts. ts\<lparr>p_stats := st\<rparr>) (?s2\<lparr>tsc_reads := n\<rparr>))"
    using init_stats_run[of c ?s2] by blast
  let ?s3 = "upd_task c (\<lambda>ts. ts\<lparr>tstate := ST_READY\<rparr>) (upd_task c (\<lambda>ts. ts\<lparr>p_stats := st\<rparr>) (?s2\<lparr>tsc_reads := n\<rparr>))"
  have o1: "other_slot c s ?s1"
    by (rule other_slot_trans[OF _ other_slot_upd(1)], rule other_slot_trans[OF _ other_slot_upd(1)],
        rule other_slot_trans[OF _ other_slot_upd(3)]) simp_all
  have o3: "other_slot c ?s2 ?s3"
    by (rule other_slot_trans[OF _ other_slot_upd(1)], rule other_slot_trans[OF _ other_slot_upd(1)]) simp_all
  have o: "other_slot c s ?s3"
    using other_slot_trans[OF other_slot_trans[OF o1 fork_child_stack_other] o3] .
  then have hp: "heap ?s3 = heap s" by (simp add: other_slot_def)
  obtain h where h: "list_add_tail (Some (TaskN c)) (Some ReadyQ) (heap ?s3) = Some h"
     "queues h (qmap (w\<lparr>v_ready := v_ready w @ [c]\<rparr>))"
    using add_tail_view[OF assms(1), of ReadyQ "v_ready w" c] assms(2) unfolding hp by (auto simp: qmap_upd simp flip: map_append)
  have "s' = ?s3\<lparr>heap := h\<rparr>"
    using assms(3) st h(1) by (simp add: fork_finish_def Let_def)
  then show ?thesis using o h(2) by blast
qed

text \<open>The slot taken from \<open>freequeue\<close> has been filled in and queued again.\<close>

lemma slot_ok:
  assumes "proc_ok s v" "v_free v = c # cs" "queues (heap s') (qmap w)" "view_ok w"
    and "v_run w = v_run v" "v_idle w = v_idle v" "v_sem w = v_sem v"
    and "running s' = running s" "idle_task s' = idle_task s" "list_sem s' = list_sem s"
    and "\<And>i. i \<noteq> c \<Longrightarrow> tasks s' i = tasks s i" "dir_pages_baseAddr (tasks s' c) < 10"
    and "mm_ok (mm s')" "dir_pages (mm s') = dir_pages (mm s)"
  shows "proc_ok s' w"
proof -
  note so = proc_okD(2)[OF assms(1)]
  note ok = sched_okD[OF so] and c = free_slot_facts[OF so assms(2)]
  have "sched_ok s' w"
    using assms(3-11) ok(3,4,5) c(2) by (simp add: sched_ok_def views_def)
  moreover have "sem_ok s' w" using sem_ok_frame[of s' s w v] assms(7,10) proc_okD(3)[OF assms(1)] by simp
  moreover have "mem_ok s'"
    using proc_okD(4)[OF assms(1)] assms(13) PT_of_dir_cong[OF assms(14)] by (simp add: mem_ok_def)
  moreover have "dir_pages_baseAddr (tasks s' i) < 10" if "i < 10" for i
    using proc_okD(9)[OF assms(1) that] assms(11)[of i] assms(12) by (cases "i = c") simp_all
  ultimately show ?thesis by (simp add: proc_ok_def kernel_ok_def)
qed

lemma view_ok_requeue:
  assumes "view_ok v" "v_free v = c # cs"
  shows "view_ok (v\<lparr>v_free := cs @ [c]\<rparr>)"
proof (rule view_ok_same_members[OF assms(1)])
  show "enqueued (v\<lparr>v_free := cs @ [c]\<rparr>) i \<longleftrightarrow> enqueued v i" for i
    unfolding enqueued_iff using assms(2) by auto
qed (use assms in \<open>auto simp: view_ok_def\<close>)

lemma sys_fork_cases:
  assumes "proc_ok s v" "v_free v = c # cs" "sys_fork rff s = Some (r, s')"
  defines "par \<equiv> get_PT s (current s)"
  obtains (no_frames) s2 m1 h pag where "fork_data_pages c 20 0 (mm s) = (Some pag, m1)"
      "s' = s2\<lparr>mm := release_data c pag m1, heap := h\<rparr>" "r = - EAGAIN"
      "queues h (qmap (v\<lparr>v_free := cs @ [c]\<rparr>))" "running s2 = running s" "idle_task s2 = idle_task s"
      "list_sem s2 = list_sem s" "\<forall>i. i \<noteq> c \<longrightarrow> tasks s2 i = tasks s i"
      "tasks s2 c = (current s)\<lparr>dir_pages_baseAddr := c\<rparr>" "global_PID s2 = global_PID s"
  | (child) s2 m1 m4 where "fork_data_pages c 20 0 (mm s) = (None, m1)"
      "mfold (fork_copy_page par c) [264..<284] (fold (\<lambda>i. fork_share_page par c (256 + i)) [0..<8]
           (fold (fork_share_page par c) [0..<256] m1)) = Some m4"
      "fork_finish rff c (s2\<lparr>mm := m4\<rparr>) = Some (r, s')"
      "queues (heap s2) (qmap (v\<lparr>v_free := cs\<rparr>))" "running s2 = running s" "idle_task s2 = idle_task s"
      "list_sem s2 = list_sem s" "\<forall>i. i \<noteq> c \<longrightarrow> tasks s2 i = tasks s i"
      "tasks s2 c = (current s)\<lparr>dir_pages_baseAddr := c\<rparr>"
proof -
  note so = proc_okD(2)[OF assms(1)]
  obtain s2 h where s2: "list_first (Some FreeQ) (heap s) = Some (Some (TaskN c))" "list_del (Some (TaskN c)) (heap s) = Some h"
     "s2 = snd (allocate_DIR c (copy_task_union (running s) c (s\<lparr>heap := h\<rparr>)))"
     "queues (heap s2) (qmap (v\<lparr>v_free := cs\<rparr>))" "get_PT s2 (tasks s2 c) = c"
     "mm s2 = mm s" "current s2 = current s" "running s2 = running s"
     "\<forall>i. i \<noteq> c \<longrightarrow> tasks s2 i = tasks s i \<and> kstack s2 i = kstack s i"
     "tasks s2 c = (current s)\<lparr>dir_pages_baseAddr := c\<rparr>" "idle_task s2 = idle_task s" "list_sem s2 = list_sem s"
     "global_PID s2 = global_PID s"
    using sys_fork_start[OF so proc_okD(4)[OF assms(1)] assms(2)] by blast
  have pPT: "get_PT s2 (current s2) = par" by (simp add: get_PT_def s2(6,7) par_def)
  have e: "list_empty (Some FreeQ) (heap s) = Some False"
    using empty_view[OF sched_okD(6)[OF so], of FreeQ] assms(2) by simp
  have al: "allocate_DIR c (copy_task_union (running s) c (s\<lparr>heap := h\<rparr>)) = (1, s2)"
    unfolding s2(3) by (simp add: allocate_DIR_def)
  obtain o1 m1 where dp: "fork_data_pages c 20 0 (mm s) = (o1, m1)" by fastforce
  have free: "\<not> enqueued (v\<lparr>v_free := cs\<rparr>) c" by (rule taken_slot[OF sched_okD(6)[OF so] assms(2)])
  note run = assms(3)[unfolded sys_fork_def list_head_to_task_struct_def layout_defs]
  show thesis
  proof (cases o1)
    case (Some pag)
    obtain h' where h': "list_add_tail (Some (TaskN c)) (Some FreeQ) (heap s2) = Some h'"
       "queues h' (qmap (v\<lparr>v_free := cs @ [c]\<rparr>))"
      using add_tail_view[OF s2(4), of FreeQ cs c] free by (auto simp: qmap_upd simp flip: map_append)
    have "s' = s2\<lparr>mm := release_data c pag m1, heap := h'\<rparr>" "r = - EAGAIN"
      using run e s2(1,2,5,6) al dp Some h'(1) by (simp_all add: release_data_def Let_def)
    then show thesis using no_frames[of pag m1 h' s2] dp Some h'(2) s2 by simp
  next
    case None
    then obtain m4 where "mfold (fork_copy_page par c) [264..<284] (fold (\<lambda>i. fork_share_page par c (256 + i)) [0..<8]
           (fold (fork_share_page par c) [0..<256] m1)) = Some m4" "fork_finish rff c (s2\<lparr>mm := m4\<rparr>) = Some (r, s')"
      using run e s2(1,2,5,6) al dp pPT by (auto simp: Let_def split: bind_splits)
    then show thesis using child[of m1 m4 s2] dp None s2 by simp
  qed
qed

lemma fork_data_pages_keep:
  assumes "fork_data_pages t 20 0 m = (r, m')" "mm_ok m"
  shows "mm_ok m'" "dir_pages m' = dir_pages m" "r = Some pag \<Longrightarrow> pag \<le> 20"
  using fork_data_pages_frames[OF assms(1)] assms(2) by (auto split: if_splits)

lemma sys_fork_keeps:
  assumes "proc_ok s v" "sys_fork rff s = Some (r, s')"
  shows "\<exists>v'. proc_ok s' v'"
proof (cases "v_free v")
  case Nil
  then have "sys_fork rff s = Some (- ENOMEM, s)"
    using empty_view[OF sched_okD(6)[OF proc_okD(2)[OF assms(1)]], of FreeQ] by (simp add: sys_fork_def)
  then show ?thesis using assms by auto
next
  case (Cons c cs)
  let ?par = "get_PT s (current s)"
  note so = proc_okD(2)[OF assms(1)] and par = proc_okD(8)[OF assms(1)] and mok = proc_okD(5)[OF assms(1)]
  note c = free_slot_facts[OF so Cons]
  from assms(1) Cons assms(2) show ?thesis
  proof (cases rule: sys_fork_cases)
    case (no_frames s2 m1 h pag)
    note dp = fork_data_pages_keep[OF no_frames(1) mok]
    have "mm_ok (release_data c pag m1)" "dir_pages (release_data c pag m1) = dir_pages (mm s)"
      using release_data_run(3,4)[OF c(1), of pag m1] dp by simp_all
    then have "proc_ok s' (v\<lparr>v_free := cs @ [c]\<rparr>)"
      by (intro slot_ok[OF assms(1) Cons _ view_ok_requeue[OF sched_okD(2)[OF so] Cons]])
         (use no_frames c(1) in simp_all)
    then show ?thesis by blast
  next
    case (child s2 m1 m4)
    note dp = fork_data_pages_keep[OF child(1) mok]
    have "mm_ok (fold (\<lambda>i. fork_share_page ?par c (0 + i)) [0..<256] m1)
        \<and> dir_pages (fold (\<lambda>i. fork_share_page ?par c (0 + i)) [0..<256] m1) = dir_pages m1"
      using par dp(1) by (intro fork_shares_keep) auto
    then have s1: "mm_ok (fold (fork_share_page ?par c) [0..<256] m1)"
       "dir_pages (fold (fork_share_page ?par c) [0..<256] m1) = dir_pages m1" unfolding add_0 by blast+
    have "mm_ok (fold (\<lambda>i. fork_share_page ?par c (256 + i)) [0..<8] (fold (fork_share_page ?par c) [0..<256] m1))
        \<and> dir_pages (fold (\<lambda>i. fork_share_page ?par c (256 + i)) [0..<8] (fold (fork_share_page ?par c) [0..<256] m1))
          = dir_pages (fold (fork_share_page ?par c) [0..<256] m1)"
      using par s1(1) by (intro fork_shares_keep) auto
    then have m4: "mm_ok m4" "dir_pages m4 = dir_pages (mm s)"
      using fork_copies_keep[OF child(2)] s1(2) dp(2) by auto
    have "queues (heap (s2\<lparr>mm := m4\<rparr>)) (qmap (v\<lparr>v_free := cs\<rparr>))" using child(4) by simp
    from fork_finish_other[OF this taken_slot[OF sched_okD(6)[OF so] Cons] child(3)] obtain h s1 where
      f: "s' = s1\<lparr>heap := h\<rparr>" "other_slot c (s2\<lparr>mm := m4\<rparr>) s1" "queues h (qmap (v\<lparr>v_free := cs, v_ready := v_ready v @ [c]\<rparr>))"
      by auto
    have "proc_ok s' (v\<lparr>v_free := cs, v_ready := v_ready v @ [c]\<rparr>)"
      by (rule slot_ok[OF assms(1) Cons _ view_ok_spawn[OF sched_okD(2)[OF so] Cons]])
         (use f child(5-9) m4 c(1) in \<open>simp_all add: other_slot_def\<close>)
    then show ?thesis by blast
  qed
qed

section \<open>createthread, whatever happens\<close>

lemma store_user_run:
  "store_user a x s = Some s' \<Longrightarrow> \<exists>fm. s' = s\<lparr>mm := (mm s)\<lparr>frame_mem := fm\<rparr>\<rparr>"
  by (auto simp: store_user_def split: bind_splits)

lemma mm_ok_frame_mem [simp]: "mm_ok (m\<lparr>frame_mem := fm\<rparr>) = mm_ok m"
  by (simp add: mm_ok_def)

lemma store_user_mm:
  assumes "store_user a x (s\<lparr>mm := m\<rparr>) = Some s'" "mm_ok m" "dir_pages m = D"
  shows "\<exists>m'. s' = s\<lparr>mm := m'\<rparr> \<and> mm_ok m' \<and> dir_pages m' = D"
proof -
  obtain fm where "s' = s\<lparr>mm := m\<lparr>frame_mem := fm\<rparr>\<rparr>" using store_user_run[OF assms(1)] by auto
  then show ?thesis using assms(2,3) by (intro exI[of _ "m\<lparr>frame_mem := fm\<rparr>"]) simp
qed

lemma thread_slot_other: "other_slot c s (thread_slot tw us c s)"
  unfolding thread_slot_def Let_def
  by (rule other_slot_trans[OF _ other_slot_upd(1)], rule other_slot_trans[OF _ other_slot_upd(1)],
      rule other_slot_trans[OF _ other_slot_upd(6)], rule other_slot_trans[OF _ other_slot_upd(1)],
      rule other_slot_trans[OF _ other_slot_upd(2)]) simp_all

lemma thread_start:
  assumes "proc_ok s v" "v_free v = c # cs"
  shows "\<exists>h. list_first (Some FreeQ) (heap s) = Some (Some (TaskN c)) \<and> list_del (Some (TaskN c)) (heap s) = Some h
     \<and> list_empty (Some FreeQ) (heap s) = Some False
     \<and> queues (heap (copy_task_union (running s) c (s\<lparr>heap := h\<rparr>))) (qmap (v\<lparr>v_free := cs\<rparr>))
     \<and> \<not> enqueued (v\<lparr>v_free := cs\<rparr>) c"
proof -
  note ok = sched_okD[OF proc_okD(2)[OF assms(1)]]
  obtain h where h: "list_first (Some FreeQ) (heap s) = Some (Some (TaskN c))"
    "list_del (Some (TaskN c)) (heap s) = Some h" "queues h (qmap (v\<lparr>v_free := cs\<rparr>))"
    using take_free[OF ok(6) assms(2)] by blast
  then show ?thesis
    using copy_task_union_queues[OF h(3) taken_slot[OF ok(6) assms(2)], of "running s" s] taken_slot[OF ok(6) assms(2)]
      empty_view[OF ok(6), of FreeQ] assms(2) by auto
qed

lemma thread_finish:
  assumes "proc_ok s v" "v_free v = c # cs"
    and "queues (heap s1) (qmap (v\<lparr>v_free := cs\<rparr>))" "\<not> enqueued (v\<lparr>v_free := cs\<rparr>) c"
    and "s1 = copy_task_union (running s) c (s\<lparr>heap := h0\<rparr>)" "mm_ok m" "dir_pages m = dir_pages (mm s)"
  shows "\<exists>h. list_add_tail (Some (TaskN c)) (Some ReadyQ) (heap (thread_slot tw us c (s1\<lparr>mm := m\<rparr>))) = Some h
     \<and> proc_ok ((thread_slot tw us c (s1\<lparr>mm := m\<rparr>))\<lparr>heap := h\<rparr>) (spawned v)"
proof -
  note so = proc_okD(2)[OF assms(1)]
  note c = free_slot_facts[OF so assms(2)]
  let ?s2 = "thread_slot tw us c (s1\<lparr>mm := m\<rparr>)"
  have o: "other_slot c (s1\<lparr>mm := m\<rparr>) ?s2" by (rule thread_slot_other)
  then have hp: "heap ?s2 = heap s1" by (simp add: other_slot_def)
  obtain h where h: "list_add_tail (Some (TaskN c)) (Some ReadyQ) (heap ?s2) = Some h"
     "queues h (qmap (v\<lparr>v_free := cs, v_ready := v_ready v @ [c]\<rparr>))"
    using add_tail_view[OF assms(3), of ReadyQ "v_ready v" c] assms(4) unfolding hp by (auto simp: qmap_upd simp flip: map_append)
  have d: "dir_pages_baseAddr (current s) < 10" using proc_okD(7,8)[OF assms(1)] by simp
  have "proc_ok (?s2\<lparr>heap := h\<rparr>) (v\<lparr>v_free := cs, v_ready := v_ready v @ [c]\<rparr>)"
    by (rule slot_ok[OF assms(1,2) _ view_ok_spawn[OF sched_okD(2)[OF so] assms(2)]])
       (use h(2) o assms(5-7) d in \<open>simp_all add: other_slot_def copy_task_union_def current_def\<close>)
  then show ?thesis using h(1) assms(2) by (auto simp: spawned_def)
qed

lemma sys_createthread_keeps:
  assumes "proc_ok s v" "sys_createthread tw func param s = Some (r, s')"
  shows "\<exists>v'. proc_ok s' v'"
proof (cases "v_free v")
  case Nil
  then have "sys_createthread tw func param s = Some (- ENOMEM, s)"
    using empty_view[OF sched_okD(6)[OF proc_okD(2)[OF assms(1)]], of FreeQ] by (simp add: sys_createthread_def)
  then show ?thesis using assms by auto
next
  case (Cons c cs)
  obtain h where h: "list_first (Some FreeQ) (heap s) = Some (Some (TaskN c))" "list_del (Some (TaskN c)) (heap s) = Some h"
     "list_empty (Some FreeQ) (heap s) = Some False"
     "queues (heap (copy_task_union (running s) c (s\<lparr>heap := h\<rparr>))) (qmap (v\<lparr>v_free := cs\<rparr>))"
     "\<not> enqueued (v\<lparr>v_free := cs\<rparr>) c"
    using thread_start[OF assms(1) Cons] by blast
  define s1 where "s1 = copy_task_union (running s) c (s\<lparr>heap := h\<rparr>)"
  obtain us s2 where a: "alloc_k s1 = (us, s2)" by fastforce
  have m1: "mm s1 = mm s" by (simp add: s1_def copy_task_union_def)
  then obtain m2 where m2: "s2 = s1\<lparr>mm := m2\<rparr>" "mm_ok m2" "dir_pages m2 = dir_pages (mm s)"
    using alloc_k_mm[OF _ a] proc_okD(5)[OF assms(1)] by auto
  note run = assms(2)[unfolded sys_createthread_def list_head_to_task_struct_def]
  obtain s3 where s3: "store_user (us + 4 * 1021) 0 s2 = Some s3"
    using run h(1-3) a by (auto simp: s1_def[symmetric] Let_def split: bind_splits)
  obtain s4 where s4: "store_user (us + 4 * 1022) func s3 = Some s4"
    using run h(1-3) a s3 by (auto simp: s1_def[symmetric] Let_def split: bind_splits)
  obtain s5 where s5: "store_user (us + 4 * 1023) param s4 = Some s5"
    using run h(1-3) a s3 s4 by (auto simp: s1_def[symmetric] Let_def split: bind_splits)
  obtain m3 where m3: "s3 = s1\<lparr>mm := m3\<rparr>" "mm_ok m3" "dir_pages m3 = dir_pages (mm s)"
    using store_user_mm[OF s3[unfolded m2(1)] m2(2,3)] by blast
  obtain m4 where m4: "s4 = s1\<lparr>mm := m4\<rparr>" "mm_ok m4" "dir_pages m4 = dir_pages (mm s)"
    using store_user_mm[OF s4[unfolded m3(1)] m3(2,3)] by blast
  obtain m5 where m5: "s5 = s1\<lparr>mm := m5\<rparr>" "mm_ok m5" "dir_pages m5 = dir_pages (mm s)"
    using store_user_mm[OF s5[unfolded m4(1)] m4(2,3)] by blast
  obtain h' where h': "list_add_tail (Some (TaskN c)) (Some ReadyQ) (heap (thread_slot tw us c s5)) = Some h'"
     "proc_ok ((thread_slot tw us c s5)\<lparr>heap := h'\<rparr>) (spawned v)"
    using thread_finish[OF assms(1) Cons h(4)[folded s1_def] h(5) s1_def m5(2,3)] unfolding m5(1) by blast
  have "s' = (thread_slot tw us c s5)\<lparr>heap := h'\<rparr>"
    using run h(1-3) a s3 s4 s5 h'(1) by (simp add: s1_def[symmetric] Let_def)
  then show ?thesis using h'(2) by blast
qed

section \<open>A kernel for the concrete instances\<close>

lemma pool_word_nz: "f \<in> pool \<Longrightarrow> (of_nat f :: DWord) \<noteq> 0"
  using frame_word[of f] pool_bounds[of f] by (metis unat_0 not_numeral_le_zero)

lemma data_pages_take_256:
  assumes "fork_data_pages t 20 0 m = (r, m')" "free_frames (phys_mem m) = pool"
  shows "256 \<notin> free_frames (phys_mem m')"
proof -
  have p: "Min pool = 256" by (rule Min_eqI) (auto simp: pool_def layout_defs)
  have al: "alloc_frame (phys_mem m) = (256, (phys_mem m)(256 := USED_FRAME))"
    using card_pool assms(2) p by (auto simp: alloc_frame_first)
  let ?m1 = "map_in t 264 256 (m\<lparr>phys_mem := (phys_mem m)(256 := USED_FRAME)\<rparr>)"
  have "fork_data_pages t (Suc 19) 0 m = (r, m')" using assms(1) by simp
  then have "fork_data_pages t 19 1 ?m1 = (r, m')" unfolding fork_data_pages.simps al by (simp add: layout_defs)
  then have "free_frames (phys_mem m') \<subseteq> free_frames (phys_mem ?m1)" using fork_data_pages_frames by blast
  then show ?thesis by (auto simp: free_frames_def FREE_FRAME_def USED_FRAME_def)
qed

lemma proc_kernel:
  "\<exists>s. proc_ok s three_task_view \<and> dir_pages_baseAddr (current s) = 1 \<and> (\<forall>q. 264 \<le> q \<longrightarrow> q < 284 \<longrightarrow> pres (mm s) 1 q)
     \<and> card (free_frames (phys_mem (mm s))) = 364 \<and> 256 \<notin> free_frames (phys_mem (mm s))
     \<and> cpu_ebp s = stack_addr s (running s) (Suc 1000)
     \<and> global_PID s = 1000 \<and> (\<forall>q. 284 \<le> q \<longrightarrow> gf (mm s) 1 q = 0) \<and> (\<forall>i. list_sem s i = \<lparr>isInit = 0, counter = 0\<rparr>)
     \<and> (\<forall>q. 264 \<le> q \<longrightarrow> q < 284 \<longrightarrow> gf (mm s) 1 q \<noteq> 0) \<and> (\<forall>i. PID (tasks s i) = 0) \<and> kbd s = kbd_init"
proof -
  obtain h where h: "queues h (qmap three_task_view)"
    using views_build[of three_task_view] by (auto simp: three_task_view_def)
  have vok: "view_ok three_task_view"
    unfolding view_ok_def enqueued_iff by (auto simp: three_task_view_def NR_TASKS_def)
  let ?m0 = "init_dir_pages (zero_mm\<lparr>phys_mem := snd (init_frames (\<lambda>_. 0))\<rparr>)"
  have g0: "gf ?m0 t q = 0" for t q
    by (simp add: gf_def init_dir_pages_frame get_frame_def pte_defs zero_mm_def)
  have f0: "free_frames (phys_mem ?m0) = pool" by (simp add: init_dir_pages_frame init_frames_free)
  have ok0: "mm_ok ?m0" by (simp add: mm_ok_def g0)
  obtain r m1 where m1: "fork_data_pages 1 20 0 ?m0 = (r, m1)" by fastforce
  from fork_data_pages_frames[OF m1] obtain frs where frs: "length frs = 20" "distinct frs" "set frs \<subseteq> pool"
     "free_frames (phys_mem m1) = pool - set frs"
     "\<forall>u q. gf m1 u q = (if u = 1 \<and> 264 \<le> q \<and> q < 284 then of_nat (frs ! (q - 264)) else gf ?m0 u q)"
     "\<forall>u q. pres m1 u q \<longleftrightarrow> (u = 1 \<and> 264 \<le> q \<and> q < 284) \<or> pres ?m0 u q" "dir_pages m1 = dir_pages ?m0" "mm_ok m1"
    using ok0 by (auto simp: f0 card_pool)
  have c: "card (free_frames (phys_mem m1)) = 364"
    unfolding frs(4) using frs(1-3) by (simp add: card_Diff_subset card_pool distinct_card)
  have n256: "256 \<notin> free_frames (phys_mem m1)" by (rule data_pages_take_256[OF m1 f0])
  let ?s = "kernel_image (\<lambda>_. 0) (\<lambda>_. 0) 0\<lparr>heap := h, running := 1, idle_task := Some 0, mm := m1,
      tasks := \<lambda>i. zero_task\<lparr>dir_pages_baseAddr := (if i < 10 then i else 0)\<rparr>, cpu_ebp := 8100\<rparr>"
  have "sched_ok ?s three_task_view"
    using h vok by (simp add: sched_ok_def views_def three_task_view_def kernel_image_def zero_task_def)
  moreover have "sem_ok ?s three_task_view" by (simp add: sem_ok_def kernel_image_def three_task_view_def)
  moreover have "mem_ok ?s"
    using frs(8) PT_of_dir_cong[OF frs(7)] init_dir_pages_table
    by (simp add: mem_ok_def PT_of_dir_def NR_TASKS_def)
  ultimately have "proc_ok ?s three_task_view"
    by (simp add: proc_ok_def kernel_ok_def)
  moreover have "gf m1 1 q \<noteq> 0" if "264 \<le> q" "q < 284" for q
  proof -
    have "frs ! (q - 264) \<in> set frs" using that frs(1) by simp
    then have "frs ! (q - 264) \<in> pool" using frs(3) by blast
    then show ?thesis using frs(5) that pool_word_nz by simp
  qed
  ultimately show ?thesis
    using c n256 frs(5,6) g0
    by (intro exI[of _ ?s]) (simp add: current_def zero_task_def kernel_image_def stack_addr_def)
qed

section \<open>Properties\<close>

lemma nat_below_20: "j < 20 \<longleftrightarrow> j \<in> {0..<20::nat}"
  by simp

lemma fork_child:
  assumes "proc_ok s v" "v_free v = c # cs" "20 \<le> card (free_frames (phys_mem (mm s)))"
    and "dir_pages_baseAddr (current s) = par" "par \<noteq> c" "\<forall>q\<in>{264..<284}. pres (mm s) par q"
    and "cpu_ebp s = stack_addr s (running s) (Suc k)" "Suc k < 1024"
  obtains s' frs where "sys_fork rff s = Some (global_PID s + 1, s')" "proc_ok s' (spawned v)"
     "forked par c frs (mm s) (mm s')"
     "global_PID s' = global_PID s + 1" "\<forall>i. i \<noteq> c \<longrightarrow> tasks s' i = tasks s i \<and> kstack s' i = kstack s i"
     "PID (tasks s' c) = global_PID s + 1" "dir_pages_baseAddr (tasks s' c) = c" "register_esp (tasks s' c) = stack_addr s' c k"
     "kstack s' c = (kstack s (running s))(Suc k := rff, k := kstack s (running s) (Suc k))"
proof -
  have "par < 10" using proc_okD(7,8)[OF assms(1)] assms(4) by simp
  moreover have "\<And>q. 264 \<le> q \<Longrightarrow> q < 284 \<Longrightarrow> pres (mm s) par q" using assms(6) by simp
  ultimately obtain s' frs where r: "sys_fork rff s = Some (global_PID s + 1, s')" "kernel_ok s' (spawned v)" "mem_ok s'" "forked par c frs (mm s) (mm s')"
     "global_PID s' = global_PID s + 1" "\<forall>i. i \<noteq> c \<longrightarrow> tasks s' i = tasks s i \<and> kstack s' i = kstack s i"
     "PID (tasks s' c) = global_PID s + 1" "dir_pages_baseAddr (tasks s' c) = c" "register_esp (tasks s' c) = stack_addr s c k"
     "kstack s' c = (kstack s (running s))(Suc k := rff, k := kstack s (running s) (Suc k))" "stack_addr s' = stack_addr s"
    using sys_fork_run[OF proc_okD(1)[OF assms(1)] proc_okD(4)[OF assms(1)] assms(2,4) _ assms(5,3) _ assms(7,8), of rff]
    by blast
  have "proc_ok s' (spawned v)"
  proof -
    have "dir_pages_baseAddr (tasks s' i) < 10" if "i < 10" for i
      using that r(6,8) proc_okD(9)[OF assms(1) that] by (cases "i = c") simp_all
    then show ?thesis using r(2,3) by (simp add: proc_ok_def)
  qed
  then show thesis using that[of s' frs] r by simp
qed

text \<open>
  C18: \<open>sys_fork\<close> makes a process with a memory of its own. With a free slot and 20 free frames it
  returns the next PID and queues a ready child whose data pages are 20 distinct frames that
  were free, holding what the parent's data pages hold; the child shares the parent's kernel and
  code frames, no other frame changes, and the invariant (so: no data frame in two page tables)
  is kept. Two effects the code does not announce are part of it: the parent loses every page
  it had at 284 to 303, where the child's pages are mapped for the copy, and every page of the
  child below 284, the kernel's included, is writable from user mode.
\<close>

theorem fork_copies_process:
  assumes "proc_ok s v" "v_free v = c # cs" "20 \<le> card (free_frames (phys_mem (mm s)))"
    and "dir_pages_baseAddr (current s) = par" "par \<noteq> c" "\<forall>q\<in>{264..<284}. pres (mm s) par q"
    and "cpu_ebp s = stack_addr s (running s) (Suc k)" "Suc k < 1024"
  shows "\<exists>s'. sys_fork rff s = Some (global_PID s + 1, s')
     \<and> proc_ok s' (v\<lparr>v_free := cs, v_ready := v_ready v @ [c]\<rparr>)
     \<and> PID (tasks s' c) = global_PID s + 1 \<and> global_PID s' = global_PID s + 1 \<and> dir_pages_baseAddr (tasks s' c) = c
     \<and> distinct (map (gf (mm s') c) [264..<284])
     \<and> unat ` gf (mm s') c ` {264..<284} \<subseteq> free_frames (phys_mem (mm s))
     \<and> map (\<lambda>q. frame_mem (mm s') (unat (gf (mm s') c q))) [264..<284]
        = map (\<lambda>q. frame_mem (mm s) (unat (gf (mm s) par q))) [264..<284]
     \<and> map (gf (mm s') c) [0..<264] = map (gf (mm s) par) [0..<264]
     \<and> gf (mm s') par = (\<lambda>q. if 284 \<le> q \<and> q < 304 then 0 else gf (mm s) par q)
     \<and> list_all (usr (mm s') c) [0..<284]
     \<and> (\<forall>f. f \<in> unat ` gf (mm s') c ` {264..<284} \<or> frame_mem (mm s') f = frame_mem (mm s) f)"
proof -
  from assms obtain s' frs where r: "sys_fork rff s = Some (global_PID s + 1, s')" "proc_ok s' (spawned v)"
     "forked par c frs (mm s) (mm s')"
     "global_PID s' = global_PID s + 1" "PID (tasks s' c) = global_PID s + 1" "dir_pages_baseAddr (tasks s' c) = c"
    by (rule fork_child[where rff = rff]) blast
  note f = forkedD[OF r(3)]
  note fw = free_frame_word(1)[OF f(3), unfolded f(1)]
  have g: "unat (gf (mm s') c q) = frs ! (q - 264)" if "264 \<le> q" "q < 284" for q
    using that f(5)[of c q] fw by simp
  have im: "unat ` gf (mm s') c ` {264..<284} = set frs"
    using frames_of_pages[OF _ f(3), of "mm s'" c] by (simp add: f(1,5) image_image)
  have "inj_on (gf (mm s') c) {264..<284}"
  proof (rule inj_onI)
    fix p q assume a: "p \<in> {264..<284}" "q \<in> {264..<284}" "gf (mm s') c p = gf (mm s') c q"
    then have "frs ! (p - 264) = frs ! (q - 264)" using g[of p] g[of q] by simp
    then have "p - 264 = q - 264" using f(1,2) a(1,2) nth_eq_iff_index_eq[of frs "p - 264" "q - 264"] by auto
    then show "p = q" using a(1,2) by auto
  qed
  then have "distinct (map (gf (mm s') c) [264..<284])" by (simp only: distinct_map distinct_upt set_upt simp_thms)
  moreover have "map (\<lambda>q. frame_mem (mm s') (unat (gf (mm s') c q))) [264..<284]
        = map (\<lambda>q. frame_mem (mm s) (unat (gf (mm s) par q))) [264..<284]"
  proof (rule map_cong[OF refl])
    fix q :: nat assume "q \<in> set [264..<284]"
    then have q: "264 \<le> q" "q < 284" unfolding set_upt by simp_all
    then show "frame_mem (mm s') (unat (gf (mm s') c q)) = frame_mem (mm s) (unat (gf (mm s) par q))"
      using f(7)[of "q - 264"] g[OF q] by simp
  qed
  moreover have "map (gf (mm s') c) [0..<264] = map (gf (mm s) par) [0..<264]"
    by (rule map_cong[OF refl], unfold set_upt) (simp add: f(5))
  moreover have "gf (mm s') par = (\<lambda>q. if 284 \<le> q \<and> q < 304 then 0 else gf (mm s) par q)"
    using assms(5) by (intro ext) (simp add: f(5))
  moreover have "list_all (usr (mm s') c) [0..<284]" unfolding list_all_iff set_upt using f(6) by simp
  moreover have "\<forall>f. f \<in> unat ` gf (mm s') c ` {264..<284} \<or> frame_mem (mm s') f = frame_mem (mm s) f"
    unfolding im using f(8) by blast
  moreover have "proc_ok s' (v\<lparr>v_free := cs, v_ready := v_ready v @ [c]\<rparr>)"
    using r(2) assms(2) by (simp add: spawned_def)
  ultimately show ?thesis using r(1,4-6) f(3) unfolding im[symmetric] by blast
qed

theorem fork_copies_process_witness:
  "\<exists>s s'. proc_ok s three_task_view \<and> sys_fork 77 s = Some (1001, s')
     \<and> proc_ok s' (three_task_view\<lparr>v_free := [5..<10], v_ready := [2, 3, 4]\<rparr>)
     \<and> list_all (usr (mm s') 4) [0..<284]"
proof -
  obtain s where s: "proc_ok s three_task_view" "dir_pages_baseAddr (current s) = 1"
    "\<forall>q. 264 \<le> q \<longrightarrow> q < 284 \<longrightarrow> pres (mm s) 1 q" "card (free_frames (phys_mem (mm s))) = 364"
    "cpu_ebp s = stack_addr s (running s) (Suc 1000)" "global_PID s = 1000"
    using proc_kernel by blast
  have v: "v_free three_task_view = 4 # [5..<10]" "v_ready three_task_view @ [4] = [2, 3, 4]"
    by (simp_all add: three_task_view_def upt_rec)
  have "20 \<le> card (free_frames (phys_mem (mm s)))" "(1::nat) \<noteq> 4" "\<forall>q\<in>{264..<284}. pres (mm s) 1 q" "Suc 1000 < 1024"
    using s(3,4) by simp_all
  from fork_copies_process[OF s(1) v(1) this(1) s(2) this(2,3) s(5) this(4), of 77] show ?thesis
    unfolding v(2) using s(1,6) by auto
qed

text \<open>
  C19: The child of \<open>sys_fork\<close> resumes where its parent will, with 0 as its result: the switch to it
  pops the parent's frame pointer and returns into \<open>ret_from_fork\<close>; above the return address its
  kernel stack is a copy of the parent's, its directory and kernel stack are its own, and the
  parent's task and stack are untouched.
\<close>

theorem fork_child_resumes_as_parent:
  assumes "proc_ok s v" "v_free v = c # cs" "20 \<le> card (free_frames (phys_mem (mm s)))"
    and "dir_pages_baseAddr (current s) = par" "par \<noteq> c" "\<forall>q\<in>{264..<284}. pres (mm s) par q"
    and "cpu_ebp s = stack_addr s (running s) (Suc k)" "Suc k < 1024"
  shows "\<exists>s'. sys_fork rff s = Some (global_PID s + 1, s')
     \<and> cpu_eip (task_switch c s') = rff \<and> cpu_ebp (task_switch c s') = kstack s (running s) (Suc k)
     \<and> running (task_switch c s') = c \<and> cr3 (task_switch c s') = c
     \<and> tss_esp0 (task_switch c s') = stack_addr s' c KERNEL_STACK_SIZE
     \<and> map (kstack (task_switch c s') c) [k + 2..<1024] = map (kstack s (running s)) [k + 2..<1024]
     \<and> tasks s' (running s) = tasks s (running s) \<and> kstack s' (running s) = kstack s (running s)"
proof -
  from assms obtain s' where r: "sys_fork rff s = Some (global_PID s + 1, s')"
     "\<forall>i. i \<noteq> c \<longrightarrow> tasks s' i = tasks s i \<and> kstack s' i = kstack s i"
     "dir_pages_baseAddr (tasks s' c) = c" "register_esp (tasks s' c) = stack_addr s' c k"
     "kstack s' c = (kstack s (running s))(Suc k := rff, k := kstack s (running s) (Suc k))"
    by (rule fork_child[where rff = rff]) blast
  note c = free_slot_facts[OF proc_okD(2)[OF assms(1)] assms(2)]
  have run: "running s \<noteq> c" using c(2) proc_okD(10)[OF assms(1)] by simp
  have "cpu_ebp (task_switch c s') = kstack s (running s) (Suc k)" "cpu_eip (task_switch c s') = rff"
    using c(1) assms(8) r(4,5) by (simp_all add: task_switch_regs stack_addr_next read_stack_addr)
  moreover have "kstack (task_switch c s') = kstack s'"
    using task_switch_frame[of s' c] by (simp add: sched_frame_def)
  then have "map (kstack (task_switch c s') c) [k + 2..<1024] = map (kstack s (running s)) [k + 2..<1024]"
    using r(5) by (intro map_cong[OF refl]) (simp only: set_upt, simp)
  ultimately show ?thesis using r(1-3) run by (simp add: KERNEL_STACK_SIZE_def)
qed

theorem fork_child_resumes_as_parent_witness:
  "\<exists>s s'. proc_ok s three_task_view \<and> sys_fork 77 s = Some (1001, s') \<and> cpu_eip (task_switch 4 s') = 77
     \<and> cr3 (task_switch 4 s') = 4"
proof -
  obtain s where s: "proc_ok s three_task_view" "dir_pages_baseAddr (current s) = 1"
    "\<forall>q. 264 \<le> q \<longrightarrow> q < 284 \<longrightarrow> pres (mm s) 1 q" "card (free_frames (phys_mem (mm s))) = 364"
    "cpu_ebp s = stack_addr s (running s) (Suc 1000)" "global_PID s = 1000"
    using proc_kernel by blast
  have v: "v_free three_task_view = 4 # [5..<10]" by (simp add: three_task_view_def upt_rec)
  have h: "20 \<le> card (free_frames (phys_mem (mm s)))" "(1::nat) \<noteq> 4" "\<forall>q\<in>{264..<284}. pres (mm s) 1 q" "Suc 1000 < 1024"
    using s(3,4) by simp_all
  from fork_child_resumes_as_parent[OF s(1) v h(1) s(2) h(2,3) s(5) h(4), of 77] obtain s'
    where "sys_fork 77 s = Some (global_PID s + 1, s')" "cpu_eip (task_switch 4 s') = 77" "cr3 (task_switch 4 s') = 4" by blast
  then show ?thesis using s(1,6) by (intro exI[of _ s] exI[of _ s']) simp
qed

lemma sys_fork_some:
  assumes "proc_ok s v" "v_free v = c # cs" "fork_data_pages c 20 0 (mm s) = (Some pag, m1)"
  shows "\<exists>s'. sys_fork rff s = Some (- EAGAIN, s')"
proof -
  note so = proc_okD(2)[OF assms(1)]
  obtain s2 h where s2: "list_first (Some FreeQ) (heap s) = Some (Some (TaskN c))" "list_del (Some (TaskN c)) (heap s) = Some h"
     "s2 = snd (allocate_DIR c (copy_task_union (running s) c (s\<lparr>heap := h\<rparr>)))"
     "queues (heap s2) (qmap (v\<lparr>v_free := cs\<rparr>))" "get_PT s2 (tasks s2 c) = c" "mm s2 = mm s"
    using sys_fork_start[OF so proc_okD(4)[OF assms(1)] assms(2)] by blast
  have al: "allocate_DIR c (copy_task_union (running s) c (s\<lparr>heap := h\<rparr>)) = (1, s2)"
    unfolding s2(3) by (simp add: allocate_DIR_def)
  have e: "list_empty (Some FreeQ) (heap s) = Some False"
    using empty_view[OF sched_okD(6)[OF so], of FreeQ] assms(2) by simp
  obtain h' where "list_add_tail (Some (TaskN c)) (Some FreeQ) (heap s2) = Some h'"
    using add_tail_view[OF s2(4), of FreeQ cs c] taken_slot[OF sched_okD(6)[OF so] assms(2)] by auto
  then show ?thesis
    using e s2(1,2,5,6) al assms(3) by (simp add: sys_fork_def list_head_to_task_struct_def layout_defs Let_def)
qed

text \<open>
  C20: What a failed \<open>sys_fork\<close> leaves behind. Without a free slot it returns \<open>-ENOMEM\<close> and changes
  nothing. With fewer than 20 free frames it returns \<open>-EAGAIN\<close>, nothing is ready that was not,
  and all the frames it took are free again except 256; but the slot goes to the end of the free
  list as a copy of the parent, so it keeps the parent's PID instead of -1.
\<close>

theorem fork_without_resources:
  assumes "proc_ok s v" "v_free v = [] \<or> card (free_frames (phys_mem (mm s))) < 20"
  shows "if v_free v = [] then sys_fork rff s = Some (- ENOMEM, s)
     else \<exists>s'. sys_fork rff s = Some (- EAGAIN, s')
        \<and> proc_ok s' (v\<lparr>v_free := tl (v_free v) @ [hd (v_free v)]\<rparr>)
        \<and> free_frames (phys_mem (mm s')) = free_frames (phys_mem (mm s)) - {256}
        \<and> frame_mem (mm s') = frame_mem (mm s)
        \<and> PID (tasks s' (hd (v_free v))) = PID (current s) \<and> global_PID s' = global_PID s"
proof (cases "v_free v")
  case Nil
  then show ?thesis
    using empty_view[OF sched_okD(6)[OF proc_okD(2)[OF assms(1)]], of FreeQ] by (simp add: sys_fork_def)
next
  case (Cons c cs)
  note so = proc_okD(2)[OF assms(1)]
  note c = free_slot_facts[OF so Cons]
  have few: "card (free_frames (phys_mem (mm s))) < 20" using assms(2) Cons by simp
  obtain r0 m0 where dp: "fork_data_pages c 20 0 (mm s) = (r0, m0)" by fastforce
  from fork_data_pages_frames[OF dp, unfolded add_0_right diff_zero add_0] obtain frs where
     f: "length frs = min 20 (card (free_frames (phys_mem (mm s))))" "distinct frs"
     "set frs \<subseteq> free_frames (phys_mem (mm s))" "free_frames (phys_mem m0) = free_frames (phys_mem (mm s)) - set frs"
     "\<forall>u q. gf m0 u q = (if u = c \<and> 264 \<le> q \<and> q < 264 + length frs then of_nat (frs ! (q - 264)) else gf (mm s) u q)"
     "r0 = (if length frs = 20 then None else Some (length frs))" "frame_mem m0 = frame_mem (mm s)" by blast
  have len: "length frs = card (free_frames (phys_mem (mm s)))" and r0: "r0 = Some (length frs)"
    using f(1,6) few by simp_all
  have all: "set frs = free_frames (phys_mem (mm s))"
    using f(2,3) len by (intro card_subset_eq) (simp_all add: distinct_card)
  obtain s' where run: "sys_fork rff s = Some (- EAGAIN, s')"
    using sys_fork_some[OF assms(1) Cons dp[unfolded r0]] by blast
  from assms(1) Cons run show ?thesis
  proof (cases rule: sys_fork_cases)
    case (no_frames s2 m1 h pag)
    then have e: "m1 = m0" "pag = length frs" using dp r0 by simp_all
    have p: "264 + length frs \<le> 1024" "length frs \<le> 20" using few len by simp_all
    note rd = release_data_run[OF c(1) p(1), of m0] and dpk = fork_data_pages_keep[OF dp proc_okD(5)[OF assms(1)]]
    have "(\<lambda>q. unat (gf m0 c q)) ` {264..<264 + length frs} = set frs" by (rule frames_of_pages[OF _ f(3)]) (simp add: f(5))
    moreover have "free_frames (phys_mem (mm s)) \<subseteq> pool" by (auto simp: free_frames_def)
    ultimately have fr: "free_frames (phys_mem (release_data c (length frs) m0)) = free_frames (phys_mem (mm s)) - {256}"
      unfolding rd(5) f(4) all by blast
    have "proc_ok s' (v\<lparr>v_free := cs @ [c]\<rparr>)"
      by (rule slot_ok[OF assms(1) Cons _ view_ok_requeue[OF sched_okD(2)[OF so] Cons]])
         (use no_frames c(1) e rd(3,4) dpk in simp_all)
    moreover have "free_frames (phys_mem (mm s')) = free_frames (phys_mem (mm s)) - {256}"
       "frame_mem (mm s') = frame_mem (mm s)" "PID (tasks s' c) = PID (current s)" "global_PID s' = global_PID s"
      using no_frames(2,9,10) e fr rd(2) f(7) by simp_all
    ultimately show ?thesis using run Cons by (simp only: list.sel list.simps if_False) blast
  next
    case (child s2 m1 m4)
    then show ?thesis using dp r0 by simp
  qed
qed

theorem fork_without_resources_witness:
  "\<exists>s s'. proc_ok s three_task_view \<and> sys_fork 77 s = Some (- EAGAIN, s')
     \<and> proc_ok s' (three_task_view\<lparr>v_free := [5..<10] @ [4]\<rparr>) \<and> PID (tasks s' 4) = PID (current s)"
proof -
  obtain s where s: "proc_ok s three_task_view" using proc_kernel by blast
  let ?m = "(mm s)\<lparr>phys_mem := \<lambda>_. USED_FRAME\<rparr>"
  have e: "free_frames (\<lambda>_. USED_FRAME) = {}" by (simp add: free_frames_def USED_FRAME_def FREE_FRAME_def)
  have "mm_ok ?m" using proc_okD(5)[OF s] by (simp add: mm_ok_def e)
  then have ok: "proc_ok (s\<lparr>mm := ?m\<rparr>) three_task_view" by (intro proc_ok_mm[OF s]) simp_all
  have v: "v_free three_task_view = 4 # [5..<10]" by (simp add: three_task_view_def upt_rec)
  have f: "v_free three_task_view = [] \<or> card (free_frames (phys_mem (mm (s\<lparr>mm := ?m\<rparr>)))) < 20" using e by simp
  show ?thesis
    using fork_without_resources[OF ok f, of 77] ok unfolding v by auto
qed

text \<open>
  C21: \<open>sys_exit\<close> gives back the slot and the data pages and never returns: the 20 data pages of the
  process are unmapped and their frames free again (all but 256), the slot goes to the end of the
  free list with PID -1, and the first ready task, or the idle task, runs on its own directory
  from its saved context. Every other entry of every page table stays, so the pages the process
  had from \<open>alloc\<close> keep their frames.
\<close>

theorem exit_releases_and_switches:
  assumes "proc_ok s v" "v_run v \<noteq> v_idle v" "dir_pages_baseAddr (current s) = t"
  shows "\<exists>s'. sys_exit s = Some s' \<and> proc_ok s' (next_view (v\<lparr>v_free := v_free v @ [v_run v]\<rparr>))
     \<and> running s' = hd (v_ready v @ [v_idle v]) \<and> PID (tasks s' (running s)) = -1
     \<and> gf (mm s') = (\<lambda>u q. if u = t \<and> 264 \<le> q \<and> q < 284 then 0 else gf (mm s) u q)
     \<and> free_frames (phys_mem (mm s')) = free_frames (phys_mem (mm s))
          \<union> ((\<lambda>p. unat (gf (mm s) t p)) ` {264..<284} \<inter> (pool - {256}))
     \<and> frame_mem (mm s') = frame_mem (mm s)
     \<and> cr3 s' = dir_pages_baseAddr (tasks s (running s'))
     \<and> cpu_ebp s' = read_stack s (register_esp (tasks s (running s')))"
proof -
  note t = proc_okD(7,8)[OF assms(1), unfolded assms(3)]
  let ?w = "v\<lparr>v_free := v_free v @ [v_run v]\<rparr>" and ?m = "release_data t 20 (mm s)"
  obtain s' where s': "sys_exit s = Some s'" "proc_ok s' (next_view ?w)" "mm s' = ?m"
     "switched (v_run (next_view ?w)) (upd_task (v_run v) (\<lambda>ts. ts\<lparr>PID := -1\<rparr>) (s\<lparr>mm := ?m\<rparr>)) s'"
    using sys_exit_run[OF assms(1,2)] unfolding t(1) by blast
  have tl: "t < 10" using t by simp
  note rd = release_data_run[OF tl, of 20 "mm s"]
  have r: "running s' = v_run (next_view ?w)" using proc_okD(10)[OF s'(2)] .
  then have "running s' = hd (v_ready v @ [v_idle v])" by (simp add: next_view_def split: list.splits)
  moreover have "PID (tasks s' (running s)) = -1"
    using s'(4) proc_okD(10)[OF assms(1)] by (simp add: switched_def sched_frame_def upd_task_def)
  moreover have "cr3 s' = dir_pages_baseAddr (tasks s (running s'))"
     "cpu_ebp s' = read_stack s (register_esp (tasks s (running s')))"
    using s'(4) unfolding r by (auto simp: switched_def upd_task_def read_stack_def stack_slot_def stack_index_def)
  moreover have "gf (mm s') = (\<lambda>u q. if u = t \<and> 264 \<le> q \<and> q < 284 then 0 else gf (mm s) u q)"
    unfolding s'(3) by (intro ext) (simp add: rd(1))
  moreover have "free_frames (phys_mem (mm s')) = free_frames (phys_mem (mm s))
          \<union> ((\<lambda>p. unat (gf (mm s) t p)) ` {264..<284} \<inter> (pool - {256}))" "frame_mem (mm s') = frame_mem (mm s)"
    unfolding s'(3) using rd(2,5) by simp_all
  ultimately show ?thesis using s'(1,2) by blast
qed

theorem exit_releases_and_switches_witness:
  "\<exists>s s'. proc_ok s three_task_view \<and> sys_exit s = Some s' \<and> running s' = 2 \<and> PID (tasks s' 1) = -1
     \<and> gf (mm s') 1 264 = 0"
proof -
  obtain s where s: "proc_ok s three_task_view" "dir_pages_baseAddr (current s) = 1" using proc_kernel by blast
  have v: "v_run three_task_view \<noteq> v_idle three_task_view" "v_ready three_task_view = [2, 3]" "v_run three_task_view = 1"
    by (simp_all add: three_task_view_def)
  from exit_releases_and_switches[OF s(1) v(1) s(2)] obtain s' where "sys_exit s = Some s'"
    "running s' = hd (v_ready three_task_view @ [v_idle three_task_view])" "PID (tasks s' (running s)) = -1"
    "gf (mm s') = (\<lambda>u q. if u = 1 \<and> 264 \<le> q \<and> q < 284 then 0 else gf (mm s) u q)" by blast
  then show ?thesis using s(1) v proc_okD(10)[OF s(1)] by (intro exI[of _ s] exI[of _ s']) simp
qed

text \<open>
  C22: \<open>sys_alloc\<close> maps the lowest page from 284 on that has no frame to the lowest free frame,
  present and writable for the user, and returns its address; nothing else changes, and no page
  above the kernel's of any task was mapped to that frame. When all pages have frames, or no frame
  is free, it returns \<open>-ENOMEM\<close> and changes nothing.
\<close>

theorem alloc_maps_fresh_page:
  assumes "proc_ok s v" "dir_pages_baseAddr (current s) = t"
  shows "let pages = {p. 284 \<le> p \<and> p < 1024 \<and> gf (mm s) t p = 0}; free = free_frames (phys_mem (mm s)) in
     if pages = {} \<or> free = {} then sys_alloc s = (- ENOMEM, s)
     else \<exists>s'. sys_alloc s = (of_nat (4096 * Min pages), s') \<and> proc_ok s' v
        \<and> gf (mm s') = (\<lambda>u q. if u = t \<and> q = Min pages then of_nat (Min free) else gf (mm s) u q)
        \<and> usr (mm s') t (Min pages) \<and> free_frames (phys_mem (mm s')) = free - {Min free}
        \<and> frame_mem (mm s') = frame_mem (mm s)
        \<and> (\<forall>u<10. \<forall>q\<in>{256..<1024}. gf (mm s) u q \<noteq> of_nat (Min free))"
proof -
  let ?P = "unmapped_pages (mm s) t" and ?F = "free_frames (phys_mem (mm s))"
  have t: "get_PT s (current s) = t" using proc_okD(7)[OF assms(1)] assms(2) by simp
  have P: "{p. 284 \<le> p \<and> p < 1024 \<and> gf (mm s) t p = 0} = ?P" by (simp add: unmapped_pages_def)
  show ?thesis
  proof (cases "?P = {} \<or> ?F = {}")
    case True
    then have "sys_alloc s = (- ENOMEM, s)" by (simp add: sys_alloc_def alloc_k_run t)
    then show ?thesis unfolding P Let_def using True by (simp only: if_True)
  next
    case False
    let ?p = "Min ?P" and ?f = "Min ?F"
    let ?m = "map_in t ?p (of_nat ?f) ((mm s)\<lparr>phys_mem := (phys_mem (mm s))(?f := USED_FRAME)\<rparr>)"
    have run: "alloc_k s = (push_bit 12 (of_nat ?p), s\<lparr>mm := ?m\<rparr>)"
      using False by (simp add: alloc_k_run t Let_def)
    have f: "?f \<in> ?F" "?f \<in> pool" using False Min_in[of ?F] by (auto simp: free_frames_def)
    have addr: "(push_bit 12 (of_nat ?p) :: DWord) = of_nat (4096 * ?p)"
      by (simp add: push_bit_eq_mult mult.commute)
    have "gf (mm s) u q \<noteq> of_nat ?f" if "u < 10" "q \<in> {256..<1024}" for u q
      using mm_okD(1)[OF proc_okD(5)[OF assms(1)] that(1), of q] that(2) f frame_word[OF f(2)] pool_word_nz[OF f(2)]
      by auto
    moreover have "gf ?m = (\<lambda>u q. if u = t \<and> q = ?p then of_nat ?f else gf (mm s) u q)"
      using pool_frame_mask[OF f(2)] by (intro ext) simp
    moreover have "free_frames (phys_mem ?m) = ?F - {?f}" using free_frames_use[OF f(1)] by simp
    moreover have "frame_mem ?m = frame_mem (mm s)" "usr ?m t ?p" by simp_all
    ultimately show ?thesis
      unfolding P Let_def using False run alloc_k_keeps[OF assms(1) run] addr
      by (simp only: if_False sys_alloc_def) (intro exI[of _ "s\<lparr>mm := ?m\<rparr>"], simp)
  qed
qed

theorem alloc_maps_fresh_page_witness:
  "\<exists>s s'. proc_ok s three_task_view \<and> sys_alloc s = (284 * 4096, s') \<and> usr (mm s') 1 284"
proof -
  obtain s where s: "proc_ok s three_task_view" "dir_pages_baseAddr (current s) = 1"
    "card (free_frames (phys_mem (mm s))) = 364" "\<forall>q. 284 \<le> q \<longrightarrow> gf (mm s) 1 q = 0" using proc_kernel by blast
  have P: "{p. 284 \<le> p \<and> p < 1024 \<and> gf (mm s) 1 p = 0} = {284..<1024}" using s(4) by auto
  have M: "Min {284..<1024::nat} = 284" by (intro Min_eqI) auto
  have "free_frames (phys_mem (mm s)) \<noteq> {}" "{284..<1024::nat} \<noteq> {}" using s(3) by auto
  then show ?thesis
    using alloc_maps_fresh_page[OF s(1,2)] s(1) unfolding P M Let_def by auto
qed

lemma sys_dealloc_run:
  assumes "proc_ok s v" "dir_pages_baseAddr (current s) = t"
  shows "sys_dealloc a s =
     (if unat a div 4096 < 284 \<or> 1024 \<le> unat a div 4096 then (- EACCES, s)
      else if gf (mm s) t (unat a div 4096) = 0 then (- EFAULT, s)
      else (0, s\<lparr>mm := release_page t (unat a div 4096) (mm s), cr3 := t\<rparr>))"
proof -
  have "unat (drop_bit 12 a) = drop_bit 12 (unat a)" by (rule unat_drop_bit_eq)
  also have "\<dots> = unat a div 4096" by (simp add: drop_bit_eq_div)
  finally have "unat (drop_bit 12 a) = unat a div 4096" .
  then show ?thesis
    using proc_okD(7)[OF assms(1)] assms(2) by (simp add: sys_dealloc_def dealloc_k_run)
qed

text \<open>
  C23: \<open>sys_dealloc\<close> undoes \<open>sys_alloc\<close>: given the address of the last allocation it returns 0, every
  page table is as before, and the frame is free again unless it is 256. A second release of the
  same address fails with \<open>-EFAULT\<close>, and any address outside the pages 284 to 1023 with
  \<open>-EACCES\<close>, both without effect.
\<close>

theorem dealloc_undoes_alloc:
  assumes "proc_ok s v" "sys_alloc s = (a, s1)" "a \<noteq> - ENOMEM"
  shows "\<exists>s2. sys_dealloc a s1 = (0, s2) \<and> proc_ok s2 v \<and> gf (mm s2) = gf (mm s)
     \<and> free_frames (phys_mem (mm s2)) = free_frames (phys_mem (mm s)) - {256}
     \<and> frame_mem (mm s2) = frame_mem (mm s)
     \<and> sys_dealloc a s2 = (- EFAULT, s2)
     \<and> (\<forall>b. unat b div 4096 \<in> {284..<1024} \<or> sys_dealloc b s2 = (- EACCES, s2))"
proof -
  define t where "t = dir_pages_baseAddr (current s)"
  have t: "get_PT s (current s) = t" using proc_okD(7)[OF assms(1)] by (simp add: t_def)
  let ?P = "unmapped_pages (mm s) t" and ?F = "free_frames (phys_mem (mm s))"
  let ?p = "Min ?P" and ?f = "Min ?F"
  have ne: "?P \<noteq> {}" "?F \<noteq> {}" using assms(2,3) by (auto simp: sys_alloc_def alloc_k_run t)
  define m where "m = map_in t ?p (of_nat ?f) ((mm s)\<lparr>phys_mem := (phys_mem (mm s))(?f := USED_FRAME)\<rparr>)"
  have s1: "a = push_bit 12 (of_nat ?p)" "s1 = s\<lparr>mm := m\<rparr>"
    using assms(2) ne by (simp_all add: sys_alloc_def alloc_k_run t m_def Let_def)
  have ok1: "proc_ok s1 v" using alloc_k_keeps[OF assms(1)] assms(2) by (simp add: sys_alloc_def)
  have f: "?f \<in> ?F" "?f \<in> pool" using ne Min_in[of ?F] by (auto simp: free_frames_def)
  have p: "284 \<le> ?p" "?p < 1024" "gf (mm s) t ?p = 0" using Min_unmapped[OF ne(1)] by (auto simp: unmapped_pages_def)
  have a: "unat a div 4096 = ?p"
  proof -
    have "a = of_nat (4096 * ?p)" using s1(1) by (simp add: push_bit_eq_mult mult.commute)
    then have "unat a = 4096 * ?p" using p(2) by (simp only: unat_of_nat) (simp add: take_bit_nat_eq_self)
    then show ?thesis by simp
  qed
  have g: "gf m = (\<lambda>u q. if u = t \<and> q = ?p then of_nat ?f else gf (mm s) u q)"
    unfolding m_def using pool_frame_mask[OF f(2)] by (intro ext) simp
  have nz: "(of_nat ?f :: DWord) \<noteq> 0" by (rule pool_word_nz[OF f(2)])
  have d1: "dir_pages_baseAddr (current s1) = t" by (simp add: s1(2) current_def t_def)
  define s2 where "s2 = s1\<lparr>mm := release_page t ?p m, cr3 := t\<rparr>"
  have r: "sys_dealloc a s1 = (0, s2)"
    unfolding sys_dealloc_run[OF ok1 d1] a using p g nz by (simp add: s1(2) s2_def)
  have ok2: "proc_ok s2 v" using dealloc_k_keeps[OF ok1] r by (simp add: sys_dealloc_def)
  have g2: "gf (mm s2) = gf (mm s)" using p(3) g by (intro ext) (simp add: s2_def)
  have "free_frames (phys_mem (mm s2)) = (?F - {?f}) \<union> ({?f} \<inter> (pool - {256}))"
    using g frame_word[OF f(2)] free_frames_use[OF f(1)] by (simp add: s2_def free_frame_frames m_def)
  moreover have "(F - {f}) \<union> ({f} \<inter> (P - {256})) = F - {256}"
    if "f \<in> F" "f \<in> P" "f = 256 \<or> 256 \<notin> F" for f :: nat and F P using that by auto
  moreover have "?f = 256 \<or> 256 \<notin> ?F"
  proof (cases "256 \<in> ?F")
    case True
    then have "?f \<le> 256" by simp
    then show ?thesis using pool_bounds[OF f(2)] by simp
  qed simp
  ultimately have fr: "free_frames (phys_mem (mm s2)) = ?F - {256}" using f by simp
  have d2: "dir_pages_baseAddr (current s2) = t" using d1 by (simp add: s2_def current_def)
  have "sys_dealloc a s2 = (- EFAULT, s2)" using p g2 by (simp add: sys_dealloc_run[OF ok2 d2] a)
  moreover have "unat b div 4096 \<in> {284..<1024} \<or> sys_dealloc b s2 = (- EACCES, s2)" for b
    by (auto simp: sys_dealloc_run[OF ok2 d2])
  moreover have "frame_mem (mm s2) = frame_mem (mm s)" by (simp add: s2_def m_def)
  ultimately show ?thesis using r ok2 g2 fr by blast
qed

theorem dealloc_undoes_alloc_witness:
  "\<exists>s a s1 s2. proc_ok s three_task_view \<and> sys_alloc s = (a, s1) \<and> a \<noteq> - ENOMEM \<and> sys_dealloc a s1 = (0, s2)
     \<and> gf (mm s2) = gf (mm s) \<and> sys_dealloc a s2 = (- EFAULT, s2)"
proof -
  obtain s where s: "proc_ok s three_task_view" "dir_pages_baseAddr (current s) = 1"
    "card (free_frames (phys_mem (mm s))) = 364" "\<forall>q. 284 \<le> q \<longrightarrow> gf (mm s) 1 q = 0" using proc_kernel by blast
  have P: "unmapped_pages (mm s) 1 = {284..<1024}" using s(4) by (auto simp: unmapped_pages_def)
  have M: "Min {284..<1024::nat} = 284" by (intro Min_eqI) auto
  have t: "get_PT s (current s) = 1" using proc_okD(7)[OF s(1)] s(2) by simp
  have "free_frames (phys_mem (mm s)) \<noteq> {}" "{284..<1024::nat} \<noteq> {}" using s(3) by auto
  then have "fst (sys_alloc s) = push_bit 12 284"
    unfolding sys_alloc_def alloc_k_run t P Let_def M by (simp only: simp_thms if_False fst_conv) simp
  then obtain s1 where a: "sys_alloc s = (push_bit 12 284, s1)" by (metis prod.collapse)
  have n: "(push_bit 12 284 :: DWord) \<noteq> - ENOMEM" by (simp add: ENOMEM_def)
  show ?thesis using dealloc_undoes_alloc[OF s(1) a n] s(1) a n by blast
qed

lemma thread_slot_run:
  assumes "c < 10"
  shows "kstack (thread_slot tw us c s) = (kstack s)(c := (kstack s c)(1022 := us + 4 * 1021, 1019 := tw))"
    and "tasks (thread_slot tw us c s) = (tasks s)(c := (tasks s c)\<lparr>register_esp := stack_addr s c 1006,
           TID := global_TID s + 1, tstate := ST_READY\<rparr>)"
    and "mm (thread_slot tw us c s) = mm s" "task_base (thread_slot tw us c s) = task_base s"
  using assms by (simp_all add: thread_slot_def KERNEL_STACK_SIZE_def write_stack_addr upd_task_def Let_def)

lemma page_address:
  assumes "p < 1024" "k < 1024"
  shows "unat (of_nat (4096 * p) + 4 * of_nat k :: DWord) = 4096 * p + 4 * k"
    and "unat (drop_bit 12 (of_nat (4096 * p) + 4 * of_nat k :: DWord)) = p"
proof -
  have "(of_nat (4096 * p) + 4 * of_nat k :: DWord) = of_nat (4096 * p + 4 * k)" by simp
  then show u: "unat (of_nat (4096 * p) + 4 * of_nat k :: DWord) = 4096 * p + 4 * k"
    using assms by (simp only: unat_of_nat) (simp add: take_bit_nat_eq_self)
  show "unat (drop_bit 12 (of_nat (4096 * p) + 4 * of_nat k :: DWord)) = p"
    unfolding unat_drop_bit_eq u using assms(2) by (simp add: drop_bit_eq_div)
qed

lemma store_user_page:
  assumes "get_PT s (current s) = t" "p < 1024" "k < 1024" "pres (mm s) t p" "unat (gf (mm s) t p) = f"
    and "a = of_nat (4096 * p) + 4 * of_nat k"
  shows "store_user a x s = Some (s\<lparr>mm := (mm s)\<lparr>frame_mem := (frame_mem (mm s))(f := (frame_mem (mm s) f)(k := x))\<rparr>\<rparr>)"
proof -
  have "unat a mod 4096 div 4 = k" "unat (drop_bit 12 a) = p"
    unfolding assms(6) using assms(2,3) page_address[of p k] by simp_all
  then show ?thesis using assms by (simp add: store_user_def page_frame_gf)
qed

lemma alloc_k_fresh:
  assumes "mm_ok (mm s)" "get_PT s (current s) = t" "unmapped_pages (mm s) t \<noteq> {}" "free_frames (phys_mem (mm s)) \<noteq> {}"
  defines "p \<equiv> Min (unmapped_pages (mm s) t)" and "f \<equiv> Min (free_frames (phys_mem (mm s)))"
  obtains m where "alloc_k s = (of_nat (4096 * p), s\<lparr>mm := m\<rparr>)" "mm_ok m" "dir_pages m = dir_pages (mm s)"
    "gf m = (\<lambda>u q. if u = t \<and> q = p then of_nat f else gf (mm s) u q)" "pres m t p" "unat (gf m t p) = f"
    "frame_mem m = frame_mem (mm s)" "p < 1024"
proof -
  define m where "m = map_in t p (of_nat f) ((mm s)\<lparr>phys_mem := (phys_mem (mm s))(f := USED_FRAME)\<rparr>)"
  have f: "f \<in> pool" using Min_in[of "free_frames (phys_mem (mm s))"] assms(4) unfolding f_def by (auto simp: free_frames_def)
  have "\<not> (unmapped_pages (mm s) t = {} \<or> free_frames (phys_mem (mm s)) = {})" using assms(3,4) by simp
  then have "alloc_k s = (push_bit 12 (of_nat p), s\<lparr>mm := m\<rparr>)"
    unfolding alloc_k_run assms(2) Let_def m_def p_def f_def by (simp only: if_False)
  then have al: "alloc_k s = (of_nat (4096 * p), s\<lparr>mm := m\<rparr>)" by (simp add: push_bit_eq_mult mult.commute)
  obtain m' where m': "s\<lparr>mm := m\<rparr> = s\<lparr>mm := m'\<rparr>" "mm_ok m'" "dir_pages m' = dir_pages (mm s)"
    using alloc_k_mm[OF assms(1) al] by blast
  have "m = m'" using arg_cong[OF m'(1), of mm] by simp
  moreover have "gf m = (\<lambda>u q. if u = t \<and> q = p then of_nat f else gf (mm s) u q)" "pres m t p" "unat (gf m t p) = f"
    "frame_mem m = frame_mem (mm s)"
    using pool_frame_mask[OF f] frame_word[OF f] unfolding m_def by (intro ext | simp)+
  moreover have "p < 1024" using Min_unmapped[of "mm s" t] assms(3) unfolding p_def by (simp add: unmapped_pages_def)
  ultimately show thesis using that al m'(2,3) by blast
qed

text \<open>The three words on top of the stack page of a new thread.\<close>

lemma store_stack_top:
  assumes "\<And>fm. get_PT (s\<lparr>mm := (mm s)\<lparr>frame_mem := fm\<rparr>\<rparr>) (current (s\<lparr>mm := (mm s)\<lparr>frame_mem := fm\<rparr>\<rparr>)) = t"
    and "p < 1024" "pres (mm s) t p" "unat (gf (mm s) t p) = f"
  defines "us \<equiv> of_nat (4096 * p) :: DWord"
  shows "do { s \<leftarrow> store_user (us + 4 * 1021) a s; s \<leftarrow> store_user (us + 4 * 1022) b s; s \<leftarrow> store_user (us + 4 * 1023) d s; k s }
     = k (s\<lparr>mm := (mm s)\<lparr>frame_mem := (frame_mem (mm s))(f := (frame_mem (mm s) f)(1021 := a, 1022 := b, 1023 := d))\<rparr>\<rparr>)"
proof -
  let ?at = "\<lambda>fm. s\<lparr>mm := (mm s)\<lparr>frame_mem := fm\<rparr>\<rparr>"
  have st: "store_user (us + 4 * of_nat k) w (?at fm) = Some (?at (fm(f := (fm f)(k := w))))" if "k < 1024" for k w fm
    using store_user_page[OF assms(1,2), of k fm f "us + 4 * of_nat k" w] that assms(3,4) by (simp add: us_def)
  have s: "s = ?at (frame_mem (mm s))" by simp
  show ?thesis
    using st[of 1021 a "frame_mem (mm s)"] st[of 1022 b] st[of 1023 d] by simp
qed

lemma createthread_run:
  assumes "proc_ok s v" "v_free v = c # cs" "dir_pages_baseAddr (current s) = t"
    and "unmapped_pages (mm s) t \<noteq> {}" "free_frames (phys_mem (mm s)) \<noteq> {}"
  defines "p \<equiv> Min (unmapped_pages (mm s) t)" and "f \<equiv> Min (free_frames (phys_mem (mm s)))"
  obtains s1 m h where "sys_createthread twrap func param s = Some (0, (thread_slot twrap (of_nat (4096 * p)) c (s1\<lparr>mm := m\<rparr>))\<lparr>heap := h\<rparr>)"
    "proc_ok ((thread_slot twrap (of_nat (4096 * p)) c (s1\<lparr>mm := m\<rparr>))\<lparr>heap := h\<rparr>) (spawned v)"
    "gf m = (\<lambda>u q. if u = t \<and> q = p then of_nat f else gf (mm s) u q)"
    "frame_mem m = (frame_mem (mm s))(f := (frame_mem (mm s) f)(1021 := 0, 1022 := func, 1023 := param))"
    "global_TID s1 = global_TID s" "kstack s1 c = kstack s (running s)" "tasks s1 c = current s"
    "kstack s1 (running s) = kstack s (running s)" "tasks s1 (running s) = tasks s (running s)"
proof -
  note c = free_slot_facts[OF proc_okD(2)[OF assms(1)] assms(2)] and r = proc_okD(10)[OF assms(1)]
  obtain h where h: "list_first (Some FreeQ) (heap s) = Some (Some (TaskN c))" "list_del (Some (TaskN c)) (heap s) = Some h"
     "list_empty (Some FreeQ) (heap s) = Some False"
     "queues (heap (copy_task_union (running s) c (s\<lparr>heap := h\<rparr>))) (qmap (v\<lparr>v_free := cs\<rparr>))"
     "\<not> enqueued (v\<lparr>v_free := cs\<rparr>) c"
    using thread_start[OF assms(1,2)] by blast
  define s1 where "s1 = copy_task_union (running s) c (s\<lparr>heap := h\<rparr>)"
  have s1: "mm s1 = mm s" "current s1 = current s" "global_TID s1 = global_TID s" "kstack s1 c = kstack s (running s)"
    "tasks s1 c = current s" "kstack s1 (running s) = kstack s (running s)" "tasks s1 (running s) = tasks s (running s)"
    using c r by (simp_all add: s1_def copy_task_union_def current_def)
  have tl: "get_PT s1 (current s1) = t" "mm_ok (mm s1)"
    using proc_okD(5,7)[OF assms(1)] assms(3) s1 by (simp_all add: get_PT_def)
  define us :: DWord where "us = of_nat (4096 * p)"
  have ne: "unmapped_pages (mm s1) t \<noteq> {}" "free_frames (phys_mem (mm s1)) \<noteq> {}" using assms(4,5) unfolding s1(1) .
  obtain m where al: "alloc_k s1 = (us, s1\<lparr>mm := m\<rparr>)" and mok: "mm_ok m" "dir_pages m = dir_pages (mm s)"
    and gm: "gf m = (\<lambda>u q. if u = t \<and> q = p then of_nat f else gf (mm s) u q)"
    and mg: "pres m t p" "unat (gf m t p) = f" "frame_mem m = frame_mem (mm s)" "p < 1024"
    using alloc_k_fresh[OF tl(2,1) ne] unfolding s1(1) p_def f_def us_def by blast
  have PT: "get_PT (s1\<lparr>mm := m\<lparr>frame_mem := fm\<rparr>\<rparr>) (current (s1\<lparr>mm := m\<lparr>frame_mem := fm\<rparr>\<rparr>)) = t" for fm
    using tl(1) s1(1) mok(2) by (simp add: get_PT_def PT_of_dir_def current_def)
  let ?m5 = "m\<lparr>frame_mem := (frame_mem m)(f := (frame_mem m f)(1021 := 0, 1022 := func, 1023 := param))\<rparr>"
  have top: "do { s \<leftarrow> store_user (us + 4 * 1021) 0 (s1\<lparr>mm := m\<rparr>); s \<leftarrow> store_user (us + 4 * 1022) func s;
      s \<leftarrow> store_user (us + 4 * 1023) param s; k s } = k (s1\<lparr>mm := ?m5\<rparr>)" for k :: "kstate \<Rightarrow> (DWord \<times> kstate) option"
    using store_stack_top[of "s1\<lparr>mm := m\<rparr>" t p f 0 func param k] PT mg by (simp add: us_def)
  have m5: "mm_ok ?m5" "dir_pages ?m5 = dir_pages (mm s)" using mok by simp_all
  let ?s5 = "thread_slot twrap us c (s1\<lparr>mm := ?m5\<rparr>)"
  obtain h' where h': "list_add_tail (Some (TaskN c)) (Some ReadyQ) (heap ?s5) = Some h'"
     "proc_ok (?s5\<lparr>heap := h'\<rparr>) (spawned v)"
    using thread_finish[OF assms(1,2) h(4)[folded s1_def] h(5) s1_def m5] by blast
  have "sys_createthread twrap func param s = Some (0, ?s5\<lparr>heap := h'\<rparr>)"
    unfolding sys_createthread_def h(1,3) list_head_to_task_struct_def
    using h(2) al h'(1) by (simp add: s1_def[symmetric] top[simplified] Let_def)
  moreover have "gf ?m5 = (\<lambda>u q. if u = t \<and> q = p then of_nat f else gf (mm s) u q)" using gm by (intro ext) simp
  ultimately show thesis using that[of h' ?m5 s1] h'(2) s1(3-) mg(3) by (simp add: us_def)
qed

text \<open>
  C24: A thread starts in its function on a stack of its own. With a free slot, a page without a
  frame and a free frame, \<open>sys_createthread\<close> returns 0 and queues a ready task that shares the
  caller's page table and PID and has the next TID. The lowest free page is its user stack: its top
  holds a null return address, the function and the parameter, and the user context in its
  kernel stack starts the wrapper there, the rest being the caller's. A switch to it goes through
  the caller's return path out of the system call. The caller's own task is untouched.
\<close>

theorem createthread_starts_function:
  assumes "proc_ok s v" "v_free v = c # cs" "dir_pages_baseAddr (current s) = t"
    and "{q. 284 \<le> q \<and> q < 1024 \<and> gf (mm s) t q = 0} \<noteq> {}" "free_frames (phys_mem (mm s)) \<noteq> {}"
  shows "let p = Min {q. 284 \<le> q \<and> q < 1024 \<and> gf (mm s) t q = 0}; f = Min (free_frames (phys_mem (mm s)))
     in \<exists>s'. sys_createthread twrap func param s = Some (0, s')
       \<and> proc_ok s' (v\<lparr>v_free := cs, v_ready := v_ready v @ [c]\<rparr>)
       \<and> gf (mm s') = (\<lambda>u q. if u = t \<and> q = p then of_nat f else gf (mm s) u q)
       \<and> frame_mem (mm s') = (frame_mem (mm s))(f := (frame_mem (mm s) f)(1021 := 0, 1022 := func, 1023 := param))
       \<and> kstack s' c = (kstack s (running s))(1022 := of_nat (4096 * p + 4 * 1021), 1019 := twrap)
       \<and> cpu_ebp (task_switch c s') = kstack s (running s) 1006
       \<and> cpu_eip (task_switch c s') = kstack s (running s) 1007
       \<and> tasks s' c = (current s)\<lparr>register_esp := stack_addr s' c 1006, TID := global_TID s + 1, tstate := ST_READY\<rparr>
       \<and> tasks s' (running s) = tasks s (running s) \<and> kstack s' (running s) = kstack s (running s)"
proof -
  define p where "p = Min (unmapped_pages (mm s) t)"
  define f where "f = Min (free_frames (phys_mem (mm s)))"
  have P: "{q. 284 \<le> q \<and> q < 1024 \<and> gf (mm s) t q = 0} = unmapped_pages (mm s) t" by (simp add: unmapped_pages_def)
  define us :: DWord where "us = of_nat (4096 * p)"
  note c = free_slot_facts[OF proc_okD(2)[OF assms(1)] assms(2)] and r = proc_okD(10)[OF assms(1)]
  obtain s1 m h where run: "sys_createthread twrap func param s = Some (0, (thread_slot twrap us c (s1\<lparr>mm := m\<rparr>))\<lparr>heap := h\<rparr>)"
    "proc_ok ((thread_slot twrap us c (s1\<lparr>mm := m\<rparr>))\<lparr>heap := h\<rparr>) (spawned v)"
    and m: "gf m = (\<lambda>u q. if u = t \<and> q = p then of_nat f else gf (mm s) u q)"
      "frame_mem m = (frame_mem (mm s))(f := (frame_mem (mm s) f)(1021 := 0, 1022 := func, 1023 := param))"
    and s1: "global_TID s1 = global_TID s" "kstack s1 c = kstack s (running s)" "tasks s1 c = current s"
      "kstack s1 (running s) = kstack s (running s)" "tasks s1 (running s) = tasks s (running s)"
    using createthread_run[OF assms(1-3) assms(4)[unfolded P] assms(5), folded p_def f_def, folded us_def] by blast
  note ts = thread_slot_run[OF c(1), of twrap us "s1\<lparr>mm := m\<rparr>"]
  define s' where "s' = (thread_slot twrap us c (s1\<lparr>mm := m\<rparr>))\<lparr>heap := h\<rparr>"
  have k: "kstack s' c = (kstack s (running s))(1022 := of_nat (4096 * p + 4 * 1021), 1019 := twrap)"
    using ts(1) s1(2) by (simp add: s'_def us_def)
  have tk: "tasks s' c = (current s)\<lparr>register_esp := stack_addr s' c 1006, TID := global_TID s + 1, tstate := ST_READY\<rparr>"
    by (simp add: s'_def ts(2,4) s1(1,3) stack_addr_def)
  then have re: "register_esp (tasks s' c) = stack_addr s' c 1006" by simp
  have "cpu_ebp (task_switch c s') = kstack s (running s) 1006" "cpu_eip (task_switch c s') = kstack s (running s) 1007"
    using c(1) k by (simp_all add: task_switch_regs re stack_addr_next read_stack_addr)
  moreover have "tasks s' (running s) = tasks s (running s)" "kstack s' (running s) = kstack s (running s)"
    using c(2) s1(4,5) unfolding r by (simp_all add: s'_def ts(1,2))
  moreover have "mm s' = m" by (simp add: s'_def ts(3))
  moreover have "proc_ok s' (v\<lparr>v_free := cs, v_ready := v_ready v @ [c]\<rparr>)"
    using run(2) assms(2) by (simp add: s'_def spawned_def)
  ultimately show ?thesis
    unfolding P Let_def p_def[symmetric] f_def[symmetric] using run(1) k tk m unfolding s'_def[symmetric] by blast
qed

theorem createthread_starts_function_witness:
  "\<exists>s s'. proc_ok s three_task_view \<and> sys_createthread 100 200 300 s = Some (0, s')
     \<and> proc_ok s' (three_task_view\<lparr>v_free := [5..<10], v_ready := [2, 3, 4]\<rparr>)
     \<and> kstack s' 4 1019 = 100 \<and> kstack s' 4 1022 = of_nat (4096 * 284 + 4 * 1021)"
proof -
  obtain s where s: "proc_ok s three_task_view" "dir_pages_baseAddr (current s) = 1"
    "card (free_frames (phys_mem (mm s))) = 364" "\<forall>q. 284 \<le> q \<longrightarrow> gf (mm s) 1 q = 0" using proc_kernel by blast
  have v: "v_free three_task_view = 4 # [5..<10]" "v_ready three_task_view @ [4] = [2, 3, 4]"
    by (simp_all add: three_task_view_def upt_rec)
  have P: "{p. 284 \<le> p \<and> p < 1024 \<and> gf (mm s) 1 p = 0} = {284..<1024}" using s(4) by auto
  have M: "Min {284..<1024::nat} = 284" by (intro Min_eqI) auto
  have f: "free_frames (phys_mem (mm s)) \<noteq> {}" "{284..<1024::nat} \<noteq> {}" using s(3) by auto
  from createthread_starts_function[OF s(1) v(1) s(2), unfolded P, OF f(2,1), of 100 200 300] obtain s' where
    "sys_createthread 100 200 300 s = Some (0, s')"
    "proc_ok s' (three_task_view\<lparr>v_free := [5..<10], v_ready := v_ready three_task_view @ [4]\<rparr>)"
    "kstack s' 4 = (kstack s (running s))(1022 := of_nat (4096 * Min {284..<1024} + 4 * 1021), 1019 := 100)"
    unfolding Let_def by blast
  then show ?thesis unfolding v(2) M using s(1) by (intro exI[of _ s] exI[of _ s']) simp
qed

text \<open>
  C25: \<open>sys_terminatethread\<close> gives back the thread's stack page and its slot. The page is the one the
  user stack pointer saved in the kernel stack points into: when it is not one of the pages 284
  to 1023 (the main task of a process) the call returns \<open>-EACCES\<close>, when it has no frame
  \<open>-EFAULT\<close>, both without effect; otherwise the page is unmapped, its frame free again (unless it
  is 256), the slot goes to the end of the free list, still with the PID of its process, and the
  next task runs.
\<close>

theorem terminatethread_frees_stack:
  assumes "proc_ok s v" "v_run v \<noteq> v_idle v" "dir_pages_baseAddr (current s) = t"
    and "unat (kstack s (running s) 1022) div 4096 = p"
  shows "if p < 284 \<or> 1024 \<le> p then sys_terminatethread s = Some (Returned (- EACCES), s)
     else if gf (mm s) t p = 0 then sys_terminatethread s = Some (Returned (- EFAULT), s)
     else \<exists>s'. sys_terminatethread s = Some (Switched_out, s')
        \<and> proc_ok s' (next_view (v\<lparr>v_free := v_free v @ [v_run v]\<rparr>))
        \<and> running s' = hd (v_ready v @ [v_idle v]) \<and> PID (tasks s' (running s)) = PID (current s)
        \<and> gf (mm s') = (\<lambda>u q. if u = t \<and> q = p then 0 else gf (mm s) u q)
        \<and> free_frames (phys_mem (mm s')) = free_frames (phys_mem (mm s)) \<union> ({unat (gf (mm s) t p)} \<inter> (pool - {256}))"
proof -
  define a where "a = drop_bit 12 (kstack s (running s) 1022)"
  have "unat a = drop_bit 12 (unat (kstack s (running s) 1022))" unfolding a_def by (rule unat_drop_bit_eq)
  then have ua: "unat a = p" using assms(4) by (simp add: drop_bit_eq_div)
  have t: "get_PT s (current s) = t" using proc_okD(7)[OF assms(1)] assms(3) by simp
  note run = sys_terminatethread_def[of s, unfolded KERNEL_STACK_SIZE_def Let_def, simplified, folded a_def]
  have neg: "sint (- EACCES) < 0" "sint (- EFAULT) < 0" by (simp_all add: errno_defs)
  consider "p < 284 \<or> 1024 \<le> p" | "\<not> (p < 284 \<or> 1024 \<le> p)" "gf (mm s) t p = 0"
    | "\<not> (p < 284 \<or> 1024 \<le> p)" "gf (mm s) t p \<noteq> 0" by blast
  then show ?thesis
  proof cases
    case 1
    then have "dealloc_k a s = (- EACCES, s)" by (simp add: dealloc_k_run ua)
    then show ?thesis using 1 neg by (simp add: run)
  next
    case 2
    then have "dealloc_k a s = (- EFAULT, s)" by (simp add: dealloc_k_run ua t)
    then show ?thesis using 2 neg by (simp add: run)
  next
    case 3
    let ?w = "v\<lparr>v_free := v_free v @ [v_run v]\<rparr>"
    define s1 where "s1 = s\<lparr>mm := release_page t p (mm s), cr3 := t\<rparr>"
    have d: "dealloc_k a s = (0, s1)" using 3 assms(3) by (simp add: dealloc_k_run ua t s1_def)
    have ok1: "proc_ok s1 v" using dealloc_k_keeps[OF assms(1) d] by blast
    obtain h s' where h: "list_add_tail (Some (TaskN (v_run v))) (Some FreeQ) (heap s1) = Some h"
      "sched_next_rr (s1\<lparr>heap := h\<rparr>) = Some s'" "proc_ok s' (next_view ?w)" "switched (v_run (next_view ?w)) s1 s'"
      using exit_to_next[OF ok1 assms(2)] by blast
    have "sys_terminatethread s = Some (Switched_out, s')"
      using d h(1,2) proc_okD(10)[OF ok1] by (simp add: run)
    moreover have "running s' = hd (v_ready v @ [v_idle v])"
      using proc_okD(10)[OF h(3)] by (simp add: next_view_def split: list.splits)
    moreover have mm': "mm s' = mm s1" and "PID (tasks s' (running s)) = PID (current s)"
      using h(4) by (simp_all add: switched_def sched_frame_def s1_def current_def)
    moreover have "gf (mm s') = (\<lambda>u q. if u = t \<and> q = p then 0 else gf (mm s) u q)"
      unfolding mm' by (intro ext) (simp add: s1_def)
    moreover have "free_frames (phys_mem (mm s')) = free_frames (phys_mem (mm s)) \<union> ({unat (gf (mm s) t p)} \<inter> (pool - {256}))"
      unfolding mm' by (simp add: s1_def free_frame_frames)
    ultimately show ?thesis unfolding if_not_P[OF 3(1)] if_not_P[OF 3(2)] using h(3) by blast
  qed
qed

lemma proc_ok_kstack [simp]: "proc_ok (s\<lparr>kstack := k\<rparr>) v \<longleftrightarrow> proc_ok s v"
  by (simp add: proc_ok_def kernel_ok_def sched_ok_def views_def sem_ok_def mem_ok_def)

theorem terminatethread_frees_stack_witness:
  "\<exists>s s'. proc_ok s three_task_view \<and> gf (mm s) 1 284 \<noteq> 0 \<and> kstack s 1 1022 = 1167348
     \<and> sys_terminatethread s = Some (Switched_out, s') \<and> gf (mm s') 1 284 = 0 \<and> running s' = 2"
proof -
  obtain s where s: "proc_ok s three_task_view" "dir_pages_baseAddr (current s) = 1"
    "card (free_frames (phys_mem (mm s))) = 364" "\<forall>q. 284 \<le> q \<longrightarrow> gf (mm s) 1 q = 0" using proc_kernel by blast
  have P: "unmapped_pages (mm s) 1 = {284..<1024}" using s(4) by (auto simp: unmapped_pages_def)
  have M: "Min {284..<1024::nat} = 284" by (intro Min_eqI) auto
  have t: "get_PT s (current s) = 1" using proc_okD(7)[OF s(1)] s(2) by simp
  have ne: "\<not> ({284..<1024::nat} = {} \<or> free_frames (phys_mem (mm s)) = {})" using s(3) by auto
  let ?f = "Min (free_frames (phys_mem (mm s)))"
  let ?m = "map_in 1 284 (of_nat ?f) ((mm s)\<lparr>phys_mem := (phys_mem (mm s))(?f := USED_FRAME)\<rparr>)"
  have al: "alloc_k s = (push_bit 12 (of_nat 284), s\<lparr>mm := ?m\<rparr>)"
    unfolding alloc_k_run t P if_not_P[OF ne] Let_def M ..
  have f: "?f \<in> pool" using Min_in[of "free_frames (phys_mem (mm s))"] ne by (auto simp: free_frames_def)
  let ?s = "s\<lparr>mm := ?m, kstack := (kstack s)(1 := (kstack s 1)(1022 := 1167348))\<rparr>"
  have ok: "proc_ok ?s three_task_view" using alloc_k_keeps[OF s(1) al] by simp
  have g: "gf (mm ?s) 1 284 \<noteq> 0" using pool_word_nz[OF f] pool_frame_mask[OF f] by simp
  have r: "running s = 1" using proc_okD(10)[OF s(1)] by (simp add: three_task_view_def)
  have d: "dir_pages_baseAddr (current ?s) = 1" using s(2) by (simp add: current_def)
  have a: "unat (kstack ?s (running ?s) 1022) div 4096 = 284" by (simp add: r)
  have v: "v_run three_task_view \<noteq> v_idle three_task_view" "v_ready three_task_view = [2, 3]"
    by (simp_all add: three_task_view_def)
  have b: "\<not> ((284::nat) < 284 \<or> 1024 \<le> (284::nat))" by simp
  note tt = terminatethread_frees_stack[OF ok v(1) d a, unfolded if_not_P[OF b] if_not_P[OF g]]
  from tt obtain s' where "sys_terminatethread ?s = Some (Switched_out, s')"
    "running s' = hd (v_ready three_task_view @ [v_idle three_task_view])"
    "gf (mm s') = (\<lambda>u q. if u = 1 \<and> q = 284 then 0 else gf (mm ?s) u q)" by blast
  moreover have "kstack ?s 1 1022 = 1167348" by simp
  ultimately show ?thesis using ok g v(2) by (intro exI[of _ ?s] exI[of _ s']) simp
qed

end
