(* ===== verification/Syscalls.thy ===== *)
theory Syscalls
  imports Process_Steps
begin

text \<open>
  The other system calls of \<open>sys.c\<close> (\<open>sys_write\<close>, \<open>sys_get_stats\<close>, \<open>sys_get_key\<close>,
  \<open>sys_dump_screen\<close> and the ones that only read a variable), the table and the entry point through
  which user programs reach them (\<open>sys_call_table.S\<close>, \<open>entry.S\<close>), and the \<open>errno\<close> convention of the
  user wrappers (\<open>user-utils.S\<close>). User memory is read and written byte by byte through the page
  table of the running task; a byte of a page that is not present is a fault.
\<close>

section \<open>User memory\<close>

definition word_byte :: "nat \<Rightarrow> DWord \<Rightarrow> Byte" where
  "word_byte k w = ucast (get_bits (8 * k) 8 w)"

definition set_byte :: "nat \<Rightarrow> Byte \<Rightarrow> DWord \<Rightarrow> DWord" where
  "set_byte k b w = set_bits (8 * k) 8 (ucast b) w"

definition user_byte :: "nat \<Rightarrow> DWord \<Rightarrow> mm_state \<Rightarrow> Byte option" where
  "user_byte t a m = do {
     f \<leftarrow> page_frame t (unat (drop_bit 12 a)) m;
     Some (word_byte (unat a mod 4) (frame_mem m f (unat a mod 4096 div 4))) }"

definition put_user_byte :: "nat \<Rightarrow> DWord \<Rightarrow> Byte \<Rightarrow> mm_state \<Rightarrow> mm_state option" where
  "put_user_byte t a b m = do {
     f \<leftarrow> page_frame t (unat (drop_bit 12 a)) m;
     let k = unat a mod 4096 div 4;
     Some (m\<lparr>frame_mem := (frame_mem m)(f := (frame_mem m f)(k := set_byte (unat a mod 4) b (frame_mem m f k)))\<rparr>) }"

primrec read_user :: "nat \<Rightarrow> nat \<Rightarrow> DWord \<Rightarrow> mm_state \<Rightarrow> Byte list option" where
  "read_user 0 t a m = Some []"
| "read_user (Suc n) t a m = do { b \<leftarrow> user_byte t a m; bs \<leftarrow> read_user n t (a + 1) m; Some (b # bs) }"

primrec write_user :: "Byte list \<Rightarrow> nat \<Rightarrow> DWord \<Rightarrow> mm_state \<Rightarrow> mm_state option" where
  "write_user [] t a m = Some m"
| "write_user (b # bs) t a m = do { m \<leftarrow> put_user_byte t a b m; write_user bs t (a + 1) m }"

section \<open>The calls\<close>

definition LECTURA :: int where "LECTURA = 0"
definition ESCRIPTURA :: int where "ESCRIPTURA = 1"

definition check_fd :: "DWord \<Rightarrow> int \<Rightarrow> DWord" where
  "check_fd fd permissions =
     (if fd \<noteq> 1 then - EBADF else if permissions \<noteq> ESCRIPTURA then - EACCES else 0)"

definition sys_ni_syscall :: DWord where "sys_ni_syscall = - ENOSYS"

definition sys_getpid :: "kstate \<Rightarrow> DWord" where "sys_getpid s = PID (current s)"

definition ret_from_fork_result :: DWord where "ret_from_fork_result = 0"

definition TAM_BUFFER :: int where "TAM_BUFFER = 512"

definition user_PT :: "kstate \<Rightarrow> nat" where "user_PT s = get_PT s (current s)"

text \<open>The \<open>while\<close> loop of \<open>sys_write\<close>: the bytes left, the rest of the buffer and the state after it.\<close>

function write_chunks :: "int \<Rightarrow> DWord \<Rightarrow> kstate \<Rightarrow> (int \<times> DWord \<times> kstate) option" where
  "write_chunks bytes_left buffer s =
     (if bytes_left > TAM_BUFFER then do {
        localbuffer \<leftarrow> read_user (nat TAM_BUFFER) (user_PT s) buffer (mm s);
        let (ret, sc) = sys_write_console (\<lambda>i. localbuffer ! i) TAM_BUFFER (scr s);
        write_chunks (bytes_left - ret) (buffer + of_int ret) (s\<lparr>scr := sc\<rparr>) }
      else Some (bytes_left, buffer, s))"
  by pat_completeness auto
termination
  by (relation "measure (\<lambda>(bytes_left, buffer, s). nat bytes_left)")
     (auto simp: sys_write_console_def TAM_BUFFER_def)

declare write_chunks.simps [simp del]

definition sys_write :: "DWord \<Rightarrow> DWord \<Rightarrow> DWord \<Rightarrow> kstate \<Rightarrow> (DWord \<times> kstate) option" where
  "sys_write fd buffer nbytes s =
     (let ret = check_fd fd ESCRIPTURA in
      if ret \<noteq> 0 then Some (ret, s)
      else if sint nbytes < 0 then Some (- EINVAL, s)
      else if \<not> access_ok VERIFY_READ buffer nbytes then Some (- EFAULT, s)
      else do {
        (bytes_left, buffer, s) \<leftarrow> write_chunks (sint nbytes) buffer s;
        (bytes_left, s) \<leftarrow>
          (if bytes_left > 0 then do {
             localbuffer \<leftarrow> read_user (nat bytes_left) (user_PT s) buffer (mm s);
             let (ret, sc) = sys_write_console (\<lambda>i. localbuffer ! i) bytes_left (scr s);
             Some (bytes_left - ret, s\<lparr>scr := sc\<rparr>) }
           else Some (bytes_left, s));
        Some (of_int (sint nbytes - bytes_left), s) })"

definition sys_gettime :: "kstate \<Rightarrow> DWord" where "sys_gettime s = zeos_ticks s"

text \<open>The 28 bytes of a \<open>struct stats\<close>, little endian.\<close>

definition word_bytes :: "DWord \<Rightarrow> Byte list" where
  "word_bytes w = map (\<lambda>k. word_byte k w) [0..<4]"

definition stats_bytes :: "stats \<Rightarrow> Byte list" where
  "stats_bytes st = concat (map word_bytes [user_ticks st, system_ticks st, blocked_ticks st, ready_ticks st,
     elapsed_total_ticks st, total_trans st, remaining_ticks st])"

definition sys_get_stats :: "DWord \<Rightarrow> DWord \<Rightarrow> kstate \<Rightarrow> (DWord \<times> kstate) option" where
  "sys_get_stats pid st s =
     (if \<not> access_ok VERIFY_WRITE st 28 then Some (- EFAULT, s)
      else if sint pid < 0 then Some (- EINVAL, s)
      else case find (\<lambda>i. PID (tasks s i) = pid) [0..<NR_TASKS] of
        Some i \<Rightarrow> do {
          let s = upd_task i (\<lambda>ts. ts\<lparr>p_stats := (p_stats ts)\<lparr>remaining_ticks := remaining_quantum s\<rparr>\<rparr>) s;
          m \<leftarrow> write_user (stats_bytes (p_stats (tasks s i))) (user_PT s) st (mm s);
          Some (0, s\<lparr>mm := m\<rparr>) }
      | None \<Rightarrow> Some (- ESRCH, s))"

text \<open>\<open>*((short*)address + k)\<close>, from the bytes read from \<open>address\<close> on.\<close>

definition cell_at :: "Byte list \<Rightarrow> nat \<Rightarrow> Word16" where
  "cell_at bs k = ucast (bs ! (2 * k)) OR push_bit 8 (ucast (bs ! (2 * k + 1)))"

definition sys_dump_screen :: "DWord \<Rightarrow> kstate \<Rightarrow> (DWord \<times> kstate) option" where
  "sys_dump_screen address s =
     (let lid = unat (drop_bit 12 address) in
      if lid < NUM_PAG_KERNEL + NUM_PAG_CODE + NUM_PAG_DATA \<or> TOTAL_PAGES \<le> lid then Some (- EACCES, s)
      else let fpage = get_frame (pagusr_table (mm s) (user_PT s)) lid in
        if fpage = 0 then Some (- EACCES, s)
        else do {
          bs \<leftarrow> read_user (2 * (NUM_ROWS * NUM_COLUMNS)) (user_PT s) address (mm s);
          Some (0, s\<lparr>scr := dump_matrix (cell_at bs) (scr s)\<rparr>) })"

definition sys_get_key :: "DWord \<Rightarrow> kstate \<Rightarrow> (DWord \<times> kstate) option" where
  "sys_get_key c s =
     (if \<not> access_ok VERIFY_WRITE c 4 then Some (- EFAULT, s)
      else case read_from_buffer 0 (kbd s) of (isSomethingToRead, ch, r) \<Rightarrow>
        if isSomethingToRead = 0 then do {
          m \<leftarrow> put_user_byte (user_PT s) c ch (mm s);
          Some (0, s\<lparr>kbd := r, mm := m\<rparr>) }
        else Some (-1, s))"

section \<open>Dispatch\<close>

datatype sys_entry = E_ni | E_exit | E_fork | E_write | E_gettime | E_yield | E_getpid | E_alloc
  | E_dealloc | E_createthread | E_terminatethread | E_dump_screen | E_get_key | E_sem_init
  | E_sem_wait | E_sem_signal | E_sem_destroy | E_get_stats

definition sys_call_table :: "sys_entry list" where
  "sys_call_table = [E_ni, E_exit, E_fork, E_ni, E_write, E_ni, E_ni, E_ni, E_ni, E_ni, E_gettime,
     E_ni, E_ni, E_yield, E_ni, E_ni, E_ni, E_ni, E_ni, E_ni, E_getpid, E_alloc, E_dealloc,
     E_createthread, E_terminatethread, E_dump_screen, E_get_key, E_sem_init, E_sem_wait,
     E_sem_signal, E_sem_destroy, E_ni, E_ni, E_ni, E_ni, E_get_stats]"

definition MAX_SYSCALL :: nat where "MAX_SYSCALL = length sys_call_table"

text \<open>
  A call to an entry with the arguments the handler pushed from \<open>%ebx\<close>, \<open>%ecx\<close> and \<open>%edx\<close>. The
  result of a call that returns goes to the user's \<open>%eax\<close>.
\<close>

definition returned :: "(DWord \<times> kstate) option \<Rightarrow> (outcome \<times> kstate) option" where
  "returned = map_option (apfst Returned)"

fun call_entry :: "DWord \<Rightarrow> sys_entry \<Rightarrow> DWord \<Rightarrow> DWord \<Rightarrow> DWord \<Rightarrow> kstate \<Rightarrow> (outcome \<times> kstate) option" where
  "call_entry rff E_ni b c d s = Some (Returned sys_ni_syscall, s)"
| "call_entry rff E_exit b c d s = do { s \<leftarrow> sys_exit s; Some (Switched_out, s) }"
| "call_entry rff E_fork b c d s = returned (sys_fork rff s)"
| "call_entry rff E_write b c d s = returned (sys_write b c d s)"
| "call_entry rff E_gettime b c d s = Some (Returned (sys_gettime s), s)"
| "call_entry rff E_yield b c d s = sys_yield s"
| "call_entry rff E_getpid b c d s = Some (Returned (sys_getpid s), s)"
| "call_entry rff E_alloc b c d s = returned (Some (sys_alloc s))"
| "call_entry rff E_dealloc b c d s = returned (Some (sys_dealloc b s))"
| "call_entry rff E_createthread b c d s = returned (sys_createthread b c d s)"
| "call_entry rff E_terminatethread b c d s = sys_terminatethread s"
| "call_entry rff E_dump_screen b c d s = returned (sys_dump_screen b s)"
| "call_entry rff E_get_key b c d s = returned (sys_get_key b s)"
| "call_entry rff E_sem_init b c d s = returned (sys_sem_init b c s)"
| "call_entry rff E_sem_wait b c d s = sys_sem_wait b s"
| "call_entry rff E_sem_signal b c d s = returned (sys_sem_signal b s)"
| "call_entry rff E_sem_destroy b c d s = returned (sys_sem_destroy b s)"
| "call_entry rff E_get_stats b c d s = returned (sys_get_stats b c s)"

text \<open>
  The test of \<open>system_call_handler\<close> lets the value \<open>MAX_SYSCALL\<close> itself through; what lies in memory
  after the table is not known, so that call has no result.
\<close>

definition system_call_handler :: "DWord \<Rightarrow> DWord \<Rightarrow> DWord \<Rightarrow> DWord \<Rightarrow> DWord \<Rightarrow> kstate \<Rightarrow> (outcome \<times> kstate) option" where
  "system_call_handler rff eax ebx ecx edx s =
     (if sint eax < 0 then Some (Returned (- ENOSYS), s)
      else if int MAX_SYSCALL < sint eax then Some (Returned (- ENOSYS), s)
      else if unat eax < length sys_call_table then call_entry rff (sys_call_table ! unat eax) ebx ecx edx s
      else None)"

text \<open>The wrappers of \<open>user-utils.S\<close> that jump to \<open>nok\<close>: the new \<open>errno\<close> and the result.\<close>

definition nok :: "DWord \<Rightarrow> DWord \<Rightarrow> DWord \<times> DWord" where
  "nok errno eax = (if sint eax < 0 then (- eax, -1) else (errno, eax))"

section \<open>Writing to the console\<close>

lemma read_user_length: "read_user n t a m = Some bs \<Longrightarrow> length bs = n"
  by (induction n arbitrary: a bs) (auto split: bind_splits)

lemma read_user_add:
  "read_user (i + j) t a m = do { xs \<leftarrow> read_user i t a m; ys \<leftarrow> read_user j t (a + of_nat i) m; Some (xs @ ys) }"
proof (induction i arbitrary: a)
  case (Suc i)
  have e: "a + 1 + of_nat i = a + of_nat (Suc i)" by simp
  show ?case by (simp add: Suc.IH e[simplified] add.assoc)
qed simp

lemma console_bytes:
  assumes "length bs = nat n"
  shows "sys_write_console (\<lambda>i. bs ! i) n sc = (n, fold printc bs sc)"
proof -
  have "fold (\<lambda>i. printc (bs ! i)) [0..<nat n] sc = fold printc (map (\<lambda>i. bs ! i) [0..<nat n]) sc"
    by (simp add: fold_map o_def)
  then show ?thesis unfolding assms[symmetric] map_nth by (simp add: sys_write_console_def assms)
qed

lemma user_PT_scr [simp]: "user_PT (s\<lparr>scr := sc\<rparr>) = user_PT s"
  by (simp add: user_PT_def get_PT_def current_def)

text \<open>The whole buffer at once.\<close>

definition print_user :: "nat \<Rightarrow> DWord \<Rightarrow> kstate \<Rightarrow> kstate option" where
  "print_user n a s = do { bs \<leftarrow> read_user n (user_PT s) a (mm s); Some (s\<lparr>scr := fold printc bs (scr s)\<rparr>) }"

lemma print_user_add:
  "print_user (i + j) a s = do { s \<leftarrow> print_user i a s; print_user j (a + of_nat i) s }"
  by (cases "read_user i (user_PT s) a (mm s)"; cases "read_user j (user_PT s) (a + of_nat i) (mm s)")
     (simp_all add: print_user_def read_user_add)

lemma write_chunks_print:
  "do { (bl, buf, s) \<leftarrow> write_chunks bl buf s; print_user (nat bl) buf s } = print_user (nat bl) buf s"
proof (induction bl buf s rule: write_chunks.induct)
  case (1 bl buf s)
  show ?case
  proof (cases "TAM_BUFFER < bl")
    case True
    then have n: "nat bl = 512 + nat (bl - 512)" by (simp add: TAM_BUFFER_def)
    show ?thesis
    proof (cases "read_user 512 (user_PT s) buf (mm s)")
      case None
      then show ?thesis using True
        by (subst write_chunks.simps) (simp add: TAM_BUFFER_def n print_user_def read_user_add)
    next
      case (Some lb)
      have c: "sys_write_console (\<lambda>i. lb ! i) TAM_BUFFER (scr s) = (TAM_BUFFER, fold printc lb (scr s))"
        by (rule console_bytes) (simp add: read_user_length[OF Some] TAM_BUFFER_def)
      let ?s1 = "s\<lparr>scr := fold printc lb (scr s)\<rparr>"
      have step: "write_chunks bl buf s = write_chunks (bl - 512) (buf + 512) ?s1"
        using True Some c by (subst write_chunks.simps) (simp add: TAM_BUFFER_def)
      have "do { (bl, buf, s) \<leftarrow> write_chunks (bl - 512) (buf + 512) ?s1; print_user (nat bl) buf s }
        = print_user (nat (bl - 512)) (buf + 512) ?s1"
        using "1.IH"[OF True, of lb "(TAM_BUFFER, fold printc lb (scr s))" TAM_BUFFER "fold printc lb (scr s)"] Some c
        by (simp add: TAM_BUFFER_def)
      then show ?thesis unfolding step n print_user_add[of 512] using Some by (simp add: print_user_def)
    qed
  next
    case False
    then show ?thesis by (subst write_chunks.simps) simp
  qed
qed

lemma write_chunks_left: "write_chunks bl buf s = Some (bl', buf', s') \<Longrightarrow> 0 \<le> bl \<Longrightarrow> 0 \<le> bl'"
proof (induction bl buf s rule: write_chunks.induct)
  case (1 bl buf s)
  show ?case
  proof (cases "TAM_BUFFER < bl")
    case True
    obtain lb ret sc where lb: "read_user (nat TAM_BUFFER) (user_PT s) buf (mm s) = Some lb"
      "sys_write_console (\<lambda>i. lb ! i) TAM_BUFFER (scr s) = (ret, sc)"
      "write_chunks (bl - ret) (buf + of_int ret) (s\<lparr>scr := sc\<rparr>) = Some (bl', buf', s')"
      using "1.prems"(1) True by (subst (asm) write_chunks.simps) (auto split: bind_splits prod.splits)
    moreover have "ret = TAM_BUFFER" using lb(2) by (simp add: sys_write_console_def)
    ultimately show ?thesis using "1.IH"[OF True lb(1) lb(2)[symmetric] refl] True by simp
  next
    case False
    then show ?thesis using "1.prems" by (subst (asm) write_chunks.simps) simp
  qed
qed

text \<open>A write that passes the checks prints the buffer: the chunks, and what is left of it.\<close>

lemma sys_write_prints:
  assumes "fd = 1" "0 \<le> sint nbytes" "access_ok VERIFY_READ buffer nbytes"
  shows "sys_write fd buffer nbytes s = map_option (Pair nbytes) (print_user (unat nbytes) buffer s)"
proof -
  have cf: "check_fd 1 ESCRIPTURA = 0" by (simp add: check_fd_def)
  have "sint nbytes = uint nbytes"
    using assms(2) sint_word32[of nbytes] uint_less32[of nbytes] by (simp split: if_splits)
  then have n: "nat (sint nbytes) = unat nbytes" "of_int (sint nbytes) = nbytes"
    by (simp_all only: unat_eq_nat_uint word_of_int_uint)
  note chunks = write_chunks_print[of "sint nbytes" buffer s]
  show ?thesis
  proof (cases "write_chunks (sint nbytes) buffer s")
    case None
    then show ?thesis using assms chunks n by (simp add: sys_write_def cf)
  next
    case (Some r)
    obtain bl buf s1 where r: "r = (bl, buf, s1)" by (cases r)
    have p: "print_user (nat bl) buf s1 = print_user (unat nbytes) buffer s" using chunks Some r n by simp
    have "0 \<le> bl" using write_chunks_left Some r assms(2) by blast
    then consider "bl = 0" | (fault) "0 < bl" "read_user (nat bl) (user_PT s1) buf (mm s1) = None"
      | (tail) lb where "0 < bl" "read_user (nat bl) (user_PT s1) buf (mm s1) = Some lb" by fastforce
    then have "sys_write fd buffer nbytes s = map_option (Pair nbytes) (print_user (nat bl) buf s1)"
    proof cases
      case (tail lb)
      have "sys_write_console (\<lambda>i. lb ! i) bl (scr s1) = (bl, fold printc lb (scr s1))"
        by (rule console_bytes) (rule read_user_length[OF tail(2)])
      then show ?thesis using assms Some r tail n by (simp add: sys_write_def cf print_user_def)
    qed (use assms Some r n in \<open>simp_all add: sys_write_def cf print_user_def\<close>)
    then show ?thesis unfolding p .
  qed
qed

lemma sys_write_run:
  "sys_write fd buffer nbytes s =
     (if fd \<noteq> 1 then Some (- EBADF, s)
      else if sint nbytes < 0 then Some (- EINVAL, s)
      else if \<not> access_ok VERIFY_READ buffer nbytes then Some (- EFAULT, s)
      else do {
        bs \<leftarrow> read_user (unat nbytes) (get_PT s (current s)) buffer (mm s);
        Some (nbytes, s\<lparr>scr := fold printc bs (scr s)\<rparr>) })"
proof (cases "fd = 1 \<and> 0 \<le> sint nbytes \<and> access_ok VERIFY_READ buffer nbytes")
  case True
  then show ?thesis using sys_write_prints[of fd nbytes buffer s]
    by (cases "read_user (unat nbytes) (user_PT s) buffer (mm s)") (simp_all add: print_user_def user_PT_def)
next
  case False
  have "- EBADF \<noteq> (0 :: DWord)" by (simp add: EBADF_def)
  then show ?thesis using False by (auto simp: sys_write_def check_fd_def)
qed

text \<open>
  C26: \<open>sys_write\<close>, which copies the buffer in chunks of 512 bytes, has the effect of printing it in
  one piece: after the checks of the descriptor, the sign of the size and the user pointer, each
  with its error and no effect, it prints the bytes in order and returns their number, and it
  faults exactly when one of them lies on a page that is not present.
\<close>

theorem sys_write_prints_buffer:
  "sys_write fd buffer nbytes s =
     (if fd \<noteq> 1 then Some (- EBADF, s)
      else if sint nbytes < 0 then Some (- EINVAL, s)
      else if \<not> access_ok VERIFY_READ buffer nbytes then Some (- EFAULT, s)
      else do {
        bs \<leftarrow> read_user (unat nbytes) (get_PT s (current s)) buffer (mm s);
        Some (nbytes, s\<lparr>scr := fold printc bs (scr s)\<rparr>) })"
  by (rule sys_write_run)

section \<open>What a write to user memory can be read back as\<close>

lemma word_byte_set:
  assumes "j < 4" "k < 4"
  shows "word_byte k (set_byte j b w) = (if k = j then b else word_byte k w)"
proof (cases "k = j")
  case True
  have "8 * j + 8 \<le> 32" using assms by simp
  moreover have "ucast (ucast b AND mask 8 :: DWord) = b" by (rule bit_word_eqI) (auto simp: bit_simps)
  ultimately show ?thesis using True by (simp add: word_byte_def set_byte_def get_set_bits_same)
next
  case False
  then have "8 * k + 8 \<le> 8 * j \<or> 8 * j + 8 \<le> 8 * k" by linarith
  then show ?thesis using False by (simp add: word_byte_def set_byte_def get_set_bits_other)
qed

lemma frame_inj:
  assumes "mm_ok m" "t < 10" "264 \<le> p" "p < 1024" "264 \<le> q" "q < 1024" "gf m t p \<noteq> 0" "unat (gf m t p) = unat (gf m t q)"
  shows "p = q"
  using mm_okD(2)[OF assms(1,2,2,3,4) _ assms(6,7)] assms(5,8) by (simp add: word_unat_eq_iff)

definition data_addr :: "DWord \<Rightarrow> bool" where
  "data_addr a \<longleftrightarrow> 264 \<le> unat a div 4096 \<and> unat a div 4096 < 1024"

text \<open>Storing one byte on a page that is mapped.\<close>

lemma put_user_run:
  assumes "mm_ok m" "t < 10" "data_addr a" "pres m t (unat a div 4096)" "gf m t (unat a div 4096) \<noteq> 0"
  shows "\<exists>fm. put_user_byte t a b m = Some (m\<lparr>frame_mem := fm\<rparr>)
     \<and> (\<forall>x. data_addr x \<longrightarrow> user_byte t x (m\<lparr>frame_mem := fm\<rparr>) = (if x = a then Some b else user_byte t x m))"
proof -
  let ?f = "unat (gf m t (unat a div 4096))" and ?k = "unat a mod 4096 div 4"
  let ?fm = "(frame_mem m)(?f := (frame_mem m ?f)(?k := set_byte (unat a mod 4) b (frame_mem m ?f ?k)))"
  have pa: "page_frame t (unat (drop_bit 12 a)) m = Some ?f"
    using assms(3,4) by (simp add: page_frame_gf unat_page data_addr_def)
  have "user_byte t x (m\<lparr>frame_mem := ?fm\<rparr>) = (if x = a then Some b else user_byte t x m)" if x: "data_addr x" for x
  proof (cases "pres m t (unat x div 4096)")
    case False
    then have "x \<noteq> a" using assms(4) by auto
    then show ?thesis using False by (simp add: user_byte_def page_frame_gf unat_page)
  next
    case True
    let ?g = "unat (gf m t (unat x div 4096))" and ?l = "unat x mod 4096 div 4"
    have px: "page_frame t (unat (drop_bit 12 x)) (m\<lparr>frame_mem := fm\<rparr>) = Some ?g" for fm
      using x True by (simp add: page_frame_gf unat_page data_addr_def)
    have "x \<noteq> a \<longrightarrow> ?g = ?f \<longrightarrow> ?l = ?k \<longrightarrow> unat x mod 4 \<noteq> unat a mod 4"
    proof (intro impI notI)
      assume a: "x \<noteq> a" "?g = ?f" "?l = ?k" "unat x mod 4 = unat a mod 4"
      have "unat x div 4096 = unat a div 4096"
        using frame_inj[OF assms(1,2), of "unat a div 4096" "unat x div 4096"] assms(3,5) x a(2) by (simp add: data_addr_def)
      moreover have "unat x mod 4096 = unat a mod 4096"
      proof -
        have "unat x mod 4096 mod 4 = unat a mod 4096 mod 4" using a(4) by (simp add: mod_mod_cancel)
        then show ?thesis using a(3) by (metis mult_div_mod_eq)
      qed
      ultimately have "unat x = unat a" by (metis mult_div_mod_eq)
      then show False using a(1) by (simp add: word_unat_eq_iff)
    qed
    then show ?thesis
      using px[of "?fm"] px[of "frame_mem m"] by (auto simp: user_byte_def word_byte_set)
  qed
  moreover have "put_user_byte t a b m = Some (m\<lparr>frame_mem := ?fm\<rparr>)"
    by (simp add: put_user_byte_def pa Let_def)
  ultimately show ?thesis by blast
qed

lemma write_user_run:
  assumes "mm_ok m" "t < 10" "\<And>i. i < length bs \<Longrightarrow> let p = (unat a + i) div 4096 in 264 \<le> p \<and> p < 1024 \<and> pres m t p \<and> gf m t p \<noteq> 0"
  shows "\<exists>fm. write_user bs t a m = Some (m\<lparr>frame_mem := fm\<rparr>)
     \<and> (\<forall>x. data_addr x \<longrightarrow> user_byte t x (m\<lparr>frame_mem := fm\<rparr>) =
          (if unat a \<le> unat x \<and> unat x < unat a + length bs then Some (bs ! (unat x - unat a)) else user_byte t x m))"
  using assms
proof (induction bs arbitrary: a m)
  case Nil
  then show ?case by (intro exI[of _ "frame_mem m"]) auto
next
  case (Cons b bs)
  have p0: "264 \<le> unat a div 4096" "unat a div 4096 < 1024" "pres m t (unat a div 4096)" "gf m t (unat a div 4096) \<noteq> 0"
    using Cons.prems(3)[of 0] by (simp_all add: Let_def)
  then obtain fm where fm: "put_user_byte t a b m = Some (m\<lparr>frame_mem := fm\<rparr>)"
     "\<And>x. data_addr x \<Longrightarrow> user_byte t x (m\<lparr>frame_mem := fm\<rparr>) = (if x = a then Some b else user_byte t x m)"
    using put_user_run[OF Cons.prems(1,2), of a b] by (auto simp: data_addr_def)
  have "unat a < 4194304" using p0(2) by linarith
  then have ua: "unat (a + 1) = unat a + 1" by (simp add: unat_word_ariths)
  have pp: "let p = (unat (a + 1) + i) div 4096 in
       264 \<le> p \<and> p < 1024 \<and> pres (m\<lparr>frame_mem := fm\<rparr>) t p \<and> gf (m\<lparr>frame_mem := fm\<rparr>) t p \<noteq> 0" if "i < length bs" for i
    using Cons.prems(3)[of "Suc i"] that by (simp add: ua Let_def)
  have ok: "mm_ok (m\<lparr>frame_mem := fm\<rparr>)" using Cons.prems(1) by simp
  from Cons.IH[OF ok Cons.prems(2) pp] obtain gm where
    gm: "write_user bs t (a + 1) (m\<lparr>frame_mem := fm\<rparr>) = Some ((m\<lparr>frame_mem := fm\<rparr>)\<lparr>frame_mem := gm\<rparr>)"
     "\<And>x. data_addr x \<Longrightarrow> user_byte t x ((m\<lparr>frame_mem := fm\<rparr>)\<lparr>frame_mem := gm\<rparr>) =
          (if unat (a + 1) \<le> unat x \<and> unat x < unat (a + 1) + length bs then Some (bs ! (unat x - unat (a + 1)))
           else user_byte t x (m\<lparr>frame_mem := fm\<rparr>))" by blast
  have "user_byte t x (m\<lparr>frame_mem := gm\<rparr>) =
          (if unat a \<le> unat x \<and> unat x < unat a + length (b # bs) then Some ((b # bs) ! (unat x - unat a)) else user_byte t x m)"
    if x: "data_addr x" for x
  proof -
    have e: "x = a \<longleftrightarrow> unat x = unat a" by (simp add: word_unat_eq_iff)
    show ?thesis using gm(2)[OF x] fm(2)[OF x] unfolding ua e by (auto simp: nth_Cons')
  qed
  then show ?case using fm(1) gm(1) by (intro exI[of _ gm]) simp
qed

lemma read_user_bytes:
  assumes "\<And>i. i < length bs \<Longrightarrow> user_byte t (a + of_nat i) m = Some (bs ! i)"
  shows "read_user (length bs) t a m = Some bs"
  using assms
proof (induction bs arbitrary: a)
  case (Cons b bs)
  have "user_byte t (a + 1 + of_nat i) m = Some (bs ! i)" if "i < length bs" for i
    using Cons.prems[of "Suc i"] that by (simp add: add.assoc)
  then have "read_user (length bs) t (a + 1) m = Some bs" by (rule Cons.IH)
  then show ?case using Cons.prems[of 0] by simp
qed simp

lemma write_read_user:
  assumes "mm_ok m" "t < 10" "\<And>i. i < length bs \<Longrightarrow> let p = (unat a + i) div 4096 in 264 \<le> p \<and> p < 1024 \<and> pres m t p \<and> gf m t p \<noteq> 0"
  shows "\<exists>fm. write_user bs t a m = Some (m\<lparr>frame_mem := fm\<rparr>) \<and> read_user (length bs) t a (m\<lparr>frame_mem := fm\<rparr>) = Some bs"
proof -
  obtain fm where fm: "write_user bs t a m = Some (m\<lparr>frame_mem := fm\<rparr>)"
     "\<And>x. data_addr x \<Longrightarrow> user_byte t x (m\<lparr>frame_mem := fm\<rparr>) =
          (if unat a \<le> unat x \<and> unat x < unat a + length bs then Some (bs ! (unat x - unat a)) else user_byte t x m)"
    using write_user_run[OF assms] by blast
  have "user_byte t (a + of_nat i) (m\<lparr>frame_mem := fm\<rparr>) = Some (bs ! i)" if i: "i < length bs" for i
  proof -
    have p: "264 \<le> (unat a + i) div 4096" "(unat a + i) div 4096 < 1024" using assms(3)[OF i] by (simp_all add: Let_def)
    then have "unat a + i < 4194304" by linarith
    then have "unat (a + of_nat i) = unat a + i"
      by (simp add: unat_word_ariths unat_of_nat take_bit_nat_eq_self)
    then show ?thesis using fm(2)[of "a + of_nat i"] p i by (simp add: data_addr_def)
  qed
  then show ?thesis using fm(1) read_user_bytes by blast
qed

section \<open>Statistics\<close>

lemma stats_bytes_length [simp]: "length (stats_bytes st) = 28"
  by (simp add: stats_bytes_def word_bytes_def)

text \<open>
  C28: \<open>sys_get_stats\<close>, given a block of 28 bytes among the data pages, rejects a negative PID with
  \<open>-EINVAL\<close> and one no slot has with \<open>-ESRCH\<close>, both without effect; otherwise it puts there the
  statistics of the first slot with that PID, the quantum that is left as its remaining ticks,
  so that the caller reads back exactly those 28 bytes, and keeps the invariant.
\<close>

theorem get_stats_reports_task:
  assumes "proc_ok s v" "dir_pages_baseAddr (current s) = t"
    and "\<forall>q\<in>{264..<284}. pres (mm s) t q \<and> gf (mm s) t q \<noteq> 0"
    and "264 * 4096 \<le> unat st" "unat st + 28 \<le> 284 * 4096"
  shows "if sint pid < 0 then sys_get_stats pid st s = Some (- EINVAL, s)
     else case find (\<lambda>i. PID (tasks s i) = pid) [0..<10] of
         None \<Rightarrow> sys_get_stats pid st s = Some (- ESRCH, s)
       | Some i \<Rightarrow> \<exists>s'. sys_get_stats pid st s = Some (0, s') \<and> proc_ok s' v
           \<and> read_user 28 t st (mm s') = Some (stats_bytes ((p_stats (tasks s i))\<lparr>remaining_ticks := remaining_quantum s\<rparr>))"
proof -
  have t: "user_PT s' = t" if "mm s' = mm s" "current s' = current s" for s'
    using proc_okD(7)[OF assms(1)] assms(2) that by (simp add: user_PT_def get_PT_def)
  have tl: "t < 10" using proc_okD(7,8)[OF assms(1)] assms(2) by simp
  have "256 \<le> unat st div 4096" "(unat st + 28) div 4096 \<le> 284" using assms(4,5) by linarith+
  then have ok: "access_ok VERIFY_WRITE st 28"
    using assms(5) access_ok_iff[of st 28 VERIFY_WRITE] by simp
  show ?thesis
  proof (cases "sint pid < 0")
    case True
    then show ?thesis using ok by (simp add: sys_get_stats_def)
  next
    case False
    show ?thesis
    proof (cases "find (\<lambda>i. PID (tasks s i) = pid) [0..<10]")
      case None
      then show ?thesis using ok False by (simp add: sys_get_stats_def NR_TASKS_def)
    next
      case (Some i)
      let ?s1 = "upd_task i (\<lambda>ts. ts\<lparr>p_stats := (p_stats ts)\<lparr>remaining_ticks := remaining_quantum s\<rparr>\<rparr>) s"
      let ?bs = "stats_bytes ((p_stats (tasks s i))\<lparr>remaining_ticks := remaining_quantum s\<rparr>)"
      have "user_PT ?s1 = t"
        using t[of s] by (cases "running s = i") (simp_all add: user_PT_def get_PT_def current_def upd_task_def)
      moreover have pg: "let p = (unat st + k) div 4096 in 264 \<le> p \<and> p < 1024 \<and> pres (mm s) t p \<and> gf (mm s) t p \<noteq> 0"
        if "k < 28" for k
      proof -
        have "264 \<le> (unat st + k) div 4096" "(unat st + k) div 4096 < 284"
          using assms(4,5) that by simp_all
        then show ?thesis using assms(3) by (simp add: Let_def)
      qed
      have "\<exists>fm. write_user ?bs t st (mm s) = Some ((mm s)\<lparr>frame_mem := fm\<rparr>)
          \<and> read_user (length ?bs) t st ((mm s)\<lparr>frame_mem := fm\<rparr>) = Some ?bs"
        by (rule write_read_user[OF proc_okD(5)[OF assms(1)] tl]) (use pg in simp)
      then obtain fm where
        fm: "write_user ?bs t st (mm s) = Some ((mm s)\<lparr>frame_mem := fm\<rparr>)" "read_user 28 t st ((mm s)\<lparr>frame_mem := fm\<rparr>) = Some ?bs"
        by (simp only: stats_bytes_length) blast
      ultimately have run: "sys_get_stats pid st s = Some (0, ?s1\<lparr>mm := (mm s)\<lparr>frame_mem := fm\<rparr>\<rparr>)"
        using ok False Some by (simp add: sys_get_stats_def NR_TASKS_def upd_task_def Let_def)
      have "kernel_ok (?s1\<lparr>mm := (mm s)\<lparr>frame_mem := fm\<rparr>\<rparr>) v" using proc_okD(1)[OF assms(1)] by simp
      then have "proc_ok (?s1\<lparr>mm := (mm s)\<lparr>frame_mem := fm\<rparr>\<rparr>) v"
        by (rule proc_ok_frame[OF assms(1)]) (use proc_okD(5)[OF assms(1)] in \<open>simp_all add: upd_task_def\<close>)
      then show ?thesis using run fm(2) False Some
        by (simp del: upt_Suc)
    qed
  qed
qed

theorem get_stats_reports_task_witness:
  "\<exists>s s'. proc_ok s three_task_view \<and> sys_get_stats 0 1081344 s = Some (0, s')
     \<and> read_user 28 1 1081344 (mm s') = Some (stats_bytes ((p_stats (tasks s 0))\<lparr>remaining_ticks := remaining_quantum s\<rparr>))
     \<and> sys_get_stats 5 1081344 s = Some (- ESRCH, s) \<and> sys_get_stats (-1) 1081344 s = Some (- EINVAL, s)"
proof -
  obtain s where s: "proc_ok s three_task_view" "dir_pages_baseAddr (current s) = 1"
    "\<forall>q. 264 \<le> q \<longrightarrow> q < 284 \<longrightarrow> pres (mm s) 1 q" "\<forall>q. 264 \<le> q \<longrightarrow> q < 284 \<longrightarrow> gf (mm s) 1 q \<noteq> 0"
    "\<forall>i. PID (tasks s i) = 0" using proc_kernel by blast
  have pg: "\<forall>q\<in>{264..<284}. pres (mm s) 1 q \<and> gf (mm s) 1 q \<noteq> 0" using s(3,4) by simp
  have f: "find (\<lambda>i. PID (tasks s i) = 0) [0..<10] = Some 0" "find (\<lambda>i. PID (tasks s i) = 5) [0..<10] = None"
    using s(5) by (simp_all add: upt_rec)
  have st: "264 * 4096 \<le> unat (1081344 :: DWord)" "unat (1081344 :: DWord) + 28 \<le> 284 * 4096" by simp_all
  note g = get_stats_reports_task[OF s(1,2) pg st]
  have n: "\<not> sint (0 :: DWord) < 0" "\<not> sint (5 :: DWord) < 0" "sint (-1 :: DWord) < 0" by simp_all
  from g[of 0, unfolded if_not_P[OF n(1)] f option.case] g[of 5, unfolded if_not_P[OF n(2)] f option.case]
    g[of "-1", unfolded if_P[OF n(3)]] s(1)
  show ?thesis by blast
qed

text \<open>
  C27: \<open>sys_dump_screen\<close> draws a matrix the program has in a dynamic page. It fails with \<open>-EACCES\<close> and
  no effect unless the address is on a page from 284 to 1023 that has a frame; then the 2000 cells
  read from the address on appear on the screen in order, except that a cell with a line feed
  character leaves the old one, and nothing else of the screen changes. Only the first page is
  checked: a matrix that runs into a page that is not present is a fault in the kernel.
\<close>

theorem dump_screen_draws_matrix:
  "let t = get_PT s (current s); lid = unat address div 4096 in
     if lid < 284 \<or> 1024 \<le> lid \<or> gf (mm s) t lid = 0 then sys_dump_screen address s = Some (- EACCES, s)
     else case read_user 4000 t address (mm s) of
         None \<Rightarrow> sys_dump_screen address s = None
       | Some bs \<Rightarrow> \<exists>sc. sys_dump_screen address s = Some (0, s\<lparr>scr := sc\<rparr>)
           \<and> scr_x sc = scr_x (scr s) \<and> scr_y sc = scr_y (scr s)
           \<and> screen sc = (\<lambda>k. if k < 2000 \<and> ucast (cell_at bs k) \<noteq> (10 :: Byte) then cell_at bs k else screen (scr s) k)"
proof -
  let ?t = "get_PT s (current s)" and ?l = "unat address div 4096"
  have d: "sys_dump_screen address s =
      (if ?l < 284 \<or> 1024 \<le> ?l \<or> gf (mm s) ?t ?l = 0 then Some (- EACCES, s)
       else do { bs \<leftarrow> read_user 4000 ?t address (mm s); Some (0, s\<lparr>scr := dump_matrix (cell_at bs) (scr s)\<rparr>) })"
    by (simp add: sys_dump_screen_def unat_page gf_def user_PT_def layout_defs NUM_ROWS_def NUM_COLUMNS_def Let_def)
  show ?thesis unfolding Let_def d
    by (auto simp: dump_matrix_screen split: option.split)
qed

end
