(* ===== verification/Interrupts.thy ===== *)
theory Interrupts
  imports Syscalls
begin

text \<open>
  The interrupt handlers (\<open>interrupt.c\<close>, \<open>entry.S\<close>) with the keyboard map, and the descriptor tables
  (\<open>interrupt.c\<close>, \<open>mm.c\<close>, \<open>include/types.h\<close>). The library
  \<open>libzeos\<close> is not part of the repository: what \<open>zeos_show_clock\<close> draws and the entries
  \<open>set_handlers\<close> installs are parameters.
\<close>

section \<open>Keyboard and clock\<close>

definition chars :: "string \<Rightarrow> Byte list" where
  "chars = map of_char"

definition char_map :: "Byte list" where
  "char_map =
     [0, 0] @ chars ''123456''
   @ chars ''7890'' @ [39, 0, 0, 0]
   @ chars ''qwertyui''
   @ chars ''op'' @ [96] @ chars ''+'' @ [0, 0] @ chars ''as''
   @ chars ''dfghjkl'' @ [0]
   @ [0, 0, 0, 0] @ chars ''zxcv''
   @ chars ''bnm,.-'' @ [0] @ chars ''*''
   @ [0, 0, 0, 0, 0, 0, 0, 0]
   @ [0, 0, 0, 0, 0, 0, 0] @ chars ''7''
   @ chars ''89-456+1''
   @ chars ''230'' @ [0, 0, 0] @ chars ''<'' @ [0]
   @ [0, 0, 0, 0, 0, 0, 0, 0]
   @ [0, 0]"

text \<open>\<open>char_map[i]\<close>; \<open>beyond\<close> is what lies in memory behind the 98 entries.\<close>

definition char_at :: "(nat \<Rightarrow> Byte) \<Rightarrow> nat \<Rightarrow> Byte" where
  "char_at beyond i = (if i < length char_map then char_map ! i else beyond i)"

text \<open>\<open>c\<close> is the byte read from port 0x60.\<close>

definition keyboard_routine :: "(nat \<Rightarrow> Byte) \<Rightarrow> Byte \<Rightarrow> kstate \<Rightarrow> kstate" where
  "keyboard_routine beyond c s =
     (if c AND 0x80 \<noteq> 0 then s\<lparr>kbd := write_to_buffer (char_at beyond (unat (c AND 0x7F))) (kbd s)\<rparr> else s)"

definition clock_routine :: "(DWord \<Rightarrow> screen_state \<Rightarrow> screen_state) \<Rightarrow> kstate \<Rightarrow> kstate option" where
  "clock_routine show_clock s = do {
     let s = s\<lparr>scr := show_clock (zeos_ticks s) (scr s)\<rparr>;
     let s = s\<lparr>zeos_ticks := zeos_ticks s + 1\<rparr>;
     schedule s }"

definition user_to_system :: "kstate \<Rightarrow> kstate option" where
  "user_to_system s = charge_user (running s) s"

definition system_to_user :: "kstate \<Rightarrow> kstate option" where
  "system_to_user s = charge_system (running s) s"

text \<open>
  When the routine switches to another task, the rest of the handler is run by the interrupted
  task when it comes back.
\<close>

definition clock_handler :: "(DWord \<Rightarrow> screen_state \<Rightarrow> screen_state) \<Rightarrow> kstate \<Rightarrow> (outcome \<times> kstate) option" where
  "clock_handler show_clock s = do {
     s \<leftarrow> user_to_system s;
     let interrupted = running s;
     s \<leftarrow> clock_routine show_clock s;
     if running s = interrupted then do { s \<leftarrow> system_to_user s; Some (Returned 0, s) }
     else Some (Switched_out, s) }"

definition keyboard_handler :: "(nat \<Rightarrow> Byte) \<Rightarrow> Byte \<Rightarrow> kstate \<Rightarrow> kstate option" where
  "keyboard_handler beyond c s = do {
     s \<leftarrow> user_to_system s;
     let s = keyboard_routine beyond c s;
     system_to_user s }"

section \<open>Descriptors (include/types.h, include/segment.h)\<close>

definition highWord :: "DWord \<Rightarrow> Word16" where "highWord address = ucast (drop_bit 16 address AND 0xFFFF)"
definition lowWord :: "DWord \<Rightarrow> Word16" where "lowWord address = ucast (address AND 0xFFFF)"
definition midByte :: "DWord \<Rightarrow> Byte" where "midByte address = ucast (drop_bit 16 address AND 0xFF)"
definition highByte :: "DWord \<Rightarrow> Byte" where "highByte address = ucast (drop_bit (16 + 8) address AND 0xFF)"

record descriptor =
  d_limit :: Word16
  d_lowBase :: Word16
  d_midBase :: Byte
  d_flags1 :: Byte
  d_flags2 :: Byte
  d_highBase :: Byte

record gate =
  lowOffset :: Word16
  segmentSelector :: Word16
  g_flags :: Word16
  highOffset :: Word16

record dt_register =
  r_limit :: Word16
  r_base :: DWord

record tss_segment =
  PreviousTaskLink :: Word16
  esp0 :: DWord
  ss0 :: Word16
  esp1 :: DWord
  ss1 :: Word16
  esp2 :: DWord
  ss2 :: Word16
  tss_cr3 :: DWord
  eip :: DWord
  eFlags :: DWord
  t_eax :: DWord
  t_ecx :: DWord
  t_edx :: DWord
  t_ebx :: DWord
  t_esp :: DWord
  t_ebp :: DWord
  t_esi :: DWord
  t_edi :: DWord
  t_es :: Word16
  t_cs :: Word16
  t_ss :: Word16
  t_ds :: Word16
  t_fs :: Word16
  t_gs :: Word16
  LDTSegmentSelector :: Word16
  debugTrap :: Word16
  IOMapBaseAddress :: Word16

definition KERNEL_CS :: Word16 where "KERNEL_CS = 0x10"
definition KERNEL_DS :: Word16 where "KERNEL_DS = 0x18"
definition USER_CS :: Word16 where "USER_CS = 0x23"
definition USER_DS :: Word16 where "USER_DS = 0x2B"
definition KERNEL_TSS :: Word16 where "KERNEL_TSS = 0x30"
definition INITIAL_EFLAGS :: DWord where "INITIAL_EFLAGS = 0x200"
definition IDT_ENTRIES :: nat where "IDT_ENTRIES = 256"

text \<open>The tables and the registers that hold them; \<open>msr\<close> is the low half of each model specific register.\<close>

record cpu_tables =
  idt :: "nat \<Rightarrow> gate"
  idtR :: dt_register
  gdt :: "nat \<Rightarrow> descriptor"
  gdtR :: dt_register
  tss :: tss_segment
  msr :: "DWord \<Rightarrow> DWord"
  idt_reg :: dt_register
  gdt_reg :: dt_register
  task_reg :: Word16

definition setInterruptHandler :: "nat \<Rightarrow> DWord \<Rightarrow> DWord \<Rightarrow> cpu_tables \<Rightarrow> cpu_tables" where
  "setInterruptHandler vector handler maxAccessibleFromPL c =
     (let flags = ucast (push_bit 13 maxAccessibleFromPL) :: Word16;
          flags = flags OR 0x8E00
      in c\<lparr>idt := (idt c)(vector := \<lparr>lowOffset = lowWord handler, segmentSelector = KERNEL_CS,
             g_flags = flags, highOffset = highWord handler\<rparr>)\<rparr>)"

definition setTrapHandler :: "nat \<Rightarrow> DWord \<Rightarrow> DWord \<Rightarrow> cpu_tables \<Rightarrow> cpu_tables" where
  "setTrapHandler vector handler maxAccessibleFromPL c =
     (let flags = ucast (push_bit 13 maxAccessibleFromPL) :: Word16;
          flags = flags OR 0x8E00
      in c\<lparr>idt := (idt c)(vector := \<lparr>lowOffset = lowWord handler, segmentSelector = KERNEL_CS,
             g_flags = flags, highOffset = highWord handler\<rparr>)\<rparr>)"

text \<open>The addresses the linker chooses.\<close>

record kernel_symbols =
  a_idt :: DWord
  a_gdt :: DWord
  a_tss :: DWord
  a_clock_handler :: DWord
  a_keyboard_handler :: DWord
  a_system_call_handler :: DWord
  a_task :: DWord

definition INITIAL_ESP :: "kernel_symbols \<Rightarrow> DWord" where
  "INITIAL_ESP k = a_task k + of_nat (4096 * 1 + 4 * KERNEL_STACK_SIZE)"

definition setMSR :: "DWord \<Rightarrow> DWord \<Rightarrow> cpu_tables \<Rightarrow> cpu_tables" where
  "setMSR msr_number low c = c\<lparr>msr := (msr c)(msr_number := low)\<rparr>"

definition setSysenter :: "kernel_symbols \<Rightarrow> cpu_tables \<Rightarrow> cpu_tables" where
  "setSysenter k c =
     (let c = setMSR 0x174 (ucast KERNEL_CS) c;
          c = setMSR 0x175 (INITIAL_ESP k) c
      in setMSR 0x176 (a_system_call_handler k) c)"

definition setIdt :: "kernel_symbols \<Rightarrow> (cpu_tables \<Rightarrow> cpu_tables) \<Rightarrow> cpu_tables \<Rightarrow> cpu_tables" where
  "setIdt k set_handlers c =
     (let c = c\<lparr>idtR := \<lparr>r_limit = of_nat (IDT_ENTRIES * 8 - 1), r_base = a_idt k\<rparr>\<rparr>;
          c = set_handlers c;
          c = setInterruptHandler 32 (a_clock_handler k) 0 c;
          c = setInterruptHandler 33 (a_keyboard_handler k) 0 c;
          c = setSysenter k c
      in c\<lparr>idt_reg := idtR c\<rparr>)"

definition setGdt :: "kernel_symbols \<Rightarrow> cpu_tables \<Rightarrow> cpu_tables" where
  "setGdt k c =
     (let i = unat (drop_bit 3 KERNEL_TSS);
          c = c\<lparr>gdt := (gdt c)(i := (gdt c i)\<lparr>d_lowBase := lowWord (a_tss k)\<rparr>)\<rparr>;
          c = c\<lparr>gdt := (gdt c)(i := (gdt c i)\<lparr>d_midBase := midByte (a_tss k)\<rparr>)\<rparr>;
          c = c\<lparr>gdt := (gdt c)(i := (gdt c i)\<lparr>d_highBase := highByte (a_tss k)\<rparr>)\<rparr>;
          c = c\<lparr>gdtR := \<lparr>r_limit = of_nat (256 * 8), r_base = a_gdt k\<rparr>\<rparr>
      in c\<lparr>gdt_reg := gdtR c\<rparr>)"

text \<open>\<open>USER_ESP\<close> of \<open>include/mm_address.h\<close>: 16 bytes below the end of the data pages.\<close>

definition USER_ESP :: DWord where
  "USER_ESP = 0x100000 + of_nat (NUM_PAG_CODE + NUM_PAG_DATA) * 0x1000 - 16"

definition setTSS :: "kernel_symbols \<Rightarrow> cpu_tables \<Rightarrow> cpu_tables" where
  "setTSS k c = c\<lparr>tss := \<lparr>PreviousTaskLink = 0, esp0 = INITIAL_ESP k, ss0 = KERNEL_DS, esp1 = 0, ss1 = 0,
     esp2 = 0, ss2 = 0, tss_cr3 = 0, eip = 0, eFlags = INITIAL_EFLAGS, t_eax = 0, t_ecx = 0, t_edx = 0,
     t_ebx = 0, t_esp = USER_ESP, t_ebp = USER_ESP, t_esi = 0, t_edi = 0, t_es = USER_DS, t_cs = USER_CS,
     t_ss = USER_DS, t_ds = USER_DS, t_fs = 0, t_gs = 0, LDTSegmentSelector = KERNEL_TSS, debugTrap = 0,
     IOMapBaseAddress = 0\<rparr>, task_reg := KERNEL_TSS\<rparr>"

section \<open>What the tables say\<close>

text \<open>How the processor reads a gate and a descriptor.\<close>

definition gate_offset :: "gate \<Rightarrow> DWord" where
  "gate_offset g = ucast (lowOffset g) OR push_bit 16 (ucast (highOffset g))"

definition gate_present :: "gate \<Rightarrow> Word16" where "gate_present g = drop_bit 15 (g_flags g)"
definition gate_dpl :: "gate \<Rightarrow> Word16" where "gate_dpl g = drop_bit 13 (g_flags g) AND 3"
definition gate_type :: "gate \<Rightarrow> Word16" where "gate_type g = drop_bit 8 (g_flags g) AND 31"

definition descriptor_base :: "descriptor \<Rightarrow> DWord" where
  "descriptor_base d = ucast (d_lowBase d) OR push_bit 16 (ucast (d_midBase d)) OR push_bit 24 (ucast (d_highBase d))"

lemma gate_flags:
  fixes level :: DWord
  defines "f \<equiv> ucast (push_bit 13 level) OR 0x8E00 :: Word16"
  shows "drop_bit 15 f = 1" "drop_bit 13 f AND 3 = ucast level AND 3" "drop_bit 8 f AND 31 = 14"
proof -
  have m: "(0x8E00 :: Word16) = push_bit 15 1 OR push_bit 9 (mask 3)" "(3 :: Word16) = mask 2" "(31 :: Word16) = mask 5"
    by (simp_all add: mask_eq_exp_minus_1)
  show "drop_bit 15 f = 1" unfolding f_def m by (rule bit_word_eqI) (auto simp: bit_simps)
  have "drop_bit 13 (ucast (push_bit 13 level) :: Word16) AND 3 = ucast level AND 3"
    unfolding m by (rule bit_word_eqI) (auto simp: bit_simps)
  moreover have "drop_bit 13 (0x8E00 :: Word16) AND 3 = 0" by simp
  ultimately show "drop_bit 13 f AND 3 = ucast level AND 3"
    unfolding f_def by (simp only: drop_bit_or bit.conj_disj_distrib2) simp
  have "drop_bit 8 (ucast (push_bit 13 level) :: Word16) AND 31 = 0"
    unfolding m by (rule bit_word_eqI) (auto simp: bit_simps)
  moreover have "drop_bit 8 (0x8E00 :: Word16) AND 31 = 14" by simp
  ultimately show "drop_bit 8 f AND 31 = 14"
    unfolding f_def by (simp only: drop_bit_or bit.conj_disj_distrib2) simp
qed

lemma word_halves: "ucast (lowWord a) OR push_bit 16 (ucast (highWord a)) = a"
proof -
  have m: "(0xFFFF :: DWord) = mask 16" by (simp add: mask_eq_exp_minus_1)
  show ?thesis unfolding lowWord_def highWord_def m by (rule bit_word_eqI) (auto simp: bit_simps)
qed

lemma word_parts: "ucast (lowWord a) OR push_bit 16 (ucast (midByte a)) OR push_bit 24 (ucast (highByte a)) = a"
proof -
  have m: "(0xFFFF :: DWord) = mask 16" "(0xFF :: DWord) = mask 8" by (simp_all add: mask_eq_exp_minus_1)
  show ?thesis unfolding lowWord_def midByte_def highByte_def m
  proof (rule bit_word_eqI)
    fix n assume "n < LENGTH(32)"
    then consider "n < 16" | "16 \<le> n" "n < 24" | "24 \<le> n" "n < 32" by fastforce
    then show "bit (ucast (ucast (a AND mask 16) :: Word16) OR push_bit 16 (ucast (ucast (drop_bit 16 a AND mask 8) :: Byte))
       OR push_bit 24 (ucast (ucast (drop_bit (16 + 8) a AND mask 8) :: Byte)) :: DWord) n = bit a n"
      by cases (auto simp: bit_simps)
  qed
qed

lemma handler_gate:
  "gate_offset (idt (setInterruptHandler n h level c) n) = h" "gate_present (idt (setInterruptHandler n h level c) n) = 1"
  "gate_dpl (idt (setInterruptHandler n h level c) n) = ucast level AND 3"
  "gate_type (idt (setInterruptHandler n h level c) n) = 14"
  "segmentSelector (idt (setInterruptHandler n h level c) n) = 0x10"
  "setTrapHandler n h level c = setInterruptHandler n h level c"
proof -
  have f: "g_flags (idt (setInterruptHandler n h level c) n) = ucast (push_bit 13 level) OR 0x8E00"
    by (simp add: setInterruptHandler_def Let_def)
  show "gate_present (idt (setInterruptHandler n h level c) n) = 1"
    "gate_dpl (idt (setInterruptHandler n h level c) n) = ucast level AND 3"
    "gate_type (idt (setInterruptHandler n h level c) n) = 14"
    unfolding gate_present_def gate_dpl_def gate_type_def f by (rule gate_flags)+
qed (simp_all add: setInterruptHandler_def setTrapHandler_def gate_offset_def word_halves KERNEL_CS_def Let_def)

text \<open>
  C30: The descriptors the kernel builds mean what they should to the processor. A gate of
  \<open>setInterruptHandler\<close> holds the address of its handler in the kernel code segment, is present,
  of type 14 (interrupt gate) and has the privilege level given; \<open>setTrapHandler\<close> builds the same
  gate, not a trap gate. After \<open>setIdt\<close> the clock has vector 32, the keyboard 33, both closed to
  user programs, every other vector is as \<open>set_handlers\<close> left it, and the \<open>sysenter\<close> registers
  hold the kernel code segment, the top of the kernel stack of slot 1 and the system call
  handler. After \<open>setGdt\<close> the base of the TSS descriptor is the address of the TSS.
\<close>

theorem descriptor_tables_decode:
  "(let g = idt (setInterruptHandler n h level c) n in
     gate_offset g = h \<and> segmentSelector g = 0x10 \<and> gate_present g = 1 \<and> gate_type g = 14
     \<and> gate_dpl g = ucast level AND 3 \<and> setTrapHandler n h level c = setInterruptHandler n h level c)
   \<and> (let c0 = set_handlers (c\<lparr>idtR := \<lparr>r_limit = 2047, r_base = a_idt k\<rparr>\<rparr>); c' = setIdt k set_handlers c in
     idt c' = (\<lambda>v. if v = 33 then idt (setInterruptHandler 33 (a_keyboard_handler k) 0 c0) 33
                else if v = 32 then idt (setInterruptHandler 32 (a_clock_handler k) 0 c0) 32 else idt c0 v)
     \<and> msr c' 0x174 = 0x10 \<and> msr c' 0x175 = a_task k + 8192 \<and> msr c' 0x176 = a_system_call_handler k)
   \<and> descriptor_base (gdt (setGdt k c) 6) = a_tss k"
proof (intro conjI)
  show "let g = idt (setInterruptHandler n h level c) n in
     gate_offset g = h \<and> segmentSelector g = 0x10 \<and> gate_present g = 1 \<and> gate_type g = 14
     \<and> gate_dpl g = ucast level AND 3 \<and> setTrapHandler n h level c = setInterruptHandler n h level c"
    by (simp add: handler_gate Let_def)
  have "idt (setInterruptHandler n h l c1) = (idt c2)(n := x)" if "idt c1 = idt c2" "x = idt (setInterruptHandler n h l c2) n"
    for n h l c1 c2 x using that by (simp add: setInterruptHandler_def Let_def)
  then show "let c0 = set_handlers (c\<lparr>idtR := \<lparr>r_limit = 2047, r_base = a_idt k\<rparr>\<rparr>); c' = setIdt k set_handlers c in
     idt c' = (\<lambda>v. if v = 33 then idt (setInterruptHandler 33 (a_keyboard_handler k) 0 c0) 33
                else if v = 32 then idt (setInterruptHandler 32 (a_clock_handler k) 0 c0) 32 else idt c0 v)
     \<and> msr c' 0x174 = 0x10 \<and> msr c' 0x175 = a_task k + 8192 \<and> msr c' 0x176 = a_system_call_handler k"
    by (auto simp: setIdt_def setSysenter_def setMSR_def setInterruptHandler_def Let_def IDT_ENTRIES_def fun_eq_iff
        KERNEL_CS_def INITIAL_ESP_def KERNEL_STACK_SIZE_def)
  show "descriptor_base (gdt (setGdt k c) 6) = a_tss k"
    by (simp add: setGdt_def descriptor_base_def word_parts KERNEL_TSS_def Let_def)
qed

section \<open>The handlers on a consistent kernel\<close>

lemma proc_ok_stats:
  assumes "proc_ok s v" "stats_only s s'"
  shows "proc_ok s' v"
proof (rule proc_ok_sched_frame[OF assms(1) _ sched_frame_stats[OF assms(2)]])
  show "kernel_ok s' v"
    using proc_okD(2,3)[OF assms(1)] sem_ok_frame[of s' s v v]
    by (simp add: kernel_ok_def sched_ok_def views_def stats_only_simps[OF assms(2)])
qed

lemma proc_ok_devices [simp]:
  "proc_ok (s\<lparr>kbd := k\<rparr>) v \<longleftrightarrow> proc_ok s v" "proc_ok (s\<lparr>scr := sc\<rparr>) v \<longleftrightarrow> proc_ok s v"
  "proc_ok (s\<lparr>zeos_ticks := z\<rparr>) v \<longleftrightarrow> proc_ok s v"
  by (simp_all add: proc_ok_def mem_ok_def)

lemma handler_stats:
  "proc_ok s v \<Longrightarrow> \<exists>s'. user_to_system s = Some s' \<and> proc_ok s' v \<and> stats_only s s'"
  "proc_ok s v \<Longrightarrow> \<exists>s'. system_to_user s = Some s' \<and> proc_ok s' v \<and> stats_only s s'"
  unfolding user_to_system_def system_to_user_def using charge_stats_only(1,2) proc_ok_stats by blast+

lemma clock_handler_run:
  assumes "proc_ok s v"
  shows "\<exists>r s'. clock_handler show_clock s = Some (r, s') \<and> proc_ok s' (tick_view (remaining_quantum s) v)
     \<and> zeos_ticks s' = zeos_ticks s + 1 \<and> scr s' = show_clock (zeos_ticks s) (scr s) \<and> kbd s' = kbd s"
proof -
  obtain s1 where s1: "user_to_system s = Some s1" "proc_ok s1 v" "stats_only s s1"
    using handler_stats(1)[OF assms] by blast
  let ?s2 = "s1\<lparr>scr := show_clock (zeos_ticks s1) (scr s1), zeos_ticks := zeos_ticks s1 + 1\<rparr>"
  have ok2: "proc_ok ?s2 v" using s1(2) by simp
  have q: "remaining_quantum ?s2 = remaining_quantum s" by (simp add: stats_only_simps[OF s1(3)])
  obtain s3 where s3: "schedule ?s2 = Some s3" "sched_ok s3 (tick_view (remaining_quantum s) v)" "sched_frame ?s2 s3"
    using schedule_step[OF proc_okD(2)[OF ok2]] unfolding q by blast
  have "sem_ok s3 (tick_view (remaining_quantum s) v)"
    using sem_ok_frame[of s3 ?s2 "tick_view (remaining_quantum s) v" v] proc_okD(3)[OF ok2] s3(3)
    by (simp add: sched_frame_def tick_view_def)
  then have ok3: "proc_ok s3 (tick_view (remaining_quantum s) v)"
    using proc_ok_sched_frame[OF ok2 _ s3(3)] s3(2) by (simp add: kernel_ok_def)
  obtain s4 where s4: "system_to_user s3 = Some s4" "proc_ok s4 (tick_view (remaining_quantum s) v)" "stats_only s3 s4"
    using handler_stats(2)[OF ok3] by blast
  have r: "clock_routine show_clock s1 = Some s3" using s3(1) by (simp add: clock_routine_def)
  show ?thesis
  proof (cases "running s3 = running s1")
    case True
    then have "clock_handler show_clock s = Some (Returned 0, s4)" using s1(1) r s4(1) by (simp add: clock_handler_def)
    then show ?thesis using s4(2) s3(3) by (simp add: stats_only_simps[OF s4(3)] stats_only_simps[OF s1(3)] sched_frame_def)
  next
    case False
    then have "clock_handler show_clock s = Some (Switched_out, s3)" using s1(1) r by (simp add: clock_handler_def)
    then show ?thesis using ok3 s3(3) by (simp add: stats_only_simps[OF s1(3)] sched_frame_def)
  qed
qed

lemma keyboard_handler_run:
  assumes "proc_ok s v"
  shows "\<exists>s'. keyboard_handler beyond c s = Some s' \<and> proc_ok s' v \<and> kbd s' = kbd (keyboard_routine beyond c s)"
proof -
  obtain s1 where s1: "user_to_system s = Some s1" "proc_ok s1 v" "stats_only s s1"
    using handler_stats(1)[OF assms] by blast
  have ok2: "proc_ok (keyboard_routine beyond c s1) v" using s1(2) by (simp add: keyboard_routine_def)
  obtain s3 where s3: "system_to_user (keyboard_routine beyond c s1) = Some s3" "proc_ok s3 v"
     "stats_only (keyboard_routine beyond c s1) s3"
    using handler_stats(2)[OF ok2] by blast
  have "keyboard_handler beyond c s = Some s3" using s1(1) s3(1) by (simp add: keyboard_handler_def)
  moreover have "kbd s3 = kbd (keyboard_routine beyond c s)"
    unfolding stats_only_fields(11)[OF s3(3)] using stats_only_fields(11)[OF s1(3)] by (simp add: keyboard_routine_def)
  ultimately show ?thesis using s3(2) by blast
qed

section \<open>Keys from the interrupt to the program\<close>

lemma kbd_pop_read:
  "kbd_contents r = [] \<Longrightarrow> kbd_wf r \<Longrightarrow> fst (read_from_buffer 0 r) = -1"
  "kbd_contents r = x # xs \<Longrightarrow> kbd_wf r \<Longrightarrow> \<exists>r'. read_from_buffer 0 r = (0, x, r') \<and> kbd_wf r' \<and> kbd_contents r' = xs"
proof -
  assume "kbd_contents r = []" "kbd_wf r"
  then show "fst (read_from_buffer 0 r) = -1"
    using kbd.pop_empty[of r] by (auto simp: kbd_pop_def read_from_buffer_def split: if_splits)
next
  assume "kbd_contents r = x # xs" "kbd_wf r"
  then obtain r' where "kbd_pop r = Some (x, r')" "kbd_wf r'" "kbd_contents r' = xs" using kbd.pop_cons by blast
  then show "\<exists>r'. read_from_buffer 0 r = (0, x, r') \<and> kbd_wf r' \<and> kbd_contents r' = xs"
    by (auto simp: kbd_pop_def read_from_buffer_def split: if_splits)
qed

text \<open>
  C29: Keys reach the program in the order they were released. The keyboard interrupt queues the
  character of the key released (whatever lies behind \<open>char_map\<close> for the codes 98 to 127), drops
  it when 32 are waiting and ignores a key pressed. \<open>sys_get_key\<close>, given an address among the
  data pages, stores the oldest waiting character there, removes it and returns 0; when none
  waits it returns -1 and changes nothing. The kernel's invariant is kept.
\<close>

theorem keys_reach_program_in_order:
  assumes "proc_ok s v" "dir_pages_baseAddr (current s) = t" "kbd_wf (kbd s)"
    and "\<forall>q\<in>{264..<284}. pres (mm s) t q \<and> gf (mm s) t q \<noteq> 0"
    and "264 * 4096 \<le> unat a" "unat a + 4 \<le> 284 * 4096"
  shows "(let s1 = keyboard_routine beyond c s; x = char_at beyond (unat (c AND 0x7F)) in
       proc_ok s1 v \<and> kbd_wf (kbd s1)
       \<and> kbd_contents (kbd s1) = (if c AND 0x80 = 0 \<or> length (kbd_contents (kbd s)) = 32 then kbd_contents (kbd s)
            else kbd_contents (kbd s) @ [x]))
     \<and> (case kbd_contents (kbd s) of
         [] \<Rightarrow> sys_get_key a s = Some (-1, s)
       | x # xs \<Rightarrow> \<exists>s'. sys_get_key a s = Some (0, s') \<and> proc_ok s' v \<and> user_byte t a (mm s') = Some x
           \<and> kbd_wf (kbd s') \<and> kbd_contents (kbd s') = xs)"
proof (rule conjI)
  show "let s1 = keyboard_routine beyond c s; x = char_at beyond (unat (c AND 0x7F)) in
       proc_ok s1 v \<and> kbd_wf (kbd s1)
       \<and> kbd_contents (kbd s1) = (if c AND 0x80 = 0 \<or> length (kbd_contents (kbd s)) = 32 then kbd_contents (kbd s)
            else kbd_contents (kbd s) @ [x])"
    using assms(1,3) kbd.push_inv[OF assms(3)] kbd.push_contents[OF assms(3)] kbd.contents_bound[OF assms(3)]
    by (auto simp: keyboard_routine_def spec_push_def KBD_BUFF_SIZE_def Let_def)
next
  have t: "user_PT s = t" using proc_okD(7)[OF assms(1)] assms(2) by (simp add: user_PT_def)
  have tl: "t < 10" using proc_okD(7,8)[OF assms(1)] assms(2) by simp
  have pg: "264 \<le> unat a div 4096" "unat a div 4096 < 284" using assms(5,6) by linarith+
  have "(unat a + 4) div 4096 \<le> 284" using assms(6) by linarith
  then have ok: "access_ok VERIFY_WRITE a 4"
    using pg assms(6) access_ok_iff[of a 4 VERIFY_WRITE] by simp
  show "case kbd_contents (kbd s) of
         [] \<Rightarrow> sys_get_key a s = Some (-1, s)
       | x # xs \<Rightarrow> \<exists>s'. sys_get_key a s = Some (0, s') \<and> proc_ok s' v \<and> user_byte t a (mm s') = Some x
           \<and> kbd_wf (kbd s') \<and> kbd_contents (kbd s') = xs"
  proof (cases "kbd_contents (kbd s)")
    case Nil
    then have "fst (read_from_buffer 0 (kbd s)) = -1" using kbd_pop_read(1) assms(3) by blast
    then show ?thesis using ok Nil by (cases "read_from_buffer 0 (kbd s)") (simp add: sys_get_key_def)
  next
    case (Cons x xs)
    obtain r' where r': "read_from_buffer 0 (kbd s) = (0, x, r')" "kbd_wf r'" "kbd_contents r' = xs"
      using kbd_pop_read(2)[OF Cons assms(3)] by blast
    have da: "data_addr a" using pg by (simp add: data_addr_def)
    have "pres (mm s) t (unat a div 4096)" "gf (mm s) t (unat a div 4096) \<noteq> 0" using assms(4) pg by simp_all
    then obtain fm where fm: "put_user_byte t a x (mm s) = Some ((mm s)\<lparr>frame_mem := fm\<rparr>)"
       "user_byte t a ((mm s)\<lparr>frame_mem := fm\<rparr>) = Some x"
      using put_user_run[OF proc_okD(5)[OF assms(1)] tl da, of x] da by auto
    have "proc_ok (s\<lparr>mm := (mm s)\<lparr>frame_mem := fm\<rparr>\<rparr>) v"
      by (rule proc_ok_mm[OF assms(1)]) (use proc_okD(5)[OF assms(1)] in simp_all)
    then have "proc_ok (s\<lparr>kbd := r', mm := (mm s)\<lparr>frame_mem := fm\<rparr>\<rparr>) v"
      using proc_ok_mm[of "s\<lparr>kbd := r'\<rparr>" v "(mm s)\<lparr>frame_mem := fm\<rparr>"] assms(1) proc_okD(5)[OF assms(1)] by simp
    then show ?thesis
      using ok r' fm t Cons by (simp add: sys_get_key_def)
  qed
qed

theorem keys_reach_program_in_order_witness:
  "\<exists>s s'. proc_ok s three_task_view \<and> sys_get_key 1081344 s = Some (-1, s)
     \<and> kbd_contents (kbd (keyboard_routine (\<lambda>_. 0) 0x90 s)) = [113]
     \<and> sys_get_key 1081344 (keyboard_routine (\<lambda>_. 0) 0x90 s) = Some (0, s') \<and> user_byte 1 1081344 (mm s') = Some 113"
proof -
  obtain s where s: "proc_ok s three_task_view" "dir_pages_baseAddr (current s) = 1"
    "\<forall>q. 264 \<le> q \<longrightarrow> q < 284 \<longrightarrow> pres (mm s) 1 q" "\<forall>q. 264 \<le> q \<longrightarrow> q < 284 \<longrightarrow> gf (mm s) 1 q \<noteq> 0"
    "kbd s = kbd_init" using proc_kernel by blast
  have pg: "\<forall>q\<in>{264..<284}. pres (mm s) 1 q \<and> gf (mm s) 1 q \<noteq> 0" using s(3,4) by simp
  have w: "kbd_wf (kbd s)" "kbd_contents (kbd s) = []" using kbd_wf_init kbd_contents_init s(5) by simp_all
  have a: "264 * 4096 \<le> unat (1081344 :: DWord)" "unat (1081344 :: DWord) + 4 \<le> 284 * 4096" by simp_all
  let ?s1 = "keyboard_routine (\<lambda>_. 0) 0x90 s"
  have ch: "char_at (\<lambda>_. 0) (unat ((0x90 :: Byte) AND 0x7F)) = 113" by (simp add: char_at_def char_map_def chars_def)
  note k = keys_reach_program_in_order[OF s(1,2) w(1) pg a, of "\<lambda>_. 0" "0x90", unfolded Let_def ch w(2)]
  have k1: "proc_ok ?s1 three_task_view" "kbd_wf (kbd ?s1)" "kbd_contents (kbd ?s1) = [113]" using k by simp_all
  have e: "current ?s1 = current s" "mm ?s1 = mm s" by (simp_all add: keyboard_routine_def current_def)
  note k2 = keys_reach_program_in_order[OF k1(1) _ k1(2) _ a, of 1 "\<lambda>_. 0" 0, unfolded e k1(3), OF s(2) pg]
  from k2 obtain s' where "sys_get_key 1081344 ?s1 = Some (0, s')" "user_byte 1 1081344 (mm s') = Some 113" by auto
  then show ?thesis using s(1) k k1(3) by (intro exI[of _ s] exI[of _ s']) simp
qed

end
