(* ===== verification/Kernel_Run.thy ===== *)
theory Kernel_Run
  imports Interrupts
begin

text \<open>
  The whole kernel: the boot sequence of \<open>system.c\<close> with \<open>init_mm\<close>, and the runs that follow it,
  in which clock and keyboard interrupts, system calls and stores of user programs come in any
  order. The state of a run is the one of \<^theory_text>\<open>Kernel_State\<close>; its invariant is \<open>proc_ok\<close>.
\<close>

section \<open>Boot\<close>

definition init_mm :: "nat \<Rightarrow> kstate \<Rightarrow> kstate" where
  "init_mm prot s =
     (let s = s\<lparr>mm := init_table_pages prot (mm s)\<rparr>;
          s = s\<lparr>mm := (mm s)\<lparr>phys_mem := snd (init_frames (phys_mem (mm s)))\<rparr>\<rparr>;
          s = s\<lparr>mm := init_dir_pages (mm s)\<rparr>;
          (_, s) = allocate_DIR 0 s
      in set_cr3 (get_DIR (tasks s 0)) s)"

text \<open>
  What \<open>main\<close> does to the kernel state, from the image in memory to the return into user mode, where
  task 1 runs. The descriptor tables, the registers and the copy of the user program are added in
  \<open>Start_Up\<close>.
\<close>

definition boot :: "nat \<Rightarrow> DWord \<Rightarrow> kstate \<Rightarrow> kstate option" where
  "boot prot cpu_idle s = do {
     let s = s\<lparr>scr := printk (chars ''Kernel Loaded!    '') (scr s)\<rparr>;
     s \<leftarrow> start_tasks cpu_idle (init_mm prot s);
     let s = s\<lparr>scr := printk (chars ''Entering user mode...'') (scr s)\<rparr>;
     Some (s\<lparr>running := 1\<rparr>) }"

section \<open>Runs\<close>

text \<open>
  A user program may store into its own pages. The pages of the kernel are not open to it (after
  \<open>set_ss_pag\<close> in \<open>sys_fork\<close> they are, in the child; such a store is not a step here).
\<close>

definition user_store :: "DWord \<Rightarrow> Byte \<Rightarrow> kstate \<Rightarrow> kstate option" where
  "user_store a b s =
     (if 256 \<le> unat a div 4096
      then do { m \<leftarrow> put_user_byte (user_PT s) a b (mm s); Some (s\<lparr>mm := m\<rparr>) } else None)"

text \<open>
  The two things the code does not check itself: a semaphore must not be created with a value
  that is negative as an \<open>int\<close>, nor be signalled at the largest one.
\<close>

definition sem_ranges :: "DWord \<Rightarrow> DWord \<Rightarrow> DWord \<Rightarrow> kstate \<Rightarrow> bool" where
  "sem_ranges eax ebx ecx s \<longleftrightarrow>
     (unat eax = 27 \<longrightarrow> 0 \<le> sint ecx)
   \<and> (unat eax = 29 \<longrightarrow> sint (counter (list_sem s (sem_index ebx))) < 2147483647)"

inductive kernel_run :: "(DWord \<Rightarrow> screen_state \<Rightarrow> screen_state) \<Rightarrow> (nat \<Rightarrow> Byte) \<Rightarrow> kstate \<Rightarrow> bool"
  for show_clock beyond where
  run_boot: "boot prot cpu_idle (kernel_image clock vga base) = Some s \<Longrightarrow> kernel_run show_clock beyond s"
| run_clock: "kernel_run show_clock beyond s \<Longrightarrow> clock_handler show_clock s = Some (r, s')
     \<Longrightarrow> kernel_run show_clock beyond s'"
| run_clock_end: "kernel_run show_clock beyond s \<Longrightarrow> system_to_user s = Some s' \<Longrightarrow> kernel_run show_clock beyond s'"
| run_key: "kernel_run show_clock beyond s \<Longrightarrow> keyboard_handler beyond c s = Some s' \<Longrightarrow> kernel_run show_clock beyond s'"
| run_call: "kernel_run show_clock beyond s \<Longrightarrow> idle_task s \<noteq> Some (running s) \<Longrightarrow> sem_ranges eax ebx ecx s
     \<Longrightarrow> system_call_handler rff eax ebx ecx edx s = Some (r, s') \<Longrightarrow> kernel_run show_clock beyond s'"
| run_wait_end: "kernel_run show_clock beyond s \<Longrightarrow> sem_wait_exit s = (r, s') \<Longrightarrow> kernel_run show_clock beyond s'"
| run_store: "kernel_run show_clock beyond s \<Longrightarrow> user_store a b s = Some s' \<Longrightarrow> kernel_run show_clock beyond s'"

section \<open>Boot establishes the invariant\<close>

lemma init_table_pages_frame:
  "phys_mem (init_table_pages prot m) = phys_mem m" "dir_pages (init_table_pages prot m) = dir_pages m"
  unfolding init_table_pages_def
  by (rule fold_preserves[where P = "\<lambda>x. phys_mem x = phys_mem m"], simp_all)
     (rule fold_preserves[where P = "\<lambda>x. dir_pages x = dir_pages m"], simp_all)

lemma init_table_user: "256 \<le> p \<Longrightarrow> p < 1024 \<Longrightarrow> get_frame (init_table prot PT) p = 0"
proof -
  assume p: "256 \<le> p" "p < 1024"
  have z: "fold (\<lambda>i PT. PT(i := 0)) [0..<n] PT p = 0" if "p < n" for n using that by (simp add: fold_upd_const)
  have k: "fold init_kernel_entry [1..<n] PT p = PT p" if "n \<le> 256" for n and PT :: page_table
    using that p(1) by (induction n) (auto simp: init_kernel_entry_def fun_upd_def)
  have s: "get_bits 12 20 (set_bits 0 (Suc 0) 0 w) = get_bits 12 20 w" for w :: DWord
    by (simp add: get_set_bits_other)
  have e: "fold init_kernel_entry [Suc 0..<256] (fold (\<lambda>i PT. PT(i := 0)) [0..<1024] PT) p = 0"
    using k[of 256] z[of 1024] p by simp
  show ?thesis
    by (cases "p = prot"; cases "p = prot + 11")
       (use e in \<open>simp_all add: init_table_def get_frame_def pte_defs s layout_defs Let_def\<close>)
qed

lemma init_table_pages_user: "256 \<le> p \<Longrightarrow> p < 1024 \<Longrightarrow> t < 10 \<Longrightarrow> gf (init_table_pages prot m) t p = 0"
proof -
  assume p: "256 \<le> p" "p < 1024" "t < 10"
  have "pagusr_table (fold (\<lambda>j mm. mm\<lparr>pagusr_table := (pagusr_table mm)(j := init_table prot (pagusr_table mm j))\<rparr>)
       [0..<n] m) t = (if t < n then init_table prot (pagusr_table m t) else pagusr_table m t)" for n
    by (induction n) auto
  then show ?thesis using p init_table_user by (simp add: gf_def init_table_pages_def NR_TASKS_def)
qed

text \<open>\<open>set_user_pages\<close> on a task that maps nothing in the user area.\<close>

lemma user_entry_frame:
  "f \<in> pool \<Longrightarrow> pte_pbase_addr (set_present 1 (set_user 1 (set_pbase_addr (of_nat f) 0))) = of_nat f"
  "f \<in> pool \<Longrightarrow> pte_pbase_addr (set_present 1 (set_rw 1 (set_user 1 (set_pbase_addr (of_nat f) 0)))) = of_nat f"
  by (simp_all add: pte_defs get_set_bits_other get_set_bits_same pool_frame_mask)

lemma set_user_pages_dirs [simp]: "dir_pages (set_user_pages t m) = dir_pages m"
  unfolding set_user_pages_def
  by (rule fold_preserves[where P = "\<lambda>x. dir_pages x = dir_pages m"],
      rule fold_preserves[where P = "\<lambda>x. dir_pages x = dir_pages m"])
     (simp_all add: set_code_page_def set_data_page_def split: prod.splits)

lemma mm_ok_user_pages:
  assumes "\<And>u p. u < 10 \<Longrightarrow> 256 \<le> p \<Longrightarrow> p < 1024 \<Longrightarrow> gf m u p = 0" "28 \<le> card (free_frames (phys_mem m))" "t < 10"
  shows "mm_ok (set_user_pages t m)"
proof -
  obtain frs where frs: "length frs = 28" "distinct frs" "set frs \<subseteq> free_frames (phys_mem m)"
     "free_frames (phys_mem (set_user_pages t m)) = free_frames (phys_mem m) - set frs"
     "\<forall>u q. pagusr_table (set_user_pages t m) u q =
          (if u \<noteq> t \<or> q < 256 \<or> 284 \<le> q then pagusr_table m u q
           else if q < 264 then set_present 1 (set_user 1 (set_pbase_addr (of_nat (frs ! (q - 256))) 0))
           else set_present 1 (set_rw 1 (set_user 1 (set_pbase_addr (of_nat (frs ! (q - 256))) 0))))"
    using set_user_pages_run[OF assms(2)] by metis
  have pl: "frs ! i \<in> pool" if "i < 28" for i
  proof -
    have "frs ! i \<in> free_frames (phys_mem m)" using frs(1,3) that by (metis nth_mem subsetD)
    then show ?thesis by (simp add: free_frames_def)
  qed
  have g: "gf (set_user_pages t m) u q = (if u = t \<and> q < 284 then of_nat (frs ! (q - 256)) else 0)"
    if "u < 10" "256 \<le> q" "q < 1024" for u q
  proof (cases "u = t \<and> q < 284")
    case True
    then have "q - 256 < 28" using that(2) by linarith
    then have f: "frs ! (q - 256) \<in> pool" by (rule pl)
    show ?thesis
      using True that(2) user_entry_frame[OF f] by (cases "q < 264") (simp_all add: gf_def get_frame_def frs(5))
  next
    case False
    then have "pagusr_table (set_user_pages t m) u q = pagusr_table m u q" using that(2) by (auto simp: frs(5))
    then show ?thesis using False assms(1)[OF that] by (auto simp: gf_def get_frame_def)
  qed
  show ?thesis
  proof (rule mm_okI)
    fix u p assume a: "u < 10" "256 \<le> p" "p < 1024" "gf (set_user_pages t m) u p \<noteq> 0"
    then have "p < 284" "unat (gf (set_user_pages t m) u p) = frs ! (p - 256)"
      using g[OF a(1-3)] frame_word[OF pl[of "p - 256"]] by (auto split: if_splits)
    then show "unat (gf (set_user_pages t m) u p) \<notin> free_frames (phys_mem (set_user_pages t m))"
      using frs(1) a(2) by (simp add: frs(4))
  next
    fix u w p q assume a: "u < 10" "w < 10" "264 \<le> p" "p < 1024" "256 \<le> q" "q < 1024"
      "gf (set_user_pages t m) u p \<noteq> 0" "gf (set_user_pages t m) u p = gf (set_user_pages t m) w q"
    have p: "u = t" "p < 284" "w = t" "q < 284" using g[of u p] g[of w q] a by (auto split: if_splits)
    then have e: "(of_nat (frs ! (p - 256)) :: DWord) = of_nat (frs ! (q - 256))" using g[of u p] g[of w q] a by simp
    have "p - 256 < 28" "q - 256 < 28" using p(2,4) a(3,5) by linarith+
    then have "frs ! (p - 256) = frs ! (q - 256)" using frame_word[OF pl] arg_cong[OF e, of unat] by metis
    then show "u = w \<and> p = q" using p frs(1,2) a(3,5) by (simp add: nth_eq_iff_index_eq)
  qed
qed

lemma boot_run:
  "\<exists>s. boot prot cpu_idle (kernel_image clock vga base) = Some s \<and> proc_ok s boot_view"
proof -
  let ?i = "kernel_image clock vga base"
  let ?s0 = "init_mm prot (?i\<lparr>scr := printk (chars ''Kernel Loaded!    '') (scr ?i)\<rparr>)"
  let ?m = "mm ?s0"
  obtain s' where s': "start_tasks cpu_idle ?s0 = Some s'" "queues (heap s') (qmap boot_view)" "idle_task s' = Some 0"
    "tstate (tasks s' 1) = ST_RUN" "mm s' = set_user_pages (PT_of_dir ?m 1) ?m" "list_sem s' = list_sem ?s0"
    "\<forall>i. dir_pages_baseAddr (tasks s' i) = (if i < 2 then i else dir_pages_baseAddr (tasks ?s0 i))"
    using start_tasks_run[of cpu_idle ?s0] by blast
  have m: "?m = init_dir_pages ((init_table_pages prot zero_mm)\<lparr>phys_mem := snd (init_frames (phys_mem zero_mm))\<rparr>)"
    by (simp add: init_mm_def allocate_DIR_def upd_task_def set_cr3_def kernel_image_def init_table_pages_frame Let_def)
  have dir: "PT_of_dir ?m i = i" if "i < 10" for i
    using that init_dir_pages_table[of i] by (simp add: m PT_of_dir_def NR_TASKS_def)
  have z: "gf ?m u p = 0" if "u < 10" "256 \<le> p" "p < 1024" for u p
    using init_table_pages_user[OF that(2,3,1)] by (simp add: m gf_def init_dir_pages_frame)
  have fr: "free_frames (phys_mem ?m) = pool" by (simp add: m init_dir_pages_frame init_frames_free)
  have "mm_ok (mm s')"
    unfolding s'(5) by (rule mm_ok_user_pages) (use z fr dir[of 1] in \<open>simp_all add: card_pool\<close>)
  moreover have "PT_of_dir (mm s') i = i" if "i < 10" for i
    using dir[OF that] PT_of_dir_cong[of "mm s'" ?m] by (simp add: s'(5))
  moreover have d: "dir_pages_baseAddr (tasks ?s0 i) = 0" "list_sem ?s0 i = \<lparr>isInit = 0, counter = 0\<rparr>" for i
    by (simp_all add: init_mm_def allocate_DIR_def upd_task_def set_cr3_def kernel_image_def zero_task_def Let_def)
  moreover let ?s = "s'\<lparr>scr := printk (chars ''Entering user mode...'') (scr s'), running := 1\<rparr>"
  have "sched_ok ?s boot_view"
    using s'(2,3,4) boot_view_ok by (simp add: sched_ok_def views_def boot_view_def)
  moreover have "sem_ok ?s boot_view" using s'(6) d(2) by (simp add: sem_ok_def boot_view_def)
  ultimately have "proc_ok ?s boot_view"
    using s'(7) by (simp add: proc_ok_def kernel_ok_def mem_ok_def)
  then show ?thesis using s'(1) by (intro exI[of _ ?s]) (simp add: boot_def)
qed

section \<open>Every step keeps the invariant\<close>

text \<open>Steps that change the queues and the semaphores only.\<close>

lemma proc_ok_sem_frame:
  assumes "proc_ok s v" "sched_ok s' v'" "sem_ok s' v'" "mm s' = mm s"
    and "\<And>i. dir_pages_baseAddr (tasks s' i) = dir_pages_baseAddr (tasks s i)"
  shows "proc_ok s' v'"
  by (rule proc_ok_frame[OF assms(1)])
     (use assms(2-5) proc_okD(5)[OF assms(1)] in \<open>simp_all add: kernel_ok_def\<close>)

lemma sem_init_keeps:
  assumes "proc_ok s v" "0 \<le> sint val" "sys_sem_init n val s = Some (r, s')"
  shows "\<exists>v'. proc_ok s' v'"
proof (cases "valid_sem n True s = 0")
  case True
  let ?w = "v\<lparr>v_sem := (v_sem v)(sem_index n \<mapsto> [])\<rparr>"
  have f: "mm s' = mm s" "tasks s' = tasks s"
    using assms(3) by (auto simp: sys_sem_init_def upd_sem_def Let_def split: if_splits bind_splits)
  have k: "sched_ok s' ?w" "list_sem s' = (list_sem s)(sem_index n := \<lparr>isInit = 1, counter = val\<rparr>)"
    using sys_sem_init_run[OF proc_okD(2,3)[OF assms(1)] True, of val] assms(3) by auto
  have "sem_ok s' ?w"
    using sem_ok_change[OF proc_okD(3)[OF assms(1)], of "sem_index n" s' ?w "[]"] k(2) assms(2) by simp
  then show ?thesis using proc_ok_sem_frame[OF assms(1) k(1)] f by auto
next
  case False
  then show ?thesis using assms(1,3) by (auto simp: sys_sem_init_def)
qed

lemma sem_wait_exit_keeps:
  assumes "proc_ok s v" "sem_wait_exit s = (r, s')"
  shows "proc_ok s' v"
proof -
  have "kernel_ok (upd_task (running s) (\<lambda>ts. ts\<lparr>destroyed := 0\<rparr>) s) v" using proc_okD(1)[OF assms(1)] by simp
  then have "proc_ok (upd_task (running s) (\<lambda>ts. ts\<lparr>destroyed := 0\<rparr>) s) v"
    by (rule proc_ok_frame[OF assms(1)]) (use proc_okD(5)[OF assms(1)] in \<open>simp_all add: upd_task_def\<close>)
  then show ?thesis using assms by (auto simp: sem_wait_exit_def split: if_splits)
qed

lemma sem_wait_keeps:
  assumes "proc_ok s v" "v_run v \<noteq> v_idle v" "sys_sem_wait n s = Some (r, s')"
  shows "\<exists>v'. proc_ok s' v'"
proof (cases "valid_sem n False s = 0")
  case True
  let ?s1 = "upd_sem (sem_index n) (\<lambda>m. m\<lparr>counter := counter m - 1\<rparr>) s"
  note run = sys_sem_wait_run[OF proc_okD(1)[OF assms(1)] True assms(2)]
  have f: "mm ?s1 = mm s" "tasks ?s1 = tasks s" by (simp_all add: upd_sem_def)
  show ?thesis
  proof (cases "0 < sint (counter (list_sem s (sem_index n)))")
    case pos: True
    then have "proc_ok ?s1 v" "sem_wait_exit ?s1 = (r, s')"
      using run assms(3) proc_ok_sem_frame[OF assms(1) _ _ f(1)] f(2) by (auto simp: kernel_ok_def)
    then show ?thesis using sem_wait_exit_keeps by blast
  next
    case False
    then obtain v' where "kernel_ok s' v'" "switched (v_run v') ?s1 s'" using run assms(3) by auto
    then show ?thesis
      using proc_ok_sem_frame[OF assms(1), of s' v'] f unfolding kernel_ok_def switched_def sched_frame_def by auto
  qed
next
  case False
  then show ?thesis using assms(1,3) by (auto simp: sys_sem_wait_def)
qed

lemma sem_signal_keeps:
  assumes "proc_ok s v" "sint (counter (list_sem s (sem_index n))) < 2147483647" "sys_sem_signal n s = Some (r, s')"
  shows "\<exists>v'. proc_ok s' v'"
proof (cases "valid_sem n False s = 0")
  case True
  have "\<exists>v'. kernel_ok s' v'"
    using sys_sem_signal_run[OF proc_okD(1)[OF assms(1)] True assms(2)] assms(3) by (auto split: if_splits)
  moreover have "mm s' = mm s" "tasks s' = tasks s"
    using assms(3) by (auto simp: sys_sem_signal_def upd_sem_def Let_def split: if_splits bind_splits)
  ultimately show ?thesis using proc_ok_sem_frame[OF assms(1), of s'] unfolding kernel_ok_def by auto
next
  case False
  then show ?thesis using assms(1,3) by (auto simp: sys_sem_signal_def)
qed

lemma sem_destroy_keeps:
  assumes "proc_ok s v" "sys_sem_destroy n s = Some (r, s')"
  shows "\<exists>v'. proc_ok s' v'"
proof (cases "valid_sem n False s = 0")
  case True
  obtain xs where k: "kernel_ok s' (woken_view (sem_index n) v)" "v_sem v (sem_index n) = Some xs"
     "tasks s' = mark_destroyed (set xs) (tasks s)"
    using sys_sem_destroy_run[OF proc_okD(1)[OF assms(1)] True] assms(2) by auto
  have "mm s' = mm s"
    using wake_all_run[OF proc_okD(2)[OF assms(1)] k(2)] assms(2) True
    by (auto simp: sys_sem_destroy_def upd_sem_def Let_def)
  moreover have "dir_pages_baseAddr (tasks s' i) = dir_pages_baseAddr (tasks s i)" for i
    by (simp add: k(3) mark_destroyed_def)
  ultimately show ?thesis using proc_ok_sem_frame[OF assms(1) kernel_okD[OF k(1)]] by blast
next
  case False
  then show ?thesis using assms by (auto simp: sys_sem_destroy_def)
qed

text \<open>Calls that change the devices and user memory only.\<close>

lemma put_user_byte_mm: "put_user_byte t a b m = Some m' \<Longrightarrow> \<exists>fm. m' = m\<lparr>frame_mem := fm\<rparr>"
  by (auto simp: put_user_byte_def Let_def split: bind_splits)

lemma write_user_mm: "write_user bs t a m = Some m' \<Longrightarrow> \<exists>fm. m' = m\<lparr>frame_mem := fm\<rparr>"
proof (induction bs arbitrary: a m)
  case Nil
  then show ?case by (intro exI[of _ "frame_mem m"]) simp
next
  case (Cons b bs)
  then obtain m1 where "put_user_byte t a b m = Some m1" "write_user bs t (a + 1) m1 = Some m'"
    by (auto split: bind_splits)
  then show ?case using put_user_byte_mm[of t a b m m1] Cons.IH[of "a + 1" m1] by auto
qed

lemma proc_ok_frame_mem: "proc_ok s v \<Longrightarrow> proc_ok (s\<lparr>mm := (mm s)\<lparr>frame_mem := fm\<rparr>\<rparr>) v"
  by (rule proc_ok_mm) (use proc_okD(5)[of s v] in simp_all)

lemma user_store_keeps: "proc_ok s v \<Longrightarrow> user_store a b s = Some s' \<Longrightarrow> proc_ok s' v"
  using put_user_byte_mm proc_ok_frame_mem unfolding user_store_def by (fastforce split: if_splits bind_splits)

lemma sys_write_keeps: "proc_ok s v \<Longrightarrow> sys_write fd buf n s = Some (r, s') \<Longrightarrow> proc_ok s' v"
  unfolding sys_write_run by (auto split: if_splits bind_splits)

lemma sys_dump_screen_keeps: "proc_ok s v \<Longrightarrow> sys_dump_screen a s = Some (r, s') \<Longrightarrow> proc_ok s' v"
  unfolding sys_dump_screen_def by (auto simp: Let_def split: if_splits bind_splits)

lemma sys_get_key_keeps:
  assumes "proc_ok s v" "sys_get_key a s = Some (r, s')"
  shows "proc_ok s' v"
proof (cases "s' = s")
  case False
  then obtain k ch m where m: "put_user_byte (user_PT s) a ch (mm s) = Some m" "s' = s\<lparr>kbd := k, mm := m\<rparr>"
    using assms(2) by (auto simp: sys_get_key_def split: if_splits bind_splits prod.splits)
  have "proc_ok (s\<lparr>kbd := k\<rparr>) v" using assms(1) by simp
  from proc_ok_frame_mem[OF this] put_user_byte_mm[OF m(1)] show ?thesis unfolding m(2) by auto
qed (use assms in simp)

lemma sys_get_stats_keeps:
  assumes "proc_ok s v" "sys_get_stats pid st s = Some (r, s')"
  shows "proc_ok s' v"
proof (cases "s' = s")
  case False
  let ?s1 = "\<lambda>i. upd_task i (\<lambda>ts. ts\<lparr>p_stats := (p_stats ts)\<lparr>remaining_ticks := remaining_quantum s\<rparr>\<rparr>) s"
  obtain i bs t m where m: "write_user bs t st (mm (?s1 i)) = Some m" "s' = (?s1 i)\<lparr>mm := m\<rparr>"
    using assms(2) False by (auto simp: sys_get_stats_def Let_def split: if_splits bind_splits option.splits)
  have "kernel_ok (?s1 i) v" using proc_okD(1)[OF assms(1)] by simp
  then have "proc_ok (?s1 i) v"
    by (rule proc_ok_frame[OF assms(1)]) (use proc_okD(5)[OF assms(1)] in \<open>simp_all add: upd_task_def\<close>)
  from proc_ok_frame_mem[OF this] write_user_mm[OF m(1)] show ?thesis unfolding m(2) by auto
qed (use assms in simp)

lemma yield_keeps:
  assumes "proc_ok s v"
  shows "\<exists>s'. sys_yield s = Some (Switched_out, s') \<and> proc_ok s' (preempt_view v)"
proof -
  obtain s' where s': "force_task_switch s = Some s'" "sched_ok s' (preempt_view v)" "sched_frame s s'"
    using force_task_switch_step[OF proc_okD(2)[OF assms]] by blast
  have "sem_ok s' (preempt_view v)"
    using sem_ok_frame[of s' s "preempt_view v" v] proc_okD(3)[OF assms] s'(3) by (simp add: sched_frame_def)
  then have "proc_ok s' (preempt_view v)"
    using proc_ok_sched_frame[OF assms _ s'(3)] s'(2) by (simp add: kernel_ok_def)
  then show ?thesis using s'(1) by (simp add: sys_yield_def)
qed

lemma returned_Some: "returned x = Some (r, s') \<Longrightarrow> \<exists>r'. x = Some (r', s')"
  by (auto simp: returned_def)

lemma call_entry_keeps:
  assumes "proc_ok s v" "v_run v \<noteq> v_idle v" "call_entry rff e b c d s = Some (r, s')"
    and "e = E_sem_init \<Longrightarrow> 0 \<le> sint c"
    and "e = E_sem_signal \<Longrightarrow> sint (counter (list_sem s (sem_index b))) < 2147483647"
  shows "\<exists>v'. proc_ok s' v'"
proof (cases e)
  case E_exit
  then show ?thesis using sys_exit_run[OF assms(1,2)] assms(3) by auto
next
  case E_fork
  then show ?thesis using sys_fork_keeps[OF assms(1)] returned_Some assms(3) by fastforce
next
  case E_write
  then show ?thesis using sys_write_keeps[OF assms(1)] returned_Some assms(3) by fastforce
next
  case E_yield
  then show ?thesis using yield_keeps[OF assms(1)] assms(3) by auto
next
  case E_alloc
  then show ?thesis
    using alloc_k_keeps[OF assms(1)] returned_Some[of "Some (sys_alloc s)"] assms(3) by (auto simp: sys_alloc_def)
next
  case E_dealloc
  then show ?thesis
    using dealloc_k_keeps[OF assms(1)] returned_Some[of "Some (sys_dealloc b s)"] assms(3)
    by (auto simp: sys_dealloc_def Let_def)
next
  case E_createthread
  then show ?thesis using sys_createthread_keeps[OF assms(1)] returned_Some assms(3) by fastforce
next
  case E_terminatethread
  then show ?thesis using sys_terminatethread_run[OF assms(1,2)] assms(3) by auto
next
  case E_dump_screen
  then show ?thesis using sys_dump_screen_keeps[OF assms(1)] returned_Some assms(3) by fastforce
next
  case E_get_key
  then show ?thesis using sys_get_key_keeps[OF assms(1)] returned_Some assms(3) by fastforce
next
  case E_sem_init
  then show ?thesis using sem_init_keeps[OF assms(1) assms(4)] returned_Some assms(3) by fastforce
next
  case E_sem_wait
  then show ?thesis using sem_wait_keeps[OF assms(1,2)] assms(3) by auto
next
  case E_sem_signal
  then show ?thesis using sem_signal_keeps[OF assms(1) assms(5)] returned_Some assms(3) by fastforce
next
  case E_sem_destroy
  then show ?thesis using sem_destroy_keeps[OF assms(1)] returned_Some assms(3) by fastforce
next
  case E_get_stats
  then show ?thesis using sys_get_stats_keeps[OF assms(1)] returned_Some assms(3) by fastforce
qed (use assms(1,3) in auto)

lemma not_idle: "proc_ok s v \<Longrightarrow> idle_task s \<noteq> Some (running s) \<longleftrightarrow> v_run v \<noteq> v_idle v"
  using sched_okD(4,5)[of s v] proc_okD(2)[of s v] by auto

lemma table_entries:
  "i < 36 \<Longrightarrow> sys_call_table ! i = E_sem_init \<Longrightarrow> i = 27"
  "i < 36 \<Longrightarrow> sys_call_table ! i = E_sem_signal \<Longrightarrow> i = 29"
proof -
  have "list_all (\<lambda>i. (sys_call_table ! i = E_sem_init \<longrightarrow> i = 27) \<and> (sys_call_table ! i = E_sem_signal \<longrightarrow> i = 29)) [0..<36]"
    by (simp add: sys_call_table_def upt_rec)
  then show "i < 36 \<Longrightarrow> sys_call_table ! i = E_sem_init \<Longrightarrow> i = 27"
    "i < 36 \<Longrightarrow> sys_call_table ! i = E_sem_signal \<Longrightarrow> i = 29" by (auto simp: list_all_iff)
qed

lemma sys_call_table_length [simp]: "length sys_call_table = 36"
  by (simp add: sys_call_table_def)

lemma call_keeps:
  assumes "proc_ok s v" "idle_task s \<noteq> Some (running s)" "sem_ranges eax ebx ecx s"
    and "system_call_handler rff eax ebx ecx edx s = Some (r, s')"
  shows "\<exists>v'. proc_ok s' v'"
proof (cases "s' = s")
  case False
  then have c: "unat eax < 36" "call_entry rff (sys_call_table ! unat eax) ebx ecx edx s = Some (r, s')"
    using assms(4) by (auto simp: system_call_handler_def split: if_splits)
  show ?thesis
    by (rule call_entry_keeps[OF assms(1) _ c(2)])
       (use assms(2,3) not_idle[OF assms(1)] table_entries[OF c(1)] in \<open>auto simp: sem_ranges_def\<close>)
qed (use assms(1) in blast)

lemma kernel_run_ok: "kernel_run show_clock beyond s \<Longrightarrow> \<exists>v. proc_ok s v"
proof (induction rule: kernel_run.induct)
  case (run_boot prot cpu_idle clock vga base s)
  then show ?case using boot_run[of prot cpu_idle clock vga base] by auto
next
  case (run_clock s r s')
  then show ?case using clock_handler_run[of s _ show_clock] by fastforce
next
  case (run_clock_end s s')
  then show ?case using handler_stats(2)[of s] by fastforce
next
  case (run_key s c s')
  then show ?case using keyboard_handler_run[of s _ beyond c] by fastforce
next
  case (run_call s eax ebx ecx rff edx r s')
  then show ?case using call_keeps by blast
next
  case (run_wait_end s r s')
  then show ?case using sem_wait_exit_keeps by blast
next
  case (run_store s a b s')
  then show ?case using user_store_keeps by blast
qed

section \<open>Which calls cannot fault\<close>

lemma terminatethread_total:
  assumes "proc_ok s v" "v_run v \<noteq> v_idle v"
  shows "\<exists>r s'. sys_terminatethread s = Some (r, s')"
proof -
  obtain e s1 where d: "dealloc_k (drop_bit 12 (kstack s (running s) 1022)) s = (e, s1)" by fastforce
  note k = dealloc_k_keeps[OF assms(1) d]
  obtain h s2 where "list_add_tail (Some (TaskN (v_run v))) (Some FreeQ) (heap s1) = Some h"
     "sched_next_rr (s1\<lparr>heap := h\<rparr>) = Some s2" using exit_to_next[of s1 v] k assms(2) by blast
  then show ?thesis using d k proc_okD(10)[OF assms(1)]
    by (cases "sint e < 0") (simp_all add: sys_terminatethread_def KERNEL_STACK_SIZE_def Let_def)
qed

lemma sem_calls_total:
  assumes "proc_ok s v" "v_run v \<noteq> v_idle v"
  shows "\<exists>r. sys_sem_init n val s = Some r" "\<exists>r. sys_sem_wait n s = Some r" "\<exists>r. sys_sem_destroy n s = Some r"
    and "sint (counter (list_sem s (sem_index n))) < 2147483647 \<Longrightarrow> \<exists>r. sys_sem_signal n s = Some r"
proof -
  note k = proc_okD(1-3)[OF assms(1)]
  show "\<exists>r. sys_sem_init n val s = Some r"
    using sys_sem_init_run[OF k(2,3), of n val] by (cases "valid_sem n True s = 0") (auto simp: sys_sem_init_def)
  show "\<exists>r. sys_sem_wait n s = Some r"
    using sys_sem_wait_run[OF k(1) _ assms(2), of n]
    by (cases "valid_sem n False s = 0") (auto simp: sys_sem_wait_def split: if_splits)
  show "\<exists>r. sys_sem_destroy n s = Some r"
    using sys_sem_destroy_run[OF k(1), of n] by (cases "valid_sem n False s = 0") (auto simp: sys_sem_destroy_def)
  show "\<exists>r. sys_sem_signal n s = Some r" if "sint (counter (list_sem s (sem_index n))) < 2147483647"
    using sys_sem_signal_run[OF k(1) _ that]
    by (cases "valid_sem n False s = 0") (auto simp: sys_sem_signal_def split: if_splits)
qed

definition touches_user_memory :: "sys_entry \<Rightarrow> bool" where
  "touches_user_memory e \<longleftrightarrow> e \<in> {E_fork, E_write, E_createthread, E_dump_screen, E_get_key, E_get_stats}"

lemma call_entry_total:
  assumes "proc_ok s v" "v_run v \<noteq> v_idle v" "\<not> touches_user_memory e"
    and "e = E_sem_signal \<Longrightarrow> sint (counter (list_sem s (sem_index b))) < 2147483647"
  shows "\<exists>r. call_entry rff e b c d s = Some r"
  using sem_calls_total(1)[OF assms(1,2), of b c] sem_calls_total(2-4)[OF assms(1,2), of b] terminatethread_total[OF assms(1,2)] sys_exit_run[OF assms(1,2)]
    yield_keeps[OF assms(1)] assms(3,4)
  by (cases e) (auto simp: touches_user_memory_def returned_def)

section \<open>Properties\<close>


text \<open>A run of one step, for the concrete instances.\<close>

lemma booted_run:
  obtains s where "kernel_run show_clock beyond s" "proc_ok s boot_view" "running s = 1" "idle_task s = Some 0"
    "list_sem s = (\<lambda>_. \<lparr>isInit = 0, counter = 0\<rparr>)"
proof -
  let ?i = "kernel_image (\<lambda>_. 0) (\<lambda>_. 0) 0"
  obtain s where s: "boot 7 0 ?i = Some s" "proc_ok s boot_view" using boot_run by blast
  let ?i0 = "init_mm 7 (?i\<lparr>scr := printk (chars ''Kernel Loaded!    '') (scr ?i)\<rparr>)"
  obtain s1 where s1: "start_tasks 0 ?i0 = Some s1" "list_sem s1 = list_sem ?i0"
    using start_tasks_run[of 0 ?i0] by blast
  have "list_sem ?i0 = (\<lambda>_. \<lparr>isInit = 0, counter = 0\<rparr>)"
    by (simp add: init_mm_def allocate_DIR_def upd_task_def set_cr3_def kernel_image_def Let_def)
  then have "list_sem s = (\<lambda>_. \<lparr>isInit = 0, counter = 0\<rparr>)" using s(1) s1 by (auto simp: boot_def)
  moreover have "running s = 1" "idle_task s = Some 0"
    using sched_okD(4,5)[OF proc_okD(2)[OF s(2)]] by (simp_all add: boot_view_def)
  ultimately show thesis using that kernel_run.run_boot[OF s(1)] s(2) by blast
qed


text \<open>The three kinds of entries of the table, and the range of the call number read as an \<open>int\<close>.\<close>

lemma table_kinds:
  assumes "i < 36"
  shows "sys_call_table ! i = E_ni \<longleftrightarrow> i \<notin> {1, 10, 13, 20, 21, 22, 24, 27, 28, 29, 30, 2, 4, 23, 25, 26, 35}"
    and "touches_user_memory (sys_call_table ! i) \<longleftrightarrow> i \<in> {2, 4, 23, 25, 26, 35}"
proof -
  have e: "list_all (\<lambda>i. sys_call_table ! i = E_ni \<longleftrightarrow> i \<notin> {1, 10, 13, 20, 21, 22, 24, 27, 28, 29, 30, 2, 4, 23, 25, 26, 35}) [0..<36]"
    "list_all (\<lambda>i. touches_user_memory (sys_call_table ! i) \<longleftrightarrow> i \<in> {2, 4, 23, 25, 26, 35}) [0..<36]"
    by (code_simp, code_simp)
  have i: "i \<in> {0..<36}" using assms by simp
  show "sys_call_table ! i = E_ni \<longleftrightarrow> i \<notin> {1, 10, 13, 20, 21, 22, 24, 27, 28, 29, 30, 2, 4, 23, 25, 26, 35}"
    by (rule bspec[OF e(1)[unfolded list_all_iff set_upt] i])
  show "touches_user_memory (sys_call_table ! i) \<longleftrightarrow> i \<in> {2, 4, 23, 25, 26, 35}"
    by (rule bspec[OF e(2)[unfolded list_all_iff set_upt] i])
qed

lemma call_number:
  fixes eax :: DWord
  shows "unat eax < 37 \<Longrightarrow> sint eax = int (unat eax)" and "36 < unat eax \<Longrightarrow> sint eax < 0 \<or> 36 < sint eax"
proof -
  have u: "uint eax = int (unat eax)" by simp
  show "sint eax = int (unat eax)" if "unat eax < 37"
  proof -
    have "uint eax < 37" using u that by linarith
    then have "sint eax = uint eax" unfolding sint_word32 by simp
    then show ?thesis by (rule trans[OF _ u])
  qed
  show "sint eax < 0 \<or> 36 < sint eax" if "36 < unat eax"
  proof -
    have "36 < uint eax" using u that by linarith
    then show ?thesis using uint_less32[of eax] unfolding sint_word32 by auto
  qed
qed



end
