(* ===== verification/Build.thy ===== *)
theory Build
  imports Utils
begin

text \<open>
  The host tool \<open>build.c\<close>: it writes the boot sector, the system and the user program one behind the
  other and then patches their lengths into the boot sector and the first words of the system, where
  the boot sector and \<open>main\<close> of \<open>system.c\<close> read them. A file is the list of its bytes, or \<^const>\<open>None\<close>
  if it cannot be opened; reads of an open file succeed. The stdout takes \<open>room\<close> bytes, so that a
  write may come up short, and may not be seekable. \<open>die\<close> ends the run with a value of \<open>build_error\<close>.
\<close>

section \<open>Output\<close>

datatype build_error = Usage | Unable_to_open nat | Unable_to_read_header | Non_Minix_header | Illegal_data_segment
  | Illegal_bss_segment | Illegal_symbol_table | Boot_block_size | Boot_block_flag | Write_call_failed
  | Unexpected_EOF nat | Write_failed | Seek_failed | Write_of_image_length | Write_of_system_length | Write_of_user_length

record stdout =
  written :: "Byte list"
  out_pos :: nat
  room :: nat
  seekable :: bool

definition overwrite :: "nat \<Rightarrow> 'b list \<Rightarrow> 'b list \<Rightarrow> 'b list" where
  "overwrite p bs xs = take p xs @ bs @ drop (p + length bs) xs"

text \<open>\<open>write(1, bs, n)\<close>: how much was written. A gap left by \<open>lseek\<close> reads as 0.\<close>

definition write_out :: "Byte list \<Rightarrow> stdout \<Rightarrow> nat \<times> stdout" where
  "write_out bs out =
     (let n = min (length bs) (room out - out_pos out);
          xs = written out @ replicate (out_pos out - length (written out)) 0
      in (n, out\<lparr>written := overwrite (out_pos out) (take n bs) xs, out_pos := out_pos out + n\<rparr>))"

definition put :: "build_error \<Rightarrow> Byte list \<Rightarrow> stdout \<Rightarrow> build_error + stdout" where
  "put e bs out = (case write_out bs out of (n, out) \<Rightarrow> if n \<noteq> length bs then Inl e else Inr out)"

definition seek :: "nat \<Rightarrow> stdout \<Rightarrow> build_error + stdout" where
  "seek p out = (if seekable out then Inr (out\<lparr>out_pos := p\<rparr>) else Inl Seek_failed)"

definition and_then :: "'e + 'a \<Rightarrow> ('a \<Rightarrow> 'e + 'b) \<Rightarrow> 'e + 'b" where
  "and_then r f = (case r of Inl e \<Rightarrow> Inl e | Inr x \<Rightarrow> f x)"

section \<open>The program\<close>

definition MINIX_HEADER_LEN :: nat where "MINIX_HEADER_LEN = 32"

text \<open>\<open>lb[k]\<close>, the header read as \<open>u32\<close>s; the host is little endian.\<close>

definition lb :: "Byte list \<Rightarrow> nat \<Rightarrow> DWord" where
  "lb buf k = load32 0 (\<lambda>a. buf ! (4 * k + unat a))"

text \<open>What is left to read behind the header.\<close>

definition minix_open :: "Byte list option \<Rightarrow> build_error + Byte list" where
  "minix_open name =
     (case name of None \<Rightarrow> Inl (Unable_to_open 1)
      | Some content \<Rightarrow>
          let buf = take MINIX_HEADER_LEN content in
          if length buf \<noteq> MINIX_HEADER_LEN then Inl Unable_to_read_header
          else if take 8 buf \<noteq> [0x01, 0x03, 0x10, 0x04, 0x20, 0x00, 0x00, 0x00] \<or> lb buf 5 \<noteq> 0 then Inl Non_Minix_header
          else if lb buf 3 \<noteq> 0 then Inl Illegal_data_segment
          else if lb buf 4 \<noteq> 0 then Inl Illegal_bss_segment
          else if lb buf 7 \<noteq> 0 then Inl Illegal_symbol_table
          else Inr (drop MINIX_HEADER_LEN content))"

definition copy_boot_sector :: "Byte list option \<Rightarrow> stdout \<Rightarrow> build_error + stdout" where
  "copy_boot_sector name out = and_then (minix_open name) (\<lambda>content.
     let buf = take 1024 content; i = length buf in
     if i \<noteq> 512 then Inl Boot_block_size
     else if buf ! 510 \<noteq> 0x55 \<or> buf ! 511 \<noteq> 0xAA then Inl Boot_block_flag
     else put Write_call_failed (buf[508 := 0, 509 := 0]) out)"

text \<open>The copying loop; \<open>sz\<close> is what \<open>fstat\<close> gave, \<open>content\<close> what is left to read.\<close>

function copy_loop :: "nat \<Rightarrow> DWord \<Rightarrow> Byte list \<Rightarrow> stdout \<Rightarrow> build_error + stdout" where
  "copy_loop n sz content out =
     (if 0 < sz then
        let l = (if 1024 < sz then 1024 else sz); buf = take (unat l) content in
        if length buf \<noteq> unat l then Inl (Unexpected_EOF n)
        else and_then (put Write_failed buf out) (copy_loop n (sz - l) (drop (unat l) content))
      else Inr out)"
  by pat_completeness auto
termination
proof (relation "measure (\<lambda>(n, sz, content, out). unat sz)")
  fix n :: nat and sz l :: DWord and content buf :: "Byte list" and out x :: stdout
  assume "0 < sz" "l = (if 1024 < sz then 1024 else sz)"
  then have "0 < l" "l \<le> sz" by auto
  then have "sz - l < sz" by (simp add: word_less_nat_alt word_le_nat_alt unat_sub)
  then show "((n, sz - l, drop (unat l) content, x), n, sz, content, out) \<in> measure (\<lambda>(n, sz, content, out). unat sz)"
    by (simp add: word_less_nat_alt[symmetric])
qed simp

declare copy_loop.simps [simp del]

definition copy_file :: "nat \<Rightarrow> Byte list option \<Rightarrow> stdout \<Rightarrow> build_error + DWord \<times> stdout" where
  "copy_file n name out =
     (case name of None \<Rightarrow> Inl (Unable_to_open n)
      | Some content \<Rightarrow> let sz = of_nat (length content) in
          and_then (copy_loop n sz content out) (\<lambda>out. Inr (sz, out)))"

definition size_bytes :: "DWord \<Rightarrow> Byte list" where
  "size_bytes sz = [ucast (sz AND 0xff), ucast (drop_bit 8 sz AND 0xff), ucast (drop_bit 16 sz AND 0xff), 0]"

text \<open>\<open>main\<close>, on the files its arguments name.\<close>

definition build :: "Byte list option list \<Rightarrow> stdout \<Rightarrow> build_error + stdout" where
  "build args out =
     (case args of [bootsect, sys, user] \<Rightarrow>
        and_then (copy_boot_sector bootsect out) (\<lambda>out.
        and_then (copy_file 2 sys out) (\<lambda>(sys_size, out).
        and_then (copy_file 3 user out) (\<lambda>(usr_size, out).
        and_then (seek 500 out) (\<lambda>out.
        let im_size = (sys_size + usr_size + 15) div 16 in
        and_then (put Write_of_image_length [ucast (im_size AND 0xff), ucast (drop_bit 8 im_size AND 0xff)] out) (\<lambda>out.
        and_then (seek 512 out) (\<lambda>out.
        and_then (put Write_of_system_length (size_bytes sys_size) out) (\<lambda>out.
        and_then (seek 516 out) (\<lambda>out.
        and_then (put Write_of_user_length (size_bytes usr_size) out) (\<lambda>out.
        and_then (seek 520 out) (\<lambda>out.
        put Write_of_user_length (size_bytes 0x7E1A) out))))))))))
      | _ \<Rightarrow> Inl Usage)"

section \<open>What it writes\<close>

lemma put_append:
  assumes "out_pos out = length (written out)" "length (written out) + length bs \<le> room out"
  shows "put e bs out = Inr (out\<lparr>written := written out @ bs, out_pos := length (written out) + length bs\<rparr>)"
  using assms by (simp add: put_def write_out_def overwrite_def Let_def)

lemma put_patch:
  assumes "p + length bs \<le> length (written out)" "length (written out) \<le> room out" "out_pos out = p"
  shows "put e bs out = Inr (out\<lparr>written := overwrite p bs (written out), out_pos := p + length bs\<rparr>)"
  using assms by (simp add: put_def write_out_def Let_def)

lemma copy_loop_run:
  assumes "unat sz = length content" "out_pos out = length (written out)" "length (written out) + length content \<le> room out"
  shows "copy_loop n sz content out = Inr (out\<lparr>written := written out @ content, out_pos := length (written out) + length content\<rparr>)"
  using assms
proof (induction n sz content out rule: copy_loop.induct)
  case (1 n sz content out)
  show ?case
  proof (cases "0 < sz")
    case False
    then have "sz = 0" by (metis word_gt_0)
    then have c: "content = []" using "1.prems"(1) by simp
    have "out = out\<lparr>written := written out, out_pos := length (written out)\<rparr>" using "1.prems"(2) by simp
    then show ?thesis using False c by (subst copy_loop.simps) simp
  next
    case True
    let ?l = "if 1024 < sz then 1024 else sz" and ?b = "take (unat (if 1024 < sz then 1024 else sz)) content"
    have l: "?l \<le> sz" by auto
    then have ul: "unat ?l \<le> length content" using "1.prems"(1) by (metis word_le_nat_alt)
    then have b: "length ?b = unat ?l" by simp
    let ?out = "out\<lparr>written := written out @ ?b, out_pos := length (written out) + length ?b\<rparr>"
    have p: "put Write_failed ?b out = Inr ?out" by (rule put_append) (use "1.prems" ul in auto)
    have "copy_loop n (sz - ?l) (drop (unat ?l) content) ?out
        = Inr (?out\<lparr>written := written ?out @ drop (unat ?l) content, out_pos := length (written ?out) + length (drop (unat ?l) content)\<rparr>)"
      by (rule "1.IH"[OF True refl refl]) (use "1.prems" b ul l in \<open>auto simp: unat_sub\<close>)
    moreover have "copy_loop n sz content out = copy_loop n (sz - ?l) (drop (unat ?l) content) ?out"
      using True b p by (subst copy_loop.simps) (simp add: and_then_def Let_def)
    ultimately show ?thesis using b ul by simp
  qed
qed

text \<open>A boot sector file \<open>build\<close> accepts: a Minix header and a sector that ends in the boot flag.\<close>

definition boot_file :: "Byte list \<Rightarrow> Byte list \<Rightarrow> bool" where
  "boot_file hdr boot \<longleftrightarrow> length hdr = 32 \<and> take 8 hdr = [0x01, 0x03, 0x10, 0x04, 0x20, 0x00, 0x00, 0x00]
     \<and> lb hdr 3 = 0 \<and> lb hdr 4 = 0 \<and> lb hdr 5 = 0 \<and> lb hdr 7 = 0
     \<and> length boot = 512 \<and> boot ! 510 = 0x55 \<and> boot ! 511 = 0xAA"

definition image_paragraphs :: "Byte list \<Rightarrow> Byte list \<Rightarrow> DWord" where
  "image_paragraphs sys usr = (of_nat (length sys) + of_nat (length usr) + 15) div 16"

definition disk_image :: "Byte list \<Rightarrow> Byte list \<Rightarrow> Byte list \<Rightarrow> Byte list" where
  "disk_image boot sys usr = overwrite 520 (size_bytes 0x7E1A) (overwrite 516 (size_bytes (of_nat (length usr)))
     (overwrite 512 (size_bytes (of_nat (length sys))) (overwrite 500 [ucast (image_paragraphs sys usr AND 0xff),
        ucast (drop_bit 8 (image_paragraphs sys usr) AND 0xff)] (boot[508 := 0, 509 := 0] @ sys @ usr))))"

lemma overwrite_length: "p + length bs \<le> length xs \<Longrightarrow> length (overwrite p bs xs) = length xs"
  by (simp add: overwrite_def)

lemma overwrite_nth:
  "p + length bs \<le> length xs \<Longrightarrow> i < length xs \<Longrightarrow> overwrite p bs xs ! i = (if p \<le> i \<and> i < p + length bs then bs ! (i - p) else xs ! i)"
  by (auto simp: overwrite_def nth_append min_def)

lemma boot_sector_copied:
  assumes "boot_file hdr boot" "written out = []" "out_pos out = 0" "512 \<le> room out"
  shows "copy_boot_sector (Some (hdr @ boot)) out = Inr (out\<lparr>written := boot[508 := 0, 509 := 0], out_pos := 512\<rparr>)"
proof -
  have "minix_open (Some (hdr @ boot)) = Inr boot"
    using assms(1) by (simp add: minix_open_def boot_file_def MINIX_HEADER_LEN_def)
  then show ?thesis
    using assms put_append[of out "boot[508 := 0, 509 := 0]" Write_call_failed]
    by (simp add: copy_boot_sector_def and_then_def boot_file_def Let_def)
qed

lemma file_copied:
  assumes "length content < 2 ^ 32" "out_pos out = length (written out)" "length (written out) + length content \<le> room out"
  shows "copy_file n (Some content) out = Inr (of_nat (length content),
     out\<lparr>written := written out @ content, out_pos := length (written out) + length content\<rparr>)"
proof -
  have "unat (of_nat (length content) :: DWord) = length content" using assms(1) by (simp add: unat_of_nat take_bit_nat_eq_self)
  from copy_loop_run[OF this assms(2,3)] show ?thesis by (simp add: copy_file_def and_then_def Let_def)
qed

lemma build_run:
  assumes "boot_file hdr boot" "12 \<le> length sys" "length sys < 2 ^ 32" "length usr < 2 ^ 32"
    and "written out = []" "out_pos out = 0" "512 + length sys + length usr \<le> room out" "seekable out"
  shows "\<exists>out'. build [Some (hdr @ boot), Some sys, Some usr] out = Inr out' \<and> written out' = disk_image boot sys usr"
proof -
  let ?b = "boot[508 := 0, 509 := 0]"
  let ?o1 = "out\<lparr>written := ?b, out_pos := 512\<rparr>"
  let ?o2 = "?o1\<lparr>written := ?b @ sys, out_pos := 512 + length sys\<rparr>"
  let ?o3 = "?o2\<lparr>written := (?b @ sys) @ usr, out_pos := 512 + length sys + length usr\<rparr>"
  have l: "length boot = 512" using assms(1) by (simp add: boot_file_def)
  have 1: "copy_boot_sector (Some (hdr @ boot)) out = Inr ?o1"
    by (rule boot_sector_copied) (use assms in auto)
  have 2: "copy_file 2 (Some sys) ?o1 = Inr (of_nat (length sys), ?o2)"
    using file_copied[of sys ?o1 2] assms(3,7) l by simp
  have 3: "copy_file 3 (Some usr) ?o2 = Inr (of_nat (length usr), ?o3)"
    using file_copied[of usr ?o2 3] assms(4,7) l by simp
  have patch: "and_then (seek p o1) (\<lambda>o1. and_then (put e bs o1) f) = f (o1\<lparr>written := overwrite p bs (written o1), out_pos := p + length bs\<rparr>)"
    if "seekable o1" "p + length bs \<le> length (written o1)" "length (written o1) \<le> room o1"
    for p e bs o1 and f :: "stdout \<Rightarrow> build_error + stdout"
    using that put_patch[of p bs "o1\<lparr>out_pos := p\<rparr>" e] by (simp add: seek_def and_then_def)
  have patch_end: "and_then (seek p o1) (put e bs) = Inr (o1\<lparr>written := overwrite p bs (written o1), out_pos := p + length bs\<rparr>)"
    if "seekable o1" "p + length bs \<le> length (written o1)" "length (written o1) \<le> room o1" for p e bs o1
    using that put_patch[of p bs "o1\<lparr>out_pos := p\<rparr>" e] by (simp add: seek_def and_then_def)
  have sb: "length (size_bytes w) = 4" for w by (simp add: size_bytes_def)
  have then_Inr: "and_then (Inr x) f = f x" for x :: 'x and f :: "'x \<Rightarrow> build_error + stdout" by (simp add: and_then_def)
  have r: "length (written ?o3) \<le> room out" "12 + 512 \<le> length (written ?o3)" using assms(2,7) l by simp_all
  show ?thesis
    unfolding build_def list.case option.case 1 2 3 then_Inr prod.case Let_def
    using assms(8) r
    by (simp add: patch patch_end overwrite_length sb then_Inr disk_image_def image_paragraphs_def)
qed

text \<open>Where the parts of the image lie.\<close>

lemma size_bytes_length [simp]: "length (size_bytes w) = 4"
  by (simp add: size_bytes_def)

lemma image_length: "length boot = 512 \<Longrightarrow> 12 \<le> length sys \<Longrightarrow> length (disk_image boot sys usr) = 512 + length sys + length usr"
  by (simp add: disk_image_def overwrite_length)

lemma image_nth:
  assumes "length boot = 512" "12 \<le> length sys" "512 \<le> i" "i < 512 + length sys + length usr"
  shows "disk_image boot sys usr ! i =
     (if i < 516 then size_bytes (of_nat (length sys)) ! (i - 512)
      else if i < 520 then size_bytes (of_nat (length usr)) ! (i - 516)
      else if i < 524 then size_bytes 0x7E1A ! (i - 520)
      else if i < 512 + length sys then sys ! (i - 512) else usr ! (i - 512 - length sys))"
proof -
  have "i - 512 < length sys \<longleftrightarrow> i < 512 + length sys" using assms(3) by linarith
  then show ?thesis using assms by (simp add: disk_image_def overwrite_nth overwrite_length nth_append)
qed

lemma image_paragraphs_nth:
  assumes "length boot = 512" "12 \<le> length sys"
  shows "disk_image boot sys usr ! 500 = ucast (image_paragraphs sys usr)"
    "disk_image boot sys usr ! 501 = ucast (drop_bit 8 (image_paragraphs sys usr))"
proof -
  have m: "(ucast (w AND 0xff) :: Byte) = ucast w" for w :: DWord
  proof -
    have e: "(0xff :: DWord) = mask 8" by (simp add: mask_eq_exp_minus_1)
    show ?thesis unfolding e by (rule bit_word_eqI) (auto simp: bit_simps)
  qed
  show "disk_image boot sys usr ! 500 = ucast (image_paragraphs sys usr)"
    "disk_image boot sys usr ! 501 = ucast (drop_bit 8 (image_paragraphs sys usr))"
    using assms by (simp_all add: disk_image_def overwrite_nth overwrite_length m)
qed

text \<open>The size written in four bytes reads back below 16 MB; the fourth byte is always 0.\<close>

lemma size_bytes_read:
  assumes "\<And>k. k < 4 \<Longrightarrow> m (p + of_nat k) = size_bytes w ! k" "unat w < 2 ^ 24"
  shows "load32 p m = w"
proof -
  have e: "(0xff :: DWord) = mask 8" by (simp add: mask_eq_exp_minus_1)
  have w: "\<not> bit w n" if "24 \<le> n" for n
    using assms(2) that by (metis bit_take_bit_iff linorder_not_le take_bit_nat_eq_self_iff unsigned_take_bit_eq word_unat_eq_iff)
  have b: "m p = ucast (w AND mask 8)" "m (p + 1) = ucast (drop_bit 8 w AND mask 8)"
    "m (p + 2) = ucast (drop_bit 16 w AND mask 8)" "m (p + 3) = 0"
    using assms(1)[of 0] assms(1)[of 1] assms(1)[of 2] assms(1)[of 3] by (simp_all add: size_bytes_def e)
  show ?thesis unfolding load32_def b
  proof (rule bit_word_eqI)
    fix n assume n: "n < LENGTH(32)"
    then consider "n < 8" | "8 \<le> n" "n < 16" | "16 \<le> n" "n < 24" | "24 \<le> n" by fastforce
    then show "bit (ucast (ucast (w AND mask 8) :: Byte) OR push_bit 8 (ucast (ucast (drop_bit 8 w AND mask 8) :: Byte))
       OR push_bit 16 (ucast (ucast (drop_bit 16 w AND mask 8) :: Byte)) OR push_bit 24 (ucast (0 :: Byte)) :: DWord) n = bit w n"
      using n w by cases (auto simp: bit_simps)
  qed
qed

end
