(* ===== verification/Start_Up.thy ===== *)
theory Start_Up
  imports Kernel_Run Build
begin

text \<open>
  From the disk image to user mode: the processor state \<open>hardware.c\<close> works on, the parts of \<open>system.c\<close>
  and \<open>mm.c\<close> that set it, and the whole \<open>main\<close> of \<open>system.c\<close>. The kernel state is the one of
  \<^theory_text>\<open>Kernel_State\<close>; the bytes of the address space of task 1 are kept beside it.
\<close>

section \<open>The processor (hardware.c)\<close>

record cpu =
  tables :: cpu_tables
  eflags :: DWord
  cr0 :: DWord
  ldt_reg :: Word16
  seg_ds :: Word16
  seg_es :: Word16
  seg_fs :: Word16
  seg_gs :: Word16
  seg_ss :: Word16
  seg_cs :: Word16
  r_esp :: DWord
  r_eip :: DWord
  pic_mask :: Byte

text \<open>\<open>popfl\<close> of 0 clears every flag; \<open>sti\<close> sets the interrupt flag, bit 9.\<close>

definition get_eflags :: "cpu \<Rightarrow> DWord" where "get_eflags c = eflags c"
definition set_eflags :: "cpu \<Rightarrow> cpu" where "set_eflags c = c\<lparr>eflags := 0\<rparr>"
definition set_idt_reg :: "dt_register \<Rightarrow> cpu \<Rightarrow> cpu" where "set_idt_reg r c = c\<lparr>tables := (tables c)\<lparr>idt_reg := r\<rparr>\<rparr>"
definition set_gdt_reg :: "dt_register \<Rightarrow> cpu \<Rightarrow> cpu" where "set_gdt_reg r c = c\<lparr>tables := (tables c)\<lparr>gdt_reg := r\<rparr>\<rparr>"
definition set_ldt_reg :: "Word16 \<Rightarrow> cpu \<Rightarrow> cpu" where "set_ldt_reg ldt c = c\<lparr>ldt_reg := ldt\<rparr>"
definition set_task_reg :: "Word16 \<Rightarrow> cpu \<Rightarrow> cpu" where "set_task_reg tr c = c\<lparr>tables := (tables c)\<lparr>task_reg := tr\<rparr>\<rparr>"

definition enable_int :: "cpu \<Rightarrow> cpu" where
  "enable_int c = c\<lparr>pic_mask := 0xFC, eflags := eflags c OR 0x200\<rparr>"

text \<open>
  \<open>return_gate\<close> stores \<open>rdtr\<close> 12 bytes above the stack pointer given, in the memory \<open>m\<close>; \<open>lret\<close> takes
  the four words pushed just before, code segment, instruction and stack pointer, back to the registers.
\<close>

definition return_gate :: "Word16 \<Rightarrow> Word16 \<Rightarrow> DWord \<Rightarrow> Word16 \<Rightarrow> DWord \<Rightarrow> DWord \<Rightarrow> memory \<times> cpu \<Rightarrow> memory \<times> cpu" where
  "return_gate ds ss esp cs ip rdtr = (\<lambda>(m, c).
     let c = c\<lparr>seg_es := ds, seg_ds := ds\<rparr>;
         m = store32 (esp + 12) rdtr m
     in (m, c\<lparr>seg_ss := ss, r_esp := esp, seg_cs := cs, r_eip := ip\<rparr>))"

section \<open>The rest of the set-up\<close>

definition set_seg_regs :: "Word16 \<Rightarrow> Word16 \<Rightarrow> DWord \<Rightarrow> cpu \<Rightarrow> cpu" where
  "set_seg_regs data_sel stack_sel esp c =
     (let esp = esp - 5 * 4;
          c = c\<lparr>eflags := eflags c AND NOT 0x400\<rparr>
      in c\<lparr>seg_ds := data_sel, seg_es := data_sel, seg_fs := data_sel, seg_gs := data_sel, seg_ss := stack_sel, r_esp := esp\<rparr>)"

definition set_pe_flag :: "cpu \<Rightarrow> cpu" where
  "set_pe_flag c = c\<lparr>cr0 := cr0 c OR 0x80000000\<rparr>"

definition KERNEL_START :: DWord where "KERNEL_START = 0x10000"
definition L_USER_START :: DWord where "L_USER_START = 0x100000"
definition PH_USER_START :: DWord where "PH_USER_START = 0x100000"

text \<open>\<open>usr_main\<close> and the three words at the start of the kernel.\<close>

definition usr_main :: DWord where "usr_main = PH_USER_START"
definition p_sys_size :: DWord where "p_sys_size = KERNEL_START"
definition p_usr_size :: DWord where "p_usr_size = KERNEL_START + 4"
definition p_rdtr :: DWord where "p_rdtr = KERNEL_START + 8"

record zeos =
  proc :: cpu
  kernel :: kstate
  bytes :: memory

text \<open>\<open>&protected_tasks[5]\<close>: \<open>task\<close> is \<open>&protected_tasks[1]\<close>.\<close>

definition start_stack :: "kernel_symbols \<Rightarrow> DWord" where
  "start_stack k = a_task k + 4 * 4096"

definition zeos_main :: "kernel_symbols \<Rightarrow> (cpu_tables \<Rightarrow> cpu_tables) \<Rightarrow> nat \<Rightarrow> DWord \<Rightarrow> zeos \<Rightarrow> zeos option" where
  "zeos_main k set_handlers prot cpu_idle z = do {
     let c = set_eflags (proc z);
     let c = set_seg_regs KERNEL_DS KERNEL_DS (start_stack k) c;
     let s = kernel z;
     let s = s\<lparr>scr := printk (chars ''Kernel Loaded!    '') (scr s)\<rparr>;
     let c = c\<lparr>tables := setGdt k (tables c)\<rparr>;
     let c = c\<lparr>tables := setIdt k set_handlers (tables c)\<rparr>;
     let c = c\<lparr>tables := setTSS k (tables c)\<rparr>;
     let s = init_mm prot s; let c = set_pe_flag c;
     s \<leftarrow> start_tasks cpu_idle s;
     let m = copy_data (KERNEL_START + load32 p_sys_size (bytes z)) usr_main (sint (load32 p_usr_size (bytes z))) (bytes z);
     let s = s\<lparr>scr := printk (chars ''Entering user mode...'') (scr s)\<rparr>;
     let c = enable_int c;
     let (m, c) = return_gate USER_DS USER_DS USER_ESP USER_CS L_USER_START (load32 p_rdtr m) (m, c);
     Some \<lparr>proc = c, kernel = s\<lparr>running := 1\<rparr>, bytes = m\<rparr> }"

section \<open>What the copy leaves\<close>

lemma load32_store32: "load32 p (store32 p v m) = v"
proof -
  have ne: "p \<noteq> p + 1" "p \<noteq> p + 2" "p \<noteq> p + 3" "p + 1 \<noteq> p + 2" "p + 1 \<noteq> p + 3" "p + 2 \<noteq> p + 3" by simp_all
  show ?thesis
  proof (rule bit_word_eqI)
    fix n assume n: "n < LENGTH(32)"
    then consider "n < 8" | "8 \<le> n" "n < 16" | "16 \<le> n" "n < 24" | "24 \<le> n" by fastforce
    then show "bit (load32 p (store32 p v m)) n = bit v n"
      using n ne by cases (auto simp: load32_def store32_def bit_simps)
  qed
qed

lemma of_nat_below: "k < 2 ^ 32 \<Longrightarrow> unat (of_nat k :: DWord) = k"
  by (simp add: unat_of_nat take_bit_nat_eq_self)

text \<open>The user program lies behind the system and below the pages it is copied to.\<close>

lemma user_copy_disjoint:
  assumes "a + n \<le> 0x100000"
  shows "disjoint_regions (of_nat a) 0x100000 n"
  unfolding disjoint_regions_def in_region_def
proof (intro allI impI)
  fix x :: DWord assume x: "unat (x - of_nat a) < n"
  let ?j = "unat (x - of_nat a)"
  have "x = of_nat (a + ?j)" by simp
  then have "unat x = a + ?j" using of_nat_below[of "a + ?j"] x assms by simp
  then show "\<not> unat (x - 0x100000) < n"
    using unat_minus_of_nat[of "0x100000" x] x assms by simp
qed

lemma user_copied:
  assumes "a + length user \<le> 0x100000" "\<And>i. i < length user \<Longrightarrow> m (of_nat a + of_nat i) = user ! i"
  defines "m' \<equiv> copy_data (of_nat a) 0x100000 (int (length user)) m"
  shows "i < length user \<Longrightarrow> m' (0x100000 + of_nat i) = user ! i" and "unat x < 0x100000 \<Longrightarrow> m' x = m x"
proof -
  have "m' = block_copy (of_nat a) 0x100000 (length user) m"
  proof -
    obtain p q k w where c: "copy_words (of_nat a) 0x100000 (int (length user)) m = (p, q, k, w)" by (metis prod_cases4)
    have "disjoint_regions (of_nat a) 0x100000 (nat (int (length user)))" using user_copy_disjoint[OF assms(1)] by simp
    from copy_words_block[OF this _ c] assms(1) show ?thesis by (simp add: m'_def copy_data_def c)
  qed
  then show "i < length user \<Longrightarrow> m' (0x100000 + of_nat i) = user ! i" "unat x < 0x100000 \<Longrightarrow> m' x = m x"
    using assms(1,2) of_nat_below[of i] unat_minus_of_nat[of "0x100000" x] by (auto simp: block_copy_def in_region_def)
qed

section \<open>From the image to user mode\<close>

text \<open>What the boot sector leaves in memory: the image behind its first sector, at \<open>KERNEL_START\<close>.\<close>

definition loaded_from :: "Byte list \<Rightarrow> zeos \<Rightarrow> bool" where
  "loaded_from img z \<longleftrightarrow> (\<forall>i < length img - 512. bytes z (KERNEL_START + of_nat i) = img ! (512 + i))"

lemma loaded_words:
  assumes "loaded_from (disk_image sector sys user) z" "length sector = 512" "12 \<le> length sys" "length sys + length user < 2 ^ 24"
  shows "load32 p_sys_size (bytes z) = of_nat (length sys)" "load32 p_usr_size (bytes z) = of_nat (length user)"
    "load32 p_rdtr (bytes z) = 0x7E1A" and "i < length user \<Longrightarrow> bytes z (KERNEL_START + of_nat (length sys + i)) = user ! i"
proof -
  have at: "bytes z (KERNEL_START + of_nat i) = disk_image sector sys user ! (512 + i)" if "i < length sys + length user" for i
    using assms(1) that image_length[OF assms(2,3), of user] by (simp add: loaded_from_def)
  show "load32 p_sys_size (bytes z) = of_nat (length sys)"
    by (rule size_bytes_read)
       (use at assms image_nth[OF assms(2,3)] of_nat_below[of "length sys"] in \<open>simp_all add: p_sys_size_def\<close>)
  show "load32 p_usr_size (bytes z) = of_nat (length user)"
  proof (rule size_bytes_read)
    fix k :: nat assume "k < 4"
    then show "bytes z (p_usr_size + of_nat k) = size_bytes (of_nat (length user)) ! k"
      using at[of "4 + k"] assms(3) image_nth[OF assms(2,3), of "516 + k" user] by (simp add: p_usr_size_def add.assoc)
  qed (use assms(4) of_nat_below[of "length user"] in simp)
  show "load32 p_rdtr (bytes z) = 0x7E1A"
  proof (rule size_bytes_read)
    fix k :: nat assume "k < 4"
    then show "bytes z (p_rdtr + of_nat k) = size_bytes 0x7E1A ! k"
      using at[of "8 + k"] assms(3) image_nth[OF assms(2,3), of "520 + k" user] by (simp add: p_rdtr_def add.assoc)
  qed simp
  show "bytes z (KERNEL_START + of_nat (length sys + i)) = user ! i" if "i < length user"
    using at[of "length sys + i"] image_nth[OF assms(2,3), of "512 + length sys + i" user] assms(3) that
    by (simp add: add.assoc)
qed

lemma zeos_main_kernel:
  "zeos_main k set_handlers prot cpu_idle z = do {
     s \<leftarrow> boot prot cpu_idle (kernel z);
     let m = copy_data (KERNEL_START + load32 p_sys_size (bytes z)) usr_main (sint (load32 p_usr_size (bytes z))) (bytes z);
     let c = set_seg_regs KERNEL_DS KERNEL_DS (start_stack k) (set_eflags (proc z));
     let c = c\<lparr>tables := setTSS k (setIdt k set_handlers (setGdt k (tables c)))\<rparr>;
     let (m, c) = return_gate USER_DS USER_DS USER_ESP USER_CS L_USER_START (load32 p_rdtr m) (m, enable_int (set_pe_flag c));
     Some \<lparr>proc = c, kernel = s, bytes = m\<rparr> }"
  by (simp add: zeos_main_def boot_def bind_assoc Let_def split: prod.split)

lemma sint_small: "n < 2 ^ 31 \<Longrightarrow> sint (of_nat n :: DWord) = int n"
  by (simp add: signed_of_nat signed_take_bit_int_eq_self)

text \<open>The length \<open>build\<close> patches into the boot sector, in units of 16 bytes.\<close>

lemma paragraphs_cover:
  assumes "length sector = 512" "12 \<le> length sys" "length sys + length user < 2 ^ 20 - 15"
  shows "length sys + length user
    \<le> 16 * (unat (disk_image sector sys user ! 500) + 256 * unat (disk_image sector sys user ! 501))"
proof -
  let ?n = "length sys + length user" and ?w = "image_paragraphs sys user"
  have "?w = of_nat (?n + 15) div 16" by (simp add: image_paragraphs_def add.assoc)
  then have w: "unat ?w = (?n + 15) div 16" using of_nat_below[of "?n + 15"] assms(3) by (simp add: unat_div)
  then have "unat ?w div 256 < 256" using assms(3) by simp
  then have "unat (ucast ?w :: Byte) + 256 * unat (ucast (drop_bit 8 ?w) :: Byte) = unat ?w"
    by (simp add: unsigned_ucast_eq take_bit_eq_mod unat_drop_bit_eq drop_bit_eq_div unat_div)
  then show ?thesis using w by (simp add: image_paragraphs_nth[OF assms(1,2)])
qed

lemma main_processor:
  assumes "zeos_main k set_handlers prot cpu_idle z = Some z'"
  shows "seg_cs (proc z') = USER_CS" "seg_ds (proc z') = USER_DS" "seg_es (proc z') = USER_DS" "seg_ss (proc z') = USER_DS"
    "r_eip (proc z') = L_USER_START" "r_esp (proc z') = USER_ESP" "bit (cr0 (proc z')) 31" "eflags (proc z') = 0x200"
    "pic_mask (proc z') = 0xFC" "gate_offset (idt (tables (proc z')) 32) = a_clock_handler k"
    "gate_offset (idt (tables (proc z')) 33) = a_keyboard_handler k"
proof -
  let ?t = "setTSS k (setIdt k set_handlers (setGdt k (tables (set_seg_regs KERNEL_DS KERNEL_DS (start_stack k) (set_eflags (proc z))))))"
  have c: "proc z' = enable_int (set_pe_flag (set_seg_regs KERNEL_DS KERNEL_DS (start_stack k) (set_eflags (proc z))\<lparr>tables := ?t\<rparr>))
      \<lparr>seg_es := USER_DS, seg_ds := USER_DS, seg_ss := USER_DS, r_esp := USER_ESP, seg_cs := USER_CS, r_eip := L_USER_START\<rparr>"
    using assms unfolding zeos_main_kernel by (auto simp: return_gate_def Let_def split: bind_splits)
  have b: "(0x80000000 :: DWord) = push_bit 31 1" by simp
  show "seg_cs (proc z') = USER_CS" "seg_ds (proc z') = USER_DS" "seg_es (proc z') = USER_DS" "seg_ss (proc z') = USER_DS"
    "r_eip (proc z') = L_USER_START" "r_esp (proc z') = USER_ESP" "eflags (proc z') = 0x200" "pic_mask (proc z') = 0xFC"
    by (simp_all add: c enable_int_def set_pe_flag_def set_seg_regs_def set_eflags_def Let_def)
  show "bit (cr0 (proc z')) 31"
    by (simp add: c enable_int_def set_pe_flag_def bit_or_iff b bit_push_bit_iff del: push_bit_of_1)
  have t: "tables (proc z') = ?t" by (simp add: c enable_int_def set_pe_flag_def)
  show "gate_offset (idt (tables (proc z')) 32) = a_clock_handler k" "gate_offset (idt (tables (proc z')) 33) = a_keyboard_handler k"
    unfolding t
    by (simp_all add: setTSS_def setIdt_def setSysenter_def setMSR_def setInterruptHandler_def gate_offset_def word_halves Let_def)
qed

lemma main_run:
  assumes "loaded_from (disk_image sector sys user) z" "length sector = 512" "12 \<le> length sys"
    and "0x10000 + length sys + length user \<le> 0x100000" "length user \<le> 0x1BFFC" "kernel z = kernel_image clock vga base"
  shows "\<exists>z'. zeos_main k set_handlers prot cpu_idle z = Some z' \<and> proc_ok (kernel z') boot_view
      \<and> (\<forall>i < length user. bytes z' (L_USER_START + of_nat i) = user ! i) \<and> load32 (USER_ESP + 12) (bytes z') = 0x7E1A"
proof -
  have l: "length sys + length user < 2 ^ 24" using assms(4) by simp
  note words = loaded_words[OF assms(1-3) l]
  obtain s where s: "boot prot cpu_idle (kernel z) = Some s" "proc_ok s boot_view"
    using boot_run[of prot cpu_idle clock vga base] assms(6) by auto
  define M where "M = copy_data (of_nat (0x10000 + length sys)) 0x100000 (int (length user)) (bytes z)"
  have m: "copy_data (KERNEL_START + load32 p_sys_size (bytes z)) usr_main (sint (load32 p_usr_size (bytes z))) (bytes z) = M"
    using assms(4) by (simp add: M_def words(1,2) usr_main_def PH_USER_START_def KERNEL_START_def sint_small)
  have src: "bytes z (of_nat (0x10000 + length sys) + of_nat i) = user ! i" if "i < length user" for i
    using words(4)[OF that] by (simp add: KERNEL_START_def add.assoc)
  note copied = user_copied[OF assms(4) src, folded M_def]
  have r: "load32 p_rdtr M = 0x7E1A"
    unfolding words(3)[symmetric] by (simp add: load32_def copied(2) p_rdtr_def KERNEL_START_def)
  let ?m' = "store32 (USER_ESP + 12) 0x7E1A M"
  have "?m' (L_USER_START + of_nat i) = user ! i" if i: "i < length user" for i
  proof -
    have "unat (0x100000 + of_nat i :: DWord) = 0x100000 + i"
      using of_nat_below[of "0x100000 + i"] i assms(5) by simp
    then have "unat (0x100000 + of_nat i :: DWord) < 0x11BFFC" using i assms(5) by simp
    then have "(0x100000 + of_nat i :: DWord) \<notin> {0x11BFFC, 0x11BFFD, 0x11BFFE, 0x11BFFF}" by auto
    then show ?thesis
      using copied(1)[OF _ i] by (simp add: store32_def L_USER_START_def USER_ESP_def NUM_PAG_CODE_def NUM_PAG_DATA_def)
  qed
  then show ?thesis
    using s load32_store32[of "USER_ESP + 12" "0x7E1A" M]
    by (simp add: zeos_main_kernel m r return_gate_def Let_def)
qed



end
