(* ===== verification/Game_Board.thy ===== *)
theory Game_Board
  imports Ring_Buffer
begin

text \<open>
  The game \<open>user.c\<close> on its board: the 25 x 80 cells, the ship, the formation of aliens, the shots
  and the shields. An access outside the board is \<^const>\<open>None\<close>. The variables are \<open>int\<close>s of C
  that stay small, and \<^typ>\<open>int\<close>s here; times are machine words. What \<open>gettime\<close> and \<open>alloc\<close> return
  is part of the state: the \<open>n\<close>-th call gives \<open>clk n\<close>, respectively \<open>alloc_at n\<close>.
\<close>

section \<open>State\<close>

record cell =
  c_alien :: int
  c_alien_shoot :: int
  c_shield :: int
  c_ship :: int
  c_ship_shoot :: int
  c_wall :: int

type_synonym board = "int \<Rightarrow> int \<Rightarrow> cell"

record game =
  board :: board
  LOSE :: int
  WIN :: int
  x_aliens :: int
  y_aliens :: int
  y_ship :: int
  move_right :: int
  move_left :: int
  move_down :: int
  last_shoot :: int
  shoot_pointer :: int
  fps :: int
  pfd :: int
  t0 :: DWord
  frames :: "DWord ring"
  ticks_prveis :: DWord
  total_frames :: int
  clk :: "nat \<Rightarrow> DWord"
  clk_reads :: nat
  alloc_at :: "nat \<Rightarrow> DWord"
  allocs :: nat
  pages :: "DWord \<Rightarrow> nat \<Rightarrow> Word16"

definition NUM_ROWS_user :: int where "NUM_ROWS_user = 25"
definition NUM_COLUMNS_user :: int where "NUM_COLUMNS_user = 80"
definition SEG :: int where "SEG = 18"
definition EASY :: bool where "EASY = True"

text \<open>\<open>dead_zone\<close> and \<open>x_ship\<close> are never assigned.\<close>

definition dead_zone :: int where "dead_zone = 19"
definition x_ship :: int where "x_ship = NUM_ROWS_user - 2"

definition in_board :: "int \<Rightarrow> int \<Rightarrow> bool" where
  "in_board i j \<longleftrightarrow> 0 \<le> i \<and> i < NUM_ROWS_user \<and> 0 \<le> j \<and> j < NUM_COLUMNS_user"

definition cell_of :: "int \<Rightarrow> int \<Rightarrow> game \<Rightarrow> cell option" where
  "cell_of i j g = (if in_board i j then Some (board g i j) else None)"

definition upd_board :: "int \<Rightarrow> int \<Rightarrow> (cell \<Rightarrow> cell) \<Rightarrow> board \<Rightarrow> board" where
  "upd_board i j f b = b(i := (b i)(j := f (b i j)))"

definition upd_cell :: "int \<Rightarrow> int \<Rightarrow> (cell \<Rightarrow> cell) \<Rightarrow> game \<Rightarrow> game option" where
  "upd_cell i j f g = (if in_board i j then Some (g\<lparr>board := upd_board i j f (board g)\<rparr>) else None)"

definition gettime :: "game \<Rightarrow> DWord \<times> game" where
  "gettime g = (clk g (clk_reads g), g\<lparr>clk_reads := clk_reads g + 1\<rparr>)"

section \<open>Building the board\<close>

definition is_wall :: "int \<Rightarrow> int \<Rightarrow> bool" where
  "is_wall i j \<longleftrightarrow> i = 1 \<or> i = NUM_ROWS_user - 1 \<or> (j = 0 \<or> j = 1) \<and> i \<noteq> 0
     \<or> (j = NUM_COLUMNS_user - 1 \<or> j = NUM_COLUMNS_user - 2) \<and> i \<noteq> 0"

definition set_ship :: "int \<Rightarrow> cell \<Rightarrow> cell" where "set_ship v c = c\<lparr>c_ship := v\<rparr>"
definition set_alien :: "int \<Rightarrow> cell \<Rightarrow> cell" where "set_alien v c = c\<lparr>c_alien := v\<rparr>"
definition set_shield :: "int \<Rightarrow> cell \<Rightarrow> cell" where "set_shield v c = c\<lparr>c_shield := v\<rparr>"
definition set_wall :: "int \<Rightarrow> cell \<Rightarrow> cell" where "set_wall v c = c\<lparr>c_wall := v\<rparr>"
definition set_alien_shoot :: "int \<Rightarrow> cell \<Rightarrow> cell" where "set_alien_shoot v c = c\<lparr>c_alien_shoot := v\<rparr>"
definition set_ship_shoot :: "int \<Rightarrow> cell \<Rightarrow> cell" where "set_ship_shoot v c = c\<lparr>c_ship_shoot := v\<rparr>"

lemmas set_field_defs = set_ship_def set_alien_def set_shield_def set_wall_def set_alien_shoot_def set_ship_shoot_def

definition init_cell :: "int \<Rightarrow> int \<Rightarrow> game \<Rightarrow> game option" where
  "init_cell i j g = do {
     g \<leftarrow> (if is_wall i j then upd_cell i j (set_wall 1) g else Some g);
     g \<leftarrow> (if i = x_ship \<and> j = y_ship g then do {
            g \<leftarrow> upd_cell i j (set_ship 1) g;
            g \<leftarrow> upd_cell (i - 1) j (set_ship 1) g;
            g \<leftarrow> upd_cell i (j - 1) (set_ship 1) g;
            g \<leftarrow> upd_cell i (j + 1) (set_ship 1) g;
            g \<leftarrow> upd_cell i (j - 2) (set_ship 1) g;
            upd_cell i (j + 2) (set_ship 1) g }
          else Some g);
     g \<leftarrow> (if (i = x_aliens g \<or> i = x_aliens g + 4) \<and> (y_aliens g \<le> j \<and> j mod 2 = 0 \<and> j < 52)
          then upd_cell i j (set_alien 1) g else Some g);
     g \<leftarrow> (if i = x_aliens g + 2 \<and> y_aliens g \<le> j \<and> j mod 2 = 1 \<and> j < 51
          then upd_cell i j (set_alien 1) g else Some g);
     if (9 < j \<and> j < 9 * 2 \<or> 9 * 3 < j \<and> j < 9 * 4 \<or> 9 * 5 < j \<and> j < 9 * 6 \<or> 9 * 7 < j \<and> j < 9 * 8)
        \<and> (i = dead_zone \<or> i = dead_zone - 1)
     then upd_cell i j (set_shield 1) g else Some g }"

definition init_board :: "game \<Rightarrow> game option" where
  "init_board g = mfold (\<lambda>i. mfold (init_cell i) [0..NUM_COLUMNS_user - 1]) [0..NUM_ROWS_user - 1] g"

section \<open>The formation\<close>

text \<open>The bodies of the double loops, with the number of aliens counted so far.\<close>

definition alien_down :: "int \<Rightarrow> int \<Rightarrow> int \<times> game \<Rightarrow> (int \<times> game) option" where
  "alien_down i j = (\<lambda>(total_aliens, g). do {
     c \<leftarrow> cell_of i j g;
     if c_alien c = 1 then do {
       g \<leftarrow> upd_cell i j (set_alien 0) g;
       c \<leftarrow> cell_of i j g;
       g \<leftarrow> (if c_ship_shoot c \<noteq> 1 then do {
              g \<leftarrow> upd_cell (i + 1) j (set_alien 1) g;
              c \<leftarrow> cell_of i j g;
              if c_shield c = 1 then upd_cell i j (set_shield 0) g else Some g }
            else Some g);
       Some (total_aliens + 1, g) }
     else Some (total_aliens, g) })"

definition aliens_down :: "game \<Rightarrow> game option" where
  "aliens_down g = do {
     (total_aliens, g) \<leftarrow> mfold (\<lambda>i. mfold (alien_down i) [2..NUM_COLUMNS_user - 3]) (rev [3..22]) (0, g);
     Some (if total_aliens = 0 then g\<lparr>WIN := 1\<rparr> else g) }"

definition alien_right :: "int \<Rightarrow> int \<Rightarrow> int \<times> game \<Rightarrow> (int \<times> game) option" where
  "alien_right i j = (\<lambda>(total_aliens, g). do {
     c \<leftarrow> cell_of i j g;
     if c_alien c \<noteq> 0 then do {
       g \<leftarrow> (if c_shield c = 1 then upd_cell i j (set_shield 0) g else Some g);
       g \<leftarrow> upd_cell i j (set_alien 0) g;
       g \<leftarrow> upd_cell i (j + 1) (set_alien 1) g;
       Some (total_aliens + 1, g) }
     else Some (total_aliens, g) })"

definition aliens_right :: "game \<Rightarrow> game option" where
  "aliens_right g = do {
     (total_aliens, g) \<leftarrow> mfold (\<lambda>i. mfold (alien_right i) (rev [2..NUM_COLUMNS_user - 3])) [3..21] (0, g);
     Some (if total_aliens = 0 then g\<lparr>WIN := 1\<rparr> else g) }"

definition alien_left :: "int \<Rightarrow> int \<Rightarrow> int \<times> game \<Rightarrow> (int \<times> game) option" where
  "alien_left i j = (\<lambda>(total_aliens, g). do {
     c \<leftarrow> cell_of i j g;
     if c_alien c \<noteq> 0 then do {
       g \<leftarrow> (if c_shield c = 1 then upd_cell i j (set_shield 0) g else Some g);
       g \<leftarrow> upd_cell i j (set_alien 0) g;
       g \<leftarrow> upd_cell i (j - 1) (set_alien 1) g;
       Some (total_aliens + 1, g) }
     else Some (total_aliens, g) })"

definition aliens_left :: "game \<Rightarrow> game option" where
  "aliens_left g = do {
     (total_aliens, g) \<leftarrow> mfold (\<lambda>i. mfold (alien_left i) [2..NUM_COLUMNS_user - 3]) [3..21] (0, g);
     Some (if total_aliens = 0 then g\<lparr>WIN := 1\<rparr> else g) }"

definition move_aliens :: "game \<Rightarrow> game option" where
  "move_aliens g =
     (if move_down g \<noteq> 0 then do {
        g \<leftarrow> aliens_down g;
        let g = g\<lparr>x_aliens := x_aliens g + 1\<rparr>;
        let g = (if 18 \<le> x_aliens g then g\<lparr>LOSE := 1\<rparr> else g);
        let g = g\<lparr>move_down := 0\<rparr>;
        Some (if 29 \<le> y_aliens g then g\<lparr>move_left := 1\<rparr>
              else if y_aliens g \<le> 2 then g\<lparr>move_right := 1\<rparr>
              else g\<lparr>move_down := 1\<rparr>) }
      else if move_right g \<noteq> 0 then do {
        g \<leftarrow> aliens_right g;
        let g = g\<lparr>y_aliens := y_aliens g + 1\<rparr>;
        Some (if y_aliens g = 29 then g\<lparr>move_right := 0, move_down := 1\<rparr> else g) }
      else if move_left g \<noteq> 0 then do {
        g \<leftarrow> aliens_left g;
        let g = g\<lparr>y_aliens := y_aliens g - 1\<rparr>;
        Some (if y_aliens g = 2 then g\<lparr>move_left := 0, move_down := 1\<rparr> else g) }
      else Some g)"

section \<open>The ship\<close>

definition shoot_colision :: "game \<Rightarrow> bool option" where
  "shoot_colision g = do {
     c \<leftarrow> cell_of x_ship (y_ship g) g;
     if c_alien_shoot c \<noteq> 0 then Some True else do {
     c \<leftarrow> cell_of (x_ship - 1) (y_ship g) g;
     if c_alien_shoot c \<noteq> 0 then Some True else do {
     c \<leftarrow> cell_of x_ship (y_ship g - 1) g;
     if c_alien_shoot c \<noteq> 0 then Some True else do {
     c \<leftarrow> cell_of x_ship (y_ship g - 2) g;
     if c_alien_shoot c \<noteq> 0 then Some True else do {
     c \<leftarrow> cell_of x_ship (y_ship g + 1) g;
     if c_alien_shoot c \<noteq> 0 then Some True else do {
     c \<leftarrow> cell_of x_ship (y_ship g + 2) g;
     Some (c_alien_shoot c \<noteq> 0) } } } } } }"

definition ship_right :: "game \<Rightarrow> game option" where
  "ship_right g =
     (if y_ship g < NUM_COLUMNS_user - 5 then do {
        g \<leftarrow> upd_cell x_ship (y_ship g + 3) (set_ship 1) g;
        g \<leftarrow> upd_cell (x_ship - 1) (y_ship g + 1) (set_ship 1) g;
        g \<leftarrow> upd_cell x_ship (y_ship g - 2) (set_ship 0) g;
        g \<leftarrow> upd_cell (x_ship - 1) (y_ship g) (set_ship 0) g;
        let g = g\<lparr>y_ship := y_ship g + 1\<rparr>;
        hit \<leftarrow> shoot_colision g;
        Some (if hit then g\<lparr>LOSE := 1\<rparr> else g) }
      else Some g)"

definition ship_left :: "game \<Rightarrow> game option" where
  "ship_left g =
     (if 4 < y_ship g then do {
        g \<leftarrow> upd_cell x_ship (y_ship g - 3) (set_ship 1) g;
        g \<leftarrow> upd_cell (x_ship - 1) (y_ship g - 1) (set_ship 1) g;
        g \<leftarrow> upd_cell x_ship (y_ship g + 2) (set_ship 0) g;
        g \<leftarrow> upd_cell (x_ship - 1) (y_ship g) (set_ship 0) g;
        let g = g\<lparr>y_ship := y_ship g - 1\<rparr>;
        hit \<leftarrow> shoot_colision g;
        Some (if hit then g\<lparr>LOSE := 1\<rparr> else g) }
      else Some g)"

section \<open>Shots\<close>

definition move_shoot_alien :: "int \<Rightarrow> int \<Rightarrow> game \<Rightarrow> game option" where
  "move_shoot_alien i j g = do {
     c \<leftarrow> cell_of i j g;
     if c_alien_shoot c \<noteq> 0 then do {
       g \<leftarrow> (if c_shield c \<noteq> 0 then upd_cell i j (set_shield 0) g
            else if i < NUM_ROWS_user - 2 then do {
              d \<leftarrow> cell_of (i + 1) j g;
              if c_ship_shoot c \<noteq> 1 \<or> c_ship_shoot d \<noteq> 1 then upd_cell (i + 1) j (set_alien_shoot 1) g else Some g }
            else Some g);
       c \<leftarrow> cell_of i j g;
       let g = (if c_ship c \<noteq> 0 then g\<lparr>LOSE := 1\<rparr> else g);
       upd_cell i j (set_alien_shoot 0) g }
     else Some g }"

definition move_shoots_aliens :: "game \<Rightarrow> game option" where
  "move_shoots_aliens g = mfold (\<lambda>i. mfold (move_shoot_alien i) [2..NUM_COLUMNS_user - 3]) (rev [2..23]) g"

definition move_shoot_ship :: "int \<Rightarrow> int \<Rightarrow> game \<Rightarrow> game option" where
  "move_shoot_ship i j g = do {
     c \<leftarrow> cell_of i j g;
     if c_ship_shoot c \<noteq> 0 then do {
       g \<leftarrow> (if c_alien c \<noteq> 0 then upd_cell i j (set_alien 0) g
            else do {
              d \<leftarrow> cell_of (i - 1) j g;
              if c_shield d = 0 \<and> 3 \<le> i \<and> (c_alien_shoot c \<noteq> 1 \<or> c_alien_shoot d \<noteq> 1)
              then upd_cell (i - 1) j (set_ship_shoot 1) g else Some g });
       upd_cell i j (set_ship_shoot 0) g }
     else Some g }"

definition move_shoots_ship :: "game \<Rightarrow> game option" where
  "move_shoots_ship g = mfold (\<lambda>i. mfold (move_shoot_ship i) [2..NUM_COLUMNS_user - 3]) [2..23] g"

definition cancel_shoot :: "int \<Rightarrow> int \<Rightarrow> game \<Rightarrow> game option" where
  "cancel_shoot i j g = do {
     c \<leftarrow> cell_of i j g;
     if c_alien_shoot c = 1 then do {
       d \<leftarrow> cell_of (i + 1) j g;
       if c_ship_shoot d = 1 then do {
         g \<leftarrow> upd_cell i j (set_alien_shoot 0) g;
         upd_cell (i + 1) j (set_ship_shoot 0) g }
       else Some g }
     else Some g }"

definition cancel_shoots :: "game \<Rightarrow> game option" where
  "cancel_shoots g = mfold (\<lambda>i. mfold (cancel_shoot i) [2..NUM_COLUMNS_user - 3]) [2..23] g"

definition move_shoots :: "game \<Rightarrow> game option" where
  "move_shoots g = do { g \<leftarrow> cancel_shoots g; g \<leftarrow> move_shoots_aliens g; move_shoots_ship g }"

definition make_ship_shoot :: "game \<Rightarrow> game option" where
  "make_ship_shoot g = do {
     c \<leftarrow> cell_of (x_ship - 2) (y_ship g) g;
     if EASY \<and> c_ship_shoot c \<noteq> 1 then upd_cell (x_ship - 2) (y_ship g) (set_ship_shoot 1) g
     else do {
       c \<leftarrow> cell_of (x_ship - 3) (y_ship g) g;
       if c_ship_shoot c \<noteq> 1 then do {
         c \<leftarrow> cell_of (x_ship - 2) (y_ship g + 1) g;
         if c_ship_shoot c \<noteq> 1 then do {
           c \<leftarrow> cell_of (x_ship - 2) (y_ship g - 1) g;
           if c_ship_shoot c \<noteq> 1 then upd_cell (x_ship - 2) (y_ship g) (set_ship_shoot 1) g else Some g }
         else Some g }
       else Some g } }"

text \<open>The column array \<open>is_alien\<close> of \<open>ia_shoot_alien\<close>.\<close>

definition scan_alien :: "int \<Rightarrow> int \<Rightarrow> game \<Rightarrow> (int \<Rightarrow> int) \<Rightarrow> (int \<Rightarrow> int) option" where
  "scan_alien i j g is_alien = do {
     c \<leftarrow> cell_of i j g;
     if c_alien c \<noteq> 0 then
       (if 0 \<le> j \<and> j < 80 then Some (if is_alien j = 0 then is_alien(j := i) else is_alien) else None)
     else Some is_alien }"

definition shoot_from :: "(int \<Rightarrow> int) \<Rightarrow> int \<Rightarrow> int \<Rightarrow> int \<times> game \<Rightarrow> (int \<times> game) option" where
  "shoot_from is_alien max_aliens_shoots k = (\<lambda>(count, g).
     if count < max_aliens_shoots then
       (if 0 \<le> k \<and> k < 80 then
          if 0 < is_alien k then do {
            g \<leftarrow> upd_cell (is_alien k) k (set_alien_shoot 1) g;
            let g = g\<lparr>shoot_pointer := shoot_pointer g + 1\<rparr>;
            g \<leftarrow> (if shoot_pointer g = 0 then None
                 else Some (g\<lparr>last_shoot := y_aliens g + (49 - 50 div shoot_pointer g)\<rparr>));
            Some (count + 1, g\<lparr>shoot_pointer := shoot_pointer g mod 5\<rparr>) }
          else Some (count, g)
        else None)
     else Some (count, g))"

definition ia_shoot_alien :: "game \<Rightarrow> game option" where
  "ia_shoot_alien g = do {
     let (hard, max_aliens_shoots) = (if EASY then (2, 1) else (1, 3));
     let (now, g) = gettime g;
     if sint now mod hard = 0 then do {
       is_alien \<leftarrow> mfold (\<lambda>i. mfold (\<lambda>j. scan_alien i j g) [2..NUM_COLUMNS_user - 3]) (rev [2..23]) (\<lambda>_. 0);
       (count, g) \<leftarrow> mfold (shoot_from is_alien max_aliens_shoots) [last_shoot g..79] (0, g);
       Some g }
     else Some g }"

definition ia_move :: "game \<Rightarrow> game option" where
  "ia_move g = do { g \<leftarrow> move_shoots g; g \<leftarrow> move_aliens g; ia_shoot_alien g }"

end
