(* ===== verification/Game_Steps.thy ===== *)
theory Game_Steps
  imports Game_Board
begin

text \<open>
  What the operations of \<^theory_text>\<open>Game_Board\<close> do to a board: rules for the counting loops, the effect of
  a march of the formation in closed form, and the invariant \<open>game_ok\<close> of the arena, which every
  operation keeps without an access outside the board.
\<close>

section \<open>Counting loops\<close>

text \<open>The index lists of the loops stay folded.\<close>

declare upto_rec_numeral [simp del]

lemma upto_loop:
  assumes "a \<le> b + 1" "I a s"
    and "\<And>k s. a \<le> k \<Longrightarrow> k \<le> b \<Longrightarrow> I k s \<Longrightarrow> \<exists>s'. f k s = Some s' \<and> I (k + 1) s'"
  shows "\<exists>s'. mfold f [a..b] s = Some s' \<and> I (b + 1) s'"
  using assms
proof (induction "nat (b + 1 - a)" arbitrary: a s)
  case 0
  then show ?case by simp
next
  case (Suc n)
  then have ab: "a \<le> b" by linarith
  then obtain s1 where s1: "f a s = Some s1" "I (a + 1) s1" using Suc.prems(2) Suc.prems(3)[of a s] by auto
  have "\<exists>s'. mfold f [a + 1..b] s1 = Some s' \<and> I (b + 1) s'"
    by (rule Suc.hyps(1)) (use Suc s1 ab in auto)
  then show ?case using s1 ab by (simp add: upto_rec1)
qed

text \<open>A double loop whose body keeps an invariant.\<close>

lemma mfold_preserves:
  assumes "I s" "\<And>x s. x \<in> set xs \<Longrightarrow> I s \<Longrightarrow> \<exists>s'. f x s = Some s' \<and> I s'"
  shows "\<exists>s'. mfold f xs s = Some s' \<and> I s'"
  using assms
proof (induction xs arbitrary: s)
  case (Cons x xs)
  obtain s1 where "f x s = Some s1" "I s1" using Cons.prems by fastforce
  then show ?case using Cons.IH[of s1] Cons.prems(2) by simp
qed simp

lemma grid_preserves:
  assumes "I s" "\<And>i j s. i \<in> set is \<Longrightarrow> j \<in> set js \<Longrightarrow> I s \<Longrightarrow> \<exists>s'. f i j s = Some s' \<and> I s'"
  shows "\<exists>s'. mfold (\<lambda>i. mfold (f i) js) is s = Some s' \<and> I s'"
proof (rule mfold_preserves[where I = I])
  show "\<exists>s'. mfold (f i) js s = Some s' \<and> I s'" if "i \<in> set is" "I s" for i s
    by (rule mfold_preserves[where I = I]) (use assms(2) that in auto)
qed (rule assms(1))

section \<open>A march of the formation\<close>

abbreviation alien_at :: "board \<Rightarrow> int \<Rightarrow> int \<Rightarrow> bool" where
  "alien_at b i j \<equiv> c_alien (b i j) = 1"

text \<open>
  The board after the cells in \<open>P\<close> have been visited by a march by \<open>(dx, dy)\<close>, in which an alien
  is lost where \<open>hit\<close> holds.
\<close>

definition marched :: "(cell \<Rightarrow> bool) \<Rightarrow> int \<Rightarrow> int \<Rightarrow> (int \<Rightarrow> int \<Rightarrow> bool) \<Rightarrow> board \<Rightarrow> board" where
  "marched hit dx dy P b = (\<lambda>i j. (b i j)\<lparr>
     c_alien := (if P (i - dx) (j - dy) \<and> alien_at b (i - dx) (j - dy) \<and> \<not> hit (b (i - dx) (j - dy)) then 1
                 else if P i j \<and> alien_at b i j then 0 else c_alien (b i j)),
     c_shield := (if P i j \<and> alien_at b i j \<and> \<not> hit (b i j) \<and> c_shield (b i j) = 1 then 0 else c_shield (b i j))\<rparr>)"

text \<open>The march by one visited alien.\<close>

definition march_one :: "(cell \<Rightarrow> bool) \<Rightarrow> int \<Rightarrow> int \<Rightarrow> int \<Rightarrow> int \<Rightarrow> board \<Rightarrow> board" where
  "march_one hit dx dy i j b =
     (let b1 = upd_board i j (\<lambda>c. c\<lparr>c_alien := 0, c_shield := if \<not> hit c \<and> c_shield c = 1 then 0 else c_shield c\<rparr>) b
      in if hit (b i j) then b1 else upd_board (i + dx) (j + dy) (set_alien 1) b1)"

definition visit :: "int \<Rightarrow> int \<Rightarrow> (int \<Rightarrow> int \<Rightarrow> bool) \<Rightarrow> int \<Rightarrow> int \<Rightarrow> bool" where
  "visit i j P r c \<longleftrightarrow> r = i \<and> c = j \<or> P r c"

lemma marched_skip: "\<not> alien_at b i j \<Longrightarrow> marched hit dx dy (visit i j P) b = marched hit dx dy P b"
  unfolding marched_def visit_def by (intro ext) (auto intro!: cell.equality)

lemma marched_step:
  assumes "alien_at b i j" "\<not> P i j" "\<not> P (i - dx) (j - dy) \<or> \<not> alien_at b (i - dx) (j - dy)"
    and "P (i + dx) (j + dy) \<or> \<not> alien_at b (i + dx) (j + dy)"
    and "dx \<noteq> 0 \<or> dy \<noteq> 0" "\<And>c a s. hit (c\<lparr>c_alien := a, c_shield := s\<rparr>) = hit c"
  shows "marched hit dx dy (visit i j P) b = march_one hit dx dy i j (marched hit dx dy P b)"
proof (intro ext)
  fix r c
  let ?m = "marched hit dx dy P b"
  have h: "hit (?m i j) = hit (b i j)" using assms(6) by (simp add: marched_def)
  have m: "c_shield (?m i j) = c_shield (b i j)" using assms(2) by (simp add: marched_def)
  have ne: "\<not> (i + dx = i \<and> j + dy = j)" "\<not> (i - dx = i \<and> j - dy = j)" using assms(5) by auto
  consider "r = i" "c = j" | "r = i + dx" "c = j + dy" | "\<not> (r = i \<and> c = j)" "\<not> (r = i + dx \<and> c = j + dy)" by blast
  then show "marched hit dx dy (visit i j P) b r c = march_one hit dx dy i j ?m r c"
  proof cases
    case 1
    have "marched hit dx dy (visit i j P) b i j
        = (b i j)\<lparr>c_alien := 0, c_shield := if \<not> hit (b i j) \<and> c_shield (b i j) = 1 then 0 else c_shield (b i j)\<rparr>"
      using assms(1,3) ne(2) by (auto simp: marched_def visit_def)
    moreover have "march_one hit dx dy i j ?m i j
        = (?m i j)\<lparr>c_alien := 0, c_shield := if \<not> hit (?m i j) \<and> c_shield (?m i j) = 1 then 0 else c_shield (?m i j)\<rparr>"
      using ne(1) by (auto simp: march_one_def upd_board_def Let_def)
    moreover have "(?m i j)\<lparr>c_alien := a, c_shield := s\<rparr> = (b i j)\<lparr>c_alien := a, c_shield := s\<rparr>" for a s
      by (simp add: marched_def)
    ultimately show ?thesis using 1 h m by simp
  next
    case 2
    have "marched hit dx dy (visit i j P) b r c = (if hit (b i j) then ?m r c else set_alien 1 (?m r c))"
      using 2 assms(1,2) ne(1) by (auto simp: marched_def visit_def set_alien_def)
    moreover have "march_one hit dx dy i j ?m r c = (if hit (?m i j) then ?m r c else set_alien 1 (?m r c))"
      using 2 ne(1) by (auto simp: march_one_def upd_board_def Let_def)
    ultimately show ?thesis using h by simp
  next
    case 3
    then have "\<not> (r - dx = i \<and> c - dy = j)" by auto
    then have "marched hit dx dy (visit i j P) b r c = ?m r c" using 3(1) by (auto simp: marched_def visit_def)
    moreover have "march_one hit dx dy i j ?m r c = ?m r c"
      using 3 by (auto simp: march_one_def upd_board_def Let_def)
    ultimately show ?thesis by simp
  qed
qed

text \<open>
  The contract of the three loop bodies: in the scanned rows and columns they march one alien and
  count it. The loops over them differ in their order only; \<open>sweep\<close> says what an order has to
  respect.
\<close>

locale march =
  fixes body :: "int \<Rightarrow> int \<Rightarrow> int \<times> game \<Rightarrow> (int \<times> game) option"
    and hit :: "cell \<Rightarrow> bool" and dx dy :: int and rows :: "int set"
  assumes body_run: "i \<in> rows \<Longrightarrow> 2 \<le> j \<Longrightarrow> j \<le> 77 \<Longrightarrow> c_alien (board g i j) \<in> {0, 1}
     \<Longrightarrow> body i j (n, g) = Some (if alien_at (board g) i j then (n + 1, g\<lparr>board := march_one hit dx dy i j (board g)\<rparr>) else (n, g))"
    and hit_stable: "hit (c\<lparr>c_alien := a, c_shield := s\<rparr>) = hit c"
    and moves: "dx \<noteq> 0 \<or> dy \<noteq> 0"
begin

definition marching :: "game \<Rightarrow> (int \<Rightarrow> int \<Rightarrow> bool) \<Rightarrow> int \<times> game \<Rightarrow> bool" where
  "marching g P s \<longleftrightarrow> (\<exists>n. s = (n, g\<lparr>board := marched hit dx dy P (board g)\<rparr>) \<and> 0 \<le> n
     \<and> (n = 0 \<longleftrightarrow> (\<forall>r c. P r c \<longrightarrow> \<not> alien_at (board g) r c)))"

lemma marching_start: "marching g (\<lambda>_ _. False) (0, g)"
proof -
  have "marched hit dx dy (\<lambda>_ _. False) (board g) = board g" by (simp add: marched_def)
  then show ?thesis by (simp add: marching_def)
qed

lemma marching_step:
  assumes "marching g P s" "i \<in> rows" "2 \<le> j" "j \<le> 77" "c_alien (board g i j) \<in> {0, 1}" "\<not> P i j"
    and "\<not> P (i - dx) (j - dy) \<or> \<not> alien_at (board g) (i - dx) (j - dy)"
    and "P (i + dx) (j + dy) \<or> \<not> alien_at (board g) (i + dx) (j + dy)"
  shows "\<exists>s'. body i j s = Some s' \<and> marching g (visit i j P) s'"
proof -
  let ?b = "board g"
  obtain n where n: "s = (n, g\<lparr>board := marched hit dx dy P ?b\<rparr>)" "0 \<le> n"
    "n = 0 \<longleftrightarrow> (\<forall>r c. P r c \<longrightarrow> \<not> alien_at ?b r c)" using assms(1) by (auto simp: marching_def)
  have same: "c_alien (marched hit dx dy P ?b i j) = c_alien (?b i j)"
    using assms(6,7) by (auto simp: marched_def)
  show ?thesis
  proof (cases "alien_at ?b i j")
    case True
    have "body i j s = Some (n + 1, g\<lparr>board := march_one hit dx dy i j (marched hit dx dy P ?b)\<rparr>)"
      using body_run[OF assms(2-4), of "g\<lparr>board := marched hit dx dy P ?b\<rparr>" n] assms(5) same True n(1) by simp
    moreover have "march_one hit dx dy i j (marched hit dx dy P ?b) = marched hit dx dy (visit i j P) ?b"
      using marched_step[OF True assms(6-8) moves hit_stable] by simp
    ultimately show ?thesis using n(2) True by (auto simp: marching_def visit_def)
  next
    case False
    then have "body i j s = Some s"
      using body_run[OF assms(2-4), of "g\<lparr>board := marched hit dx dy P ?b\<rparr>" n] assms(5) same n(1) by simp
    moreover have "marching g (visit i j P) s"
      using assms(1) False marched_skip[of ?b i j hit dx dy P] unfolding marching_def visit_def by auto
    ultimately show ?thesis by blast
  qed
qed

lemma marching_end:
  assumes "marching g P (n, g')" "\<And>r c. alien_at (board g) r c \<Longrightarrow> P r c"
  shows "g' = g\<lparr>board := marched hit dx dy (\<lambda>_ _. True) (board g)\<rparr>" "n = 0 \<longleftrightarrow> (\<forall>r c. \<not> alien_at (board g) r c)"
proof -
  have "marched hit dx dy P (board g) = marched hit dx dy (\<lambda>_ _. True) (board g)"
    using assms(2) unfolding marched_def by (intro ext) auto
  then show "g' = g\<lparr>board := marched hit dx dy (\<lambda>_ _. True) (board g)\<rparr>" "n = 0 \<longleftrightarrow> (\<forall>r c. \<not> alien_at (board g) r c)"
    using assms by (auto simp: marching_def)
qed

lemma marching_same: "marching g P s \<Longrightarrow> (\<And>r c. Q r c \<longleftrightarrow> P r c) \<Longrightarrow> marching g Q s"
proof -
  assume "marching g P s" "\<And>r c. Q r c \<longleftrightarrow> P r c"
  moreover from this have "Q = P" by (intro ext) simp
  ultimately show ?thesis by simp
qed

text \<open>
  A double loop over rows \<open>rws\<close> and columns \<open>cls\<close>, in any order in which the cell an alien comes from
  is visited later and the cell it goes to was visited before, or has no alien.
\<close>

lemma sweep:
  assumes "distinct rws" "distinct cls" "set rws \<subseteq> rows" "set cls \<subseteq> {2..77}" "\<And>r c. c_alien (board g r c) \<in> {0, 1}"
    and "\<And>r c. alien_at (board g) r c \<Longrightarrow> r \<in> set rws \<and> c \<in> set cls"
    and order: "\<And>ds i us es j vs. rws = ds @ i # us \<Longrightarrow> cls = es @ j # vs
       \<Longrightarrow> \<not> (i - dx \<in> set ds \<and> j - dy \<in> set cls \<or> i - dx = i \<and> j - dy \<in> set es)
         \<and> (i + dx \<in> set ds \<and> j + dy \<in> set cls \<or> i + dx = i \<and> j + dy \<in> set es \<or> \<not> alien_at (board g) (i + dx) (j + dy))"
  shows "\<exists>n. mfold (\<lambda>i. mfold (body i) cls) rws (0, g) = Some (n, g\<lparr>board := marched hit dx dy (\<lambda>_ _. True) (board g)\<rparr>)
     \<and> (n = 0 \<longleftrightarrow> (\<forall>r c. \<not> alien_at (board g) r c))"
proof -
  let ?I = "\<lambda>ds. marching g (\<lambda>r c. r \<in> set ds \<and> c \<in> set cls)"
  let ?J = "\<lambda>ds i es. marching g (\<lambda>r c. r \<in> set ds \<and> c \<in> set cls \<or> r = i \<and> c \<in> set es)"
  have row: "\<exists>s'. mfold (body i) cls s = Some s' \<and> ?I (ds @ [i]) s'" if rs: "rws = ds @ i # us" and s: "?I ds s" for ds i us s
  proof -
    have s0: "?J ds i [] s" by (rule marching_same[OF s]) simp
    have "\<exists>s'. mfold (body i) cls s = Some s' \<and> ?J ds i cls s'"
    proof (rule mfold_invariant_prefix[where I = "?J ds i", OF s0])
      fix es j vs s assume cs: "cls = es @ j # vs" and s: "?J ds i es s"
      let ?P = "\<lambda>r c. r \<in> set ds \<and> c \<in> set cls \<or> r = i \<and> c \<in> set es"
      have ij: "i \<in> rows" "2 \<le> j" "j \<le> 77" "\<not> ?P i j" using assms(1-4) rs cs by auto
      obtain s' where "body i j s = Some s'" "marching g (visit i j ?P) s'"
        using marching_step[OF s ij(1-3) assms(5) ij(4)] order[OF rs cs] by blast
      moreover have "?J ds i (es @ [j]) s'"
        by (rule marching_same[OF calculation(2)]) (auto simp: visit_def)
      ultimately show "\<exists>s'. body i j s = Some s' \<and> ?J ds i (es @ [j]) s'" by blast
    qed
    then obtain s' where s': "mfold (body i) cls s = Some s'" "?J ds i cls s'" by blast
    have "?I (ds @ [i]) s'" by (rule marching_same[OF s'(2)]) auto
    then show ?thesis using s'(1) by blast
  qed
  have start: "?I [] (0, g)" by (rule marching_same[OF marching_start]) simp
  have "\<exists>s'. mfold (\<lambda>i. mfold (body i) cls) rws (0, g) = Some s' \<and> ?I rws s'"
    by (rule mfold_invariant_prefix[where I = ?I, OF start row])
  then obtain n g' where r: "mfold (\<lambda>i. mfold (body i) cls) rws (0, g) = Some (n, g')" "?I rws (n, g')" by auto
  then show ?thesis using marching_end[OF r(2) assms(6)] by auto
qed

end

lemma upd_upd_board [simp]: "upd_board i j f (upd_board i j g b) = upd_board i j (\<lambda>c. f (g c)) b"
  by (simp add: upd_board_def fun_eq_iff)

lemma upd_board_at [simp]: "upd_board i j f b r c = (if r = i \<and> c = j then f (b i j) else b r c)"
  by (simp add: upd_board_def)

lemma upd_board_swap:
  "\<not> (i = k \<and> j = l) \<Longrightarrow> upd_board i j f (upd_board k l h b) = upd_board k l h (upd_board i j f b)"
  by (auto simp: fun_eq_iff)

lemma in_arena [simp]: "0 \<le> i \<Longrightarrow> i < 25 \<Longrightarrow> 0 \<le> j \<Longrightarrow> j < 80 \<Longrightarrow> in_board i j"
  by (simp add: in_board_def NUM_ROWS_user_def NUM_COLUMNS_user_def)

interpretation march_right: march alien_right "\<lambda>_. False" 0 1 "{3..21}"
proof unfold_locales
  fix i j n :: int and g :: game assume a: "i \<in> {3..21}" "2 \<le> j" "j \<le> 77" "c_alien (board g i j) \<in> {0, 1}"
  have ib: "in_board i j" "in_board i (j + 1)" using a by simp_all
  show "alien_right i j (n, g) = Some (if alien_at (board g) i j
     then (n + 1, g\<lparr>board := march_one (\<lambda>_. False) 0 1 i j (board g)\<rparr>) else (n, g))"
    using a(4) ib
    by (auto simp: alien_right_def cell_of_def upd_cell_def march_one_def set_field_defs fun_eq_iff Let_def)
qed simp_all

interpretation march_left: march alien_left "\<lambda>_. False" 0 "-1" "{3..21}"
proof unfold_locales
  fix i j n :: int and g :: game assume a: "i \<in> {3..21}" "2 \<le> j" "j \<le> 77" "c_alien (board g i j) \<in> {0, 1}"
  have ib: "in_board i j" "in_board i (j - 1)" using a by simp_all
  show "alien_left i j (n, g) = Some (if alien_at (board g) i j
     then (n + 1, g\<lparr>board := march_one (\<lambda>_. False) 0 (-1) i j (board g)\<rparr>) else (n, g))"
    using a(4) ib
    by (auto simp: alien_left_def cell_of_def upd_cell_def march_one_def set_field_defs fun_eq_iff Let_def)
qed simp_all

interpretation march_down: march alien_down "\<lambda>c. c_ship_shoot c = 1" 1 0 "{3..22}"
proof unfold_locales
  fix i j n :: int and g :: game assume a: "i \<in> {3..22}" "2 \<le> j" "j \<le> 77" "c_alien (board g i j) \<in> {0, 1}"
  have ib: "in_board i j" "in_board (i + 1) j" using a by simp_all
  show "alien_down i j (n, g) = Some (if alien_at (board g) i j
     then (n + 1, g\<lparr>board := march_one (\<lambda>c. c_ship_shoot c = 1) 1 0 i j (board g)\<rparr>) else (n, g))"
    using a(4) ib
    by (auto simp: alien_down_def cell_of_def upd_cell_def march_one_def set_field_defs fun_eq_iff Let_def)
qed simp_all

section \<open>The three marches\<close>

definition formation :: "int \<Rightarrow> int \<Rightarrow> board \<Rightarrow> bool" where
  "formation x y b \<longleftrightarrow> (\<forall>i j. c_alien (b i j) \<in> {0, 1}
     \<and> (alien_at b i j \<longrightarrow> x \<le> i \<and> i \<le> x + 4 \<and> y \<le> j \<and> j \<le> y + 48))"

lemma formationD:
  assumes "formation x y b"
  shows "c_alien (b i j) \<in> {0, 1}" "alien_at b i j \<Longrightarrow> x \<le> i \<and> i \<le> x + 4 \<and> y \<le> j \<and> j \<le> y + 48"
  using assms by (auto simp: formation_def)

definition no_aliens :: "board \<Rightarrow> bool" where
  "no_aliens b \<longleftrightarrow> (\<forall>i j. \<not> alien_at b i j)"

definition win_if :: "bool \<Rightarrow> game \<Rightarrow> game" where
  "win_if w g = (if w then g\<lparr>WIN := 1\<rparr> else g)"

text \<open>What a counting loop has done before index \<open>x\<close>.\<close>

lemma upto_before: "[a..b] = ds @ x # us \<Longrightarrow> set ds = {a..<x} \<and> a \<le> x \<and> x \<le> b"
proof -
  assume e: "[a..b] = ds @ x # us"
  have "sorted_wrt (<) (ds @ x # us)" unfolding e[symmetric] by (rule sorted_wrt_upto)
  then have o: "\<forall>d\<in>set ds. d < x" "\<forall>u\<in>set us. x < u" by (auto simp: sorted_wrt_append)
  have s: "{a..b} = set ds \<union> {x} \<union> set us" using arg_cong[OF e, of set] by auto
  have "set ds = {a..<x}"
  proof
    show "set ds \<subseteq> {a..<x}" using o s by auto
    show "{a..<x} \<subseteq> set ds"
    proof
      fix d assume "d \<in> {a..<x}"
      moreover have "x \<in> {a..b}" using s by blast
      ultimately have "d \<in> {a..b}" "d < x" by auto
      then show "d \<in> set ds" using s o(2) by force
    qed
  qed
  moreover have "x \<in> {a..b}" using s by blast
  ultimately show ?thesis by simp
qed

lemma downto_before: "rev [a..b] = ds @ x # us \<Longrightarrow> set ds = {x<..b} \<and> a \<le> x \<and> x \<le> b"
proof -
  assume "rev [a..b] = ds @ x # us"
  then have e: "[a..b] = rev us @ x # rev ds" by (metis append.assoc append_Cons append_Nil rev.simps(2) rev_append rev_rev_ident)
  have "sorted_wrt (<) (rev us @ x # rev ds)" unfolding e[symmetric] by (rule sorted_wrt_upto)
  then have o: "\<forall>d\<in>set ds. x < d" by (auto simp: sorted_wrt_append)
  have "{a..b} = set us \<union> {x} \<union> set ds" using arg_cong[OF e, of set] by auto
  then show ?thesis using upto_before[OF e] o by fastforce
qed

lemmas loops_before = upto_before downto_before

lemma scanned_cols: "[2..NUM_COLUMNS_user - 3] = [2..77]"
  by (simp add: NUM_COLUMNS_user_def)

lemma aliens_right_run:
  assumes "formation x y (board g)" "3 \<le> x" "x \<le> 17" "2 \<le> y" "y \<le> 28"
  shows "aliens_right g = Some (win_if (no_aliens (board g)) (g\<lparr>board := marched (\<lambda>_. False) 0 1 (\<lambda>_ _. True) (board g)\<rparr>))"
proof -
  note f = formationD[OF assms(1)]
  have a: "3 \<le> r \<and> r \<le> 21 \<and> 2 \<le> c \<and> c \<le> 76" if "alien_at (board g) r c" for r c
    using f(2)[OF that] assms by linarith
  have "\<exists>n. mfold (\<lambda>i. mfold (alien_right i) (rev [2..77])) [3..21] (0, g)
       = Some (n, g\<lparr>board := marched (\<lambda>_. False) 0 1 (\<lambda>_ _. True) (board g)\<rparr>) \<and> (n = 0 \<longleftrightarrow> (\<forall>r c. \<not> alien_at (board g) r c))"
    by (rule march_right.sweep) (use f(1) a in \<open>fastforce dest!: loops_before\<close>)+
  then show ?thesis by (auto simp: aliens_right_def scanned_cols win_if_def no_aliens_def)
qed

lemma aliens_left_run:
  assumes "formation x y (board g)" "3 \<le> x" "x \<le> 17" "3 \<le> y" "y \<le> 29"
  shows "aliens_left g = Some (win_if (no_aliens (board g)) (g\<lparr>board := marched (\<lambda>_. False) 0 (-1) (\<lambda>_ _. True) (board g)\<rparr>))"
proof -
  note f = formationD[OF assms(1)]
  have a: "3 \<le> r \<and> r \<le> 21 \<and> 3 \<le> c \<and> c \<le> 77" if "alien_at (board g) r c" for r c
    using f(2)[OF that] assms by linarith
  have "\<exists>n. mfold (\<lambda>i. mfold (alien_left i) [2..77]) [3..21] (0, g)
       = Some (n, g\<lparr>board := marched (\<lambda>_. False) 0 (-1) (\<lambda>_ _. True) (board g)\<rparr>) \<and> (n = 0 \<longleftrightarrow> (\<forall>r c. \<not> alien_at (board g) r c))"
    by (rule march_left.sweep) (use f(1) a in \<open>fastforce dest!: loops_before\<close>)+
  then show ?thesis by (auto simp: aliens_left_def scanned_cols win_if_def no_aliens_def)
qed

lemma aliens_down_run:
  assumes "formation x y (board g)" "3 \<le> x" "x \<le> 17" "2 \<le> y" "y \<le> 29"
  shows "aliens_down g = Some (win_if (no_aliens (board g)) (g\<lparr>board := marched (\<lambda>c. c_ship_shoot c = 1) 1 0 (\<lambda>_ _. True) (board g)\<rparr>))"
proof -
  note f = formationD[OF assms(1)]
  have a: "3 \<le> r \<and> r \<le> 21 \<and> 2 \<le> c \<and> c \<le> 77" if "alien_at (board g) r c" for r c
    using f(2)[OF that] assms by linarith
  have "\<exists>n. mfold (\<lambda>i. mfold (alien_down i) [2..77]) (rev [3..22]) (0, g)
       = Some (n, g\<lparr>board := marched (\<lambda>c. c_ship_shoot c = 1) 1 0 (\<lambda>_ _. True) (board g)\<rparr>)
       \<and> (n = 0 \<longleftrightarrow> (\<forall>r c. \<not> alien_at (board g) r c))"
    by (rule march_down.sweep) (use f(1) a in \<open>fastforce dest!: loops_before\<close>)+
  then show ?thesis by (auto simp: aliens_down_def scanned_cols win_if_def no_aliens_def)
qed

section \<open>The arena\<close>

text \<open>The ship is a hull of five cells with one above its middle.\<close>

definition ship_shape :: "int \<Rightarrow> int \<Rightarrow> int \<Rightarrow> bool" where
  "ship_shape y i j \<longleftrightarrow> i = 23 \<and> y - 2 \<le> j \<and> j \<le> y + 2 \<or> i = 22 \<and> j = y"

definition inside :: "int \<Rightarrow> int \<Rightarrow> bool" where
  "inside i j \<longleftrightarrow> 2 \<le> i \<and> i \<le> 23 \<and> 2 \<le> j \<and> j \<le> 77"

text \<open>What a cell may hold when the formation is at \<open>(x, y)\<close> and the ship at column \<open>ys\<close>.\<close>

definition cell_ok :: "int \<Rightarrow> int \<Rightarrow> int \<Rightarrow> int \<Rightarrow> int \<Rightarrow> cell \<Rightarrow> bool" where
  "cell_ok x y ys i j c \<longleftrightarrow>
     c_alien c \<in> {0, 1} \<and> (c_alien c = 1 \<longrightarrow> x \<le> i \<and> i \<le> x + 4 \<and> y \<le> j \<and> j \<le> y + 48)
   \<and> c_alien_shoot c \<in> {0, 1} \<and> (c_alien_shoot c = 1 \<longrightarrow> inside i j)
   \<and> c_ship_shoot c \<in> {0, 1} \<and> (c_ship_shoot c = 1 \<longrightarrow> inside i j)
   \<and> c_shield c \<in> {0, 1} \<and> (c_shield c = 1 \<longrightarrow> (i = 18 \<or> i = 19) \<and> 10 \<le> j \<and> j \<le> 71)
   \<and> c_ship c = (if ship_shape ys i j then 1 else 0) \<and> c_wall c = (if in_board i j \<and> is_wall i j then 1 else 0)"

definition arena :: "int \<Rightarrow> int \<Rightarrow> int \<Rightarrow> board \<Rightarrow> bool" where
  "arena x y ys b \<longleftrightarrow> (\<forall>i j. cell_ok x y ys i j (b i j))"

lemma arenaD: "arena x y ys b \<Longrightarrow> cell_ok x y ys i j (b i j)"
  by (simp add: arena_def)

lemma arena_formation: "arena x y ys b \<Longrightarrow> formation x y b"
  by (simp add: arena_def cell_ok_def formation_def)

lemma arena_upd:
  "arena x y ys b \<Longrightarrow> cell_ok x y ys i j (f (b i j)) \<Longrightarrow> arena x y ys (upd_board i j f b)"
  by (simp add: arena_def)

lemma cell_ok_set:
  assumes "cell_ok x y ys i j c"
  shows "cell_ok x y ys i j (set_shield 0 c)" "cell_ok x y ys i j (set_alien 0 c)"
    "cell_ok x y ys i j (set_alien_shoot 0 c)" "cell_ok x y ys i j (set_ship_shoot 0 c)"
    "inside i j \<Longrightarrow> cell_ok x y ys i j (set_alien_shoot 1 c)" "inside i j \<Longrightarrow> cell_ok x y ys i j (set_ship_shoot 1 c)"
  using assms unfolding cell_ok_def set_field_defs by simp_all

lemma arena_clear:
  assumes "arena x y ys b"
  shows "arena x y ys (upd_board i j (set_shield 0) b)" "arena x y ys (upd_board i j (set_alien 0) b)"
    and "arena x y ys (upd_board i j (set_alien_shoot 0) b)" "arena x y ys (upd_board i j (set_ship_shoot 0) b)"
  by (rule arena_upd[OF assms], rule cell_ok_set, rule arenaD[OF assms])+

lemma arena_shoot:
  assumes "arena x y ys b" "inside i j"
  shows "arena x y ys (upd_board i j (set_alien_shoot 1) b)" "arena x y ys (upd_board i j (set_ship_shoot 1) b)"
  using arena_upd[OF assms(1)] cell_ok_set(5,6)[OF arenaD[OF assms(1)] assms(2)] by blast+

lemmas arena_intros = arena_clear arena_shoot

lemma inside_board [simp]: "inside i j \<Longrightarrow> in_board i j" "inside i j \<Longrightarrow> in_board (i + 1) j" "inside i j \<Longrightarrow> in_board (i - 1) j"
  by (simp_all add: inside_def)

text \<open>Everything but the board and the verdict.\<close>

definition rest :: "game \<Rightarrow> game" where
  "rest g = g\<lparr>board := (\<lambda>_ _. \<lparr>c_alien = 0, c_alien_shoot = 0, c_shield = 0, c_ship = 0, c_ship_shoot = 0, c_wall = 0\<rparr>), LOSE := 0\<rparr>"

lemma rest_simps [simp]: "rest (g\<lparr>board := b\<rparr>) = rest g" "rest (g\<lparr>LOSE := l\<rparr>) = rest g"
  by (simp_all add: rest_def)

lemma rest_fields:
  assumes "rest g' = rest g"
  shows "x_aliens g' = x_aliens g" "y_aliens g' = y_aliens g" "y_ship g' = y_ship g" "move_right g' = move_right g"
    "move_left g' = move_left g" "move_down g' = move_down g" "last_shoot g' = last_shoot g"
    "shoot_pointer g' = shoot_pointer g" "WIN g' = WIN g" "frames g' = frames g" "alloc_at g' = alloc_at g"
    "allocs g' = allocs g" "clk g' = clk g" "clk_reads g' = clk_reads g" "pages g' = pages g" "t0 g' = t0 g"
  using arg_cong[OF assms, of x_aliens] arg_cong[OF assms, of y_aliens] arg_cong[OF assms, of y_ship]
    arg_cong[OF assms, of move_right] arg_cong[OF assms, of move_left] arg_cong[OF assms, of move_down]
    arg_cong[OF assms, of last_shoot] arg_cong[OF assms, of shoot_pointer] arg_cong[OF assms, of WIN]
    arg_cong[OF assms, of frames] arg_cong[OF assms, of alloc_at] arg_cong[OF assms, of allocs] arg_cong[OF assms, of clk]
    arg_cong[OF assms, of clk_reads] arg_cong[OF assms, of pages] arg_cong[OF assms, of t0]
  by (simp_all add: rest_def)

section \<open>Shots\<close>

text \<open>What the loops over the shots keep: the arena, and the verdict once it is lost.\<close>

definition shots_kept :: "int \<Rightarrow> int \<Rightarrow> int \<Rightarrow> game \<Rightarrow> game \<Rightarrow> bool" where
  "shots_kept x y ys g0 g \<longleftrightarrow> arena x y ys (board g) \<and> rest g = rest g0 \<and> LOSE g \<in> {LOSE g0, 1}"

lemma shots_kept_upd:
  "shots_kept x y ys g0 g \<Longrightarrow> arena x y ys b \<Longrightarrow> shots_kept x y ys g0 (g\<lparr>board := b\<rparr>)"
  "shots_kept x y ys g0 g \<Longrightarrow> shots_kept x y ys g0 (g\<lparr>LOSE := 1\<rparr>)"
  "shots_kept x y ys g0 g \<Longrightarrow> arena x y ys (board g)"
  by (simp_all add: shots_kept_def)

lemma upd_cell_kept:
  assumes "shots_kept x y ys g0 g" "in_board i j" "arena x y ys (upd_board i j f (board g))"
  shows "\<exists>g'. upd_cell i j f g = Some g' \<and> shots_kept x y ys g0 g'"
  using shots_kept_upd(1)[OF assms(1,3)] assms(2) by (simp add: upd_cell_def)

lemma move_shoot_alien_kept:
  assumes "shots_kept x y ys g0 g" "inside i j"
  shows "\<exists>g'. move_shoot_alien i j g = Some g' \<and> shots_kept x y ys g0 g'"
proof -
  note a = shots_kept_upd(3)[OF assms(1)]
  let ?c = "board g i j"
  have down: "inside (i + 1) j" if "i < 23" using assms(2) that by (simp add: inside_def)
  have "\<exists>g1. (if c_shield ?c \<noteq> 0 then upd_cell i j (set_shield 0) g
            else if i < NUM_ROWS_user - 2 then do {
              d \<leftarrow> cell_of (i + 1) j g;
              if c_ship_shoot ?c \<noteq> 1 \<or> c_ship_shoot d \<noteq> 1 then upd_cell (i + 1) j (set_alien_shoot 1) g else Some g }
            else Some g) = Some g1 \<and> shots_kept x y ys g0 g1"
    using assms arena_intros[OF a] down upd_cell_kept[OF assms(1), of i j "set_shield 0"]
      upd_cell_kept[OF assms(1), of "i + 1" j "set_alien_shoot 1"]
    by (simp add: cell_of_def NUM_ROWS_user_def)
  then obtain g1 where g1: "(if c_shield ?c \<noteq> 0 then upd_cell i j (set_shield 0) g
            else if i < NUM_ROWS_user - 2 then do {
              d \<leftarrow> cell_of (i + 1) j g;
              if c_ship_shoot ?c \<noteq> 1 \<or> c_ship_shoot d \<noteq> 1 then upd_cell (i + 1) j (set_alien_shoot 1) g else Some g }
            else Some g) = Some g1" "shots_kept x y ys g0 g1" by blast
  let ?g2 = "if c_ship (board g1 i j) \<noteq> 0 then g1\<lparr>LOSE := 1\<rparr> else g1"
  have "shots_kept x y ys g0 ?g2" using g1(2) shots_kept_upd(2) by simp
  then obtain g3 where "upd_cell i j (set_alien_shoot 0) ?g2 = Some g3" "shots_kept x y ys g0 g3"
    using upd_cell_kept[of x y ys g0 ?g2 i j "set_alien_shoot 0"] arena_clear(3)[OF shots_kept_upd(3)] inside_board(1)[OF assms(2)]
    by blast
  then show ?thesis using g1(1) assms
    by (cases "c_alien_shoot ?c = 0") (simp_all add: move_shoot_alien_def cell_of_def[of i j] Let_def)
qed

lemma move_shoot_ship_kept:
  assumes "shots_kept x y ys g0 g" "inside i j"
  shows "\<exists>g'. move_shoot_ship i j g = Some g' \<and> shots_kept x y ys g0 g'"
proof -
  note a = shots_kept_upd(3)[OF assms(1)]
  let ?c = "board g i j"
  let ?hit = "if c_alien ?c \<noteq> 0 then upd_cell i j (set_alien 0) g
            else do {
              d \<leftarrow> cell_of (i - 1) j g;
              if c_shield d = 0 \<and> 3 \<le> i \<and> (c_alien_shoot ?c \<noteq> 1 \<or> c_alien_shoot d \<noteq> 1)
              then upd_cell (i - 1) j (set_ship_shoot 1) g else Some g }"
  have up: "inside (i - 1) j" if "3 \<le> i" using assms(2) that by (simp add: inside_def)
  have "\<exists>g1. ?hit = Some g1 \<and> shots_kept x y ys g0 g1"
    using assms arena_intros[OF a] up upd_cell_kept[OF assms(1), of i j "set_alien 0"]
      upd_cell_kept[OF assms(1), of "i - 1" j "set_ship_shoot 1"]
    by (simp add: cell_of_def)
  then obtain g1 where g1: "?hit = Some g1" "shots_kept x y ys g0 g1" by blast
  then obtain g2 where "upd_cell i j (set_ship_shoot 0) g1 = Some g2" "shots_kept x y ys g0 g2"
    using upd_cell_kept[of x y ys g0 g1 i j "set_ship_shoot 0"] arena_clear(4)[OF shots_kept_upd(3)] inside_board(1)[OF assms(2)]
    by blast
  then show ?thesis using g1(1) assms
    by (cases "c_ship_shoot ?c = 0") (simp_all add: move_shoot_ship_def cell_of_def[of i j])
qed

lemma cancel_shoot_kept:
  assumes "shots_kept x y ys g0 g" "inside i j"
  shows "\<exists>g'. cancel_shoot i j g = Some g' \<and> shots_kept x y ys g0 g'"
proof -
  note a = shots_kept_upd(3)[OF assms(1)]
  obtain g1 where g1: "upd_cell i j (set_alien_shoot 0) g = Some g1" "shots_kept x y ys g0 g1"
    using upd_cell_kept[OF assms(1) inside_board(1)[OF assms(2)] arena_clear(3)[OF a]] by blast
  then obtain g2 where "upd_cell (i + 1) j (set_ship_shoot 0) g1 = Some g2" "shots_kept x y ys g0 g2"
    using upd_cell_kept[OF g1(2) inside_board(2)[OF assms(2)] arena_clear(4)[OF shots_kept_upd(3)[OF g1(2)]]] by blast
  then show ?thesis using g1(1) assms by (simp add: cancel_shoot_def cell_of_def)
qed

text \<open>The loops over the whole arena.\<close>

lemma arena_loop:
  assumes "shots_kept x y ys g0 g" "\<And>i j g. shots_kept x y ys g0 g \<Longrightarrow> inside i j \<Longrightarrow> \<exists>g'. f i j g = Some g' \<and> shots_kept x y ys g0 g'"
    and "set is \<subseteq> {2..23}" "set js \<subseteq> {2..77}"
  shows "\<exists>g'. mfold (\<lambda>i. mfold (f i) js) is g = Some g' \<and> shots_kept x y ys g0 g'"
proof (rule grid_preserves[where I = "shots_kept x y ys g0", OF assms(1)])
  fix i j s assume "i \<in> set is" "j \<in> set js" "shots_kept x y ys g0 s"
  moreover from this have "inside i j" using assms(3,4) by (auto simp: inside_def)
  ultimately show "\<exists>s'. f i j s = Some s' \<and> shots_kept x y ys g0 s'" using assms(2) by blast
qed

lemma move_shoots_kept:
  assumes "arena x y ys (board g)"
  shows "\<exists>g'. move_shoots g = Some g' \<and> shots_kept x y ys g g'"
proof -
  have s: "set [2..23] \<subseteq> {2..23::int}" "set (rev [2..23]) \<subseteq> {2..23::int}" "set [2..NUM_COLUMNS_user - 3] \<subseteq> {2..77::int}"
    by (simp_all add: NUM_COLUMNS_user_def)
  have g: "shots_kept x y ys g g" using assms by (simp add: shots_kept_def)
  obtain g1 where g1: "cancel_shoots g = Some g1" "shots_kept x y ys g g1"
    using arena_loop[where f = cancel_shoot, OF g cancel_shoot_kept s(1,3)] unfolding cancel_shoots_def by blast
  obtain g2 where g2: "move_shoots_aliens g1 = Some g2" "shots_kept x y ys g g2"
    using arena_loop[where f = move_shoot_alien, OF g1(2) move_shoot_alien_kept s(2,3)] unfolding move_shoots_aliens_def by blast
  obtain g3 where g3: "move_shoots_ship g2 = Some g3" "shots_kept x y ys g g3"
    using arena_loop[where f = move_shoot_ship, OF g2(2) move_shoot_ship_kept s(1,3)] unfolding move_shoots_ship_def by blast
  show ?thesis using g1(1) g2(1) g3 by (simp add: move_shoots_def)
qed

lemma make_ship_shoot_kept:
  assumes "arena x y (y_ship g) (board g)" "4 \<le> y_ship g" "y_ship g \<le> 75"
  shows "\<exists>g'. make_ship_shoot g = Some g' \<and> shots_kept x y (y_ship g) g g'"
proof -
  have g: "shots_kept x y (y_ship g) g g" using assms by (simp add: shots_kept_def)
  have i: "inside 21 (y_ship g)" using assms by (simp add: inside_def)
  have b: "in_board 21 (y_ship g)" "in_board 20 (y_ship g)" "in_board 21 (y_ship g + 1)" "in_board 21 (y_ship g - 1)"
    using assms by simp_all
  have x: "x_ship - 2 = 21" "x_ship - 3 = 20" by (simp_all add: x_ship_def NUM_ROWS_user_def)
  obtain g' where "upd_cell 21 (y_ship g) (set_ship_shoot 1) g = Some g'" "shots_kept x y (y_ship g) g g'"
    using upd_cell_kept[OF g b(1) arena_shoot(2)[OF assms(1) i]] by blast
  then show ?thesis using g b by (simp add: make_ship_shoot_def cell_of_def x)
qed

section \<open>The ship\<close>

lemma arena_move_ship:
  assumes "arena x y ys b" "\<And>i j. b' i j = (b i j)\<lparr>c_ship := if ship_shape ys' i j then 1 else 0\<rparr>"
  shows "arena x y ys' b'"
  using assms(1) unfolding arena_def assms(2) by (simp add: cell_ok_def)

lemma shoot_colision_total:
  assumes "4 \<le> y_ship g" "y_ship g \<le> 75"
  shows "\<exists>h. shoot_colision g = Some h"
proof -
  have "in_board x_ship (y_ship g)" "in_board (x_ship - 1) (y_ship g)" "in_board x_ship (y_ship g - 1)"
    "in_board x_ship (y_ship g - 2)" "in_board x_ship (y_ship g + 1)" "in_board x_ship (y_ship g + 2)"
    using assms by (simp_all add: x_ship_def NUM_ROWS_user_def)
  then show ?thesis by (auto simp: shoot_colision_def cell_of_def)
qed

lemma ship_right_kept:
  assumes "arena x y (y_ship g) (board g)" "4 \<le> y_ship g" "y_ship g < 75"
  shows "\<exists>b l. ship_right g = Some (g\<lparr>board := b, y_ship := y_ship g + 1, LOSE := l\<rparr>) \<and> arena x y (y_ship g + 1) b \<and> l \<in> {LOSE g, 1}"
proof -
  let ?y = "y_ship g"
  let ?b = "upd_board 22 ?y (set_ship 0) (upd_board 23 (?y - 2) (set_ship 0)
      (upd_board 22 (?y + 1) (set_ship 1) (upd_board 23 (?y + 3) (set_ship 1) (board g))))"
  let ?g = "g\<lparr>board := ?b, y_ship := ?y + 1\<rparr>"
  have in_b: "in_board 23 (?y + 3)" "in_board 22 (?y + 1)" "in_board 23 (?y - 2)" "in_board 22 ?y" using assms by simp_all
  have x: "x_ship = 23" "x_ship - 1 = 22" by (simp_all add: x_ship_def NUM_ROWS_user_def)
  obtain h where h: "shoot_colision ?g = Some h" using shoot_colision_total[of ?g] assms by auto
  have "c_ship (board g i j) = (if ship_shape ?y i j then 1 else 0)" for i j
    using arenaD[OF assms(1), of i j] by (simp add: cell_ok_def)
  then have "?b i j = (board g i j)\<lparr>c_ship := if ship_shape (?y + 1) i j then 1 else 0\<rparr>" for i j
    by (auto simp: set_ship_def ship_shape_def intro!: cell.equality)
  then have a: "arena x y (?y + 1) ?b" by (rule arena_move_ship[OF assms(1)])
  have r: "ship_right g = Some (if h then ?g\<lparr>LOSE := 1\<rparr> else ?g)"
    using assms(3) in_b h by (simp add: ship_right_def upd_cell_def x NUM_COLUMNS_user_def Let_def)
  show ?thesis using a r by (intro exI[of _ ?b] exI[of _ "if h then 1 else LOSE g"]) simp
qed

lemma ship_left_kept:
  assumes "arena x y (y_ship g) (board g)" "4 < y_ship g" "y_ship g \<le> 75"
  shows "\<exists>b l. ship_left g = Some (g\<lparr>board := b, y_ship := y_ship g - 1, LOSE := l\<rparr>) \<and> arena x y (y_ship g - 1) b \<and> l \<in> {LOSE g, 1}"
proof -
  let ?y = "y_ship g"
  let ?b = "upd_board 22 ?y (set_ship 0) (upd_board 23 (?y + 2) (set_ship 0)
      (upd_board 22 (?y - 1) (set_ship 1) (upd_board 23 (?y - 3) (set_ship 1) (board g))))"
  let ?g = "g\<lparr>board := ?b, y_ship := ?y - 1\<rparr>"
  have in_b: "in_board 23 (?y - 3)" "in_board 22 (?y - 1)" "in_board 23 (?y + 2)" "in_board 22 ?y" using assms by simp_all
  have x: "x_ship = 23" "x_ship - 1 = 22" by (simp_all add: x_ship_def NUM_ROWS_user_def)
  obtain h where h: "shoot_colision ?g = Some h" using shoot_colision_total[of ?g] assms by auto
  have "c_ship (board g i j) = (if ship_shape ?y i j then 1 else 0)" for i j
    using arenaD[OF assms(1), of i j] by (simp add: cell_ok_def)
  then have "?b i j = (board g i j)\<lparr>c_ship := if ship_shape (?y - 1) i j then 1 else 0\<rparr>" for i j
    by (auto simp: set_ship_def ship_shape_def intro!: cell.equality)
  then have a: "arena x y (?y - 1) ?b" by (rule arena_move_ship[OF assms(1)])
  have r: "ship_left g = Some (if h then ?g\<lparr>LOSE := 1\<rparr> else ?g)"
    using assms(2) in_b h by (simp add: ship_left_def upd_cell_def x Let_def)
  show ?thesis using a r by (intro exI[of _ ?b] exI[of _ "if h then 1 else LOSE g"]) simp
qed

section \<open>The whole state\<close>

definition dir_ok :: "game \<Rightarrow> bool" where
  "dir_ok g \<longleftrightarrow>
     move_down g = 1 \<and> move_right g = 0 \<and> move_left g = 0 \<and> (y_aliens g = 2 \<or> y_aliens g = 29)
   \<or> move_down g = 0 \<and> move_right g = 1 \<and> move_left g = 0 \<and> 2 \<le> y_aliens g \<and> y_aliens g \<le> 28
   \<or> move_down g = 0 \<and> move_right g = 0 \<and> move_left g = 1 \<and> 3 \<le> y_aliens g \<and> y_aliens g \<le> 29"

definition field_ok :: "game \<Rightarrow> bool" where
  "field_ok g \<longleftrightarrow> arena (x_aliens g) (y_aliens g) (y_ship g) (board g) \<and> dir_ok g
     \<and> 3 \<le> x_aliens g \<and> x_aliens g \<le> 18 \<and> 4 \<le> y_ship g \<and> y_ship g \<le> 75
     \<and> 0 \<le> last_shoot g \<and> 0 \<le> shoot_pointer g \<and> shoot_pointer g \<le> 4 \<and> LOSE g \<in> {0, 1} \<and> WIN g \<in> {0, 1}"

definition game_ok :: "game \<Rightarrow> bool" where
  "game_ok g \<longleftrightarrow> field_ok g \<and> (LOSE g = 0 \<longrightarrow> x_aliens g \<le> 17)"

text \<open>How many moves the formation is from the end: 27 steps aside and one down in each of 15 rows.\<close>

definition moves_left :: "game \<Rightarrow> int" where
  "moves_left g = (18 - x_aliens g) * 28
     - (if move_down g = 1 then 27 else if move_right g = 1 then y_aliens g - 2 else 29 - y_aliens g)"

lemma cell_ok_march:
  assumes "cell_ok x y ys i j c" "a \<in> {0, 1}" "a = 1 \<Longrightarrow> x' \<le> i \<and> i \<le> x' + 4 \<and> y' \<le> j \<and> j \<le> y' + 48" "s = c_shield c \<or> s = 0"
  shows "cell_ok x' y' ys i j (c\<lparr>c_alien := a, c_shield := s\<rparr>)"
proof -
  have "s \<in> {0, 1} \<and> (s = 1 \<longrightarrow> (i = 18 \<or> i = 19) \<and> 10 \<le> j \<and> j \<le> 71)"
    using assms(1,4) unfolding cell_ok_def by (elim disjE) simp_all
  moreover have "a = 1 \<longrightarrow> x' \<le> i \<and> i \<le> x' + 4 \<and> y' \<le> j \<and> j \<le> y' + 48" using assms(3) by blast
  ultimately show ?thesis using assms(1,2) unfolding cell_ok_def by simp
qed

lemma arena_march:
  assumes "arena x y ys b"
  shows "arena (x + dx) (y + dy) ys (marched hit dx dy (\<lambda>_ _. True) b)"
  unfolding arena_def
proof (intro allI)
  fix i j
  note c = arenaD[OF assms, of i j] and d = arenaD[OF assms, of "i - dx" "j - dy"]
  let ?a = "if alien_at b (i - dx) (j - dy) \<and> \<not> hit (b (i - dx) (j - dy)) then 1 else if alien_at b i j then 0 else c_alien (b i j)"
  let ?s = "if alien_at b i j \<and> \<not> hit (b i j) \<and> c_shield (b i j) = 1 then 0 else c_shield (b i j)"
  have "c_alien (b i j) \<in> {0, 1}" using c unfolding cell_ok_def by blast
  then have "?a \<in> {0, 1}" by auto
  moreover have "x + dx \<le> i \<and> i \<le> x + dx + 4 \<and> y + dy \<le> j \<and> j \<le> y + dy + 48" if "?a = 1"
  proof -
    have "alien_at b (i - dx) (j - dy)" using that by (simp split: if_splits)
    then have "x \<le> i - dx \<and> i - dx \<le> x + 4 \<and> y \<le> j - dy \<and> j - dy \<le> y + 48" using d by (simp add: cell_ok_def)
    then show ?thesis by linarith
  qed
  ultimately have "cell_ok (x + dx) (y + dy) ys i j ((b i j)\<lparr>c_alien := ?a, c_shield := ?s\<rparr>)"
    by (intro cell_ok_march[OF c]) simp_all
  then show "cell_ok (x + dx) (y + dy) ys i j (marched hit dx dy (\<lambda>_ _. True) b i j)"
    by (simp only: marched_def simp_thms)
qed

lemma win_if_simps [simp]:
  "board (win_if w g) = board g" "x_aliens (win_if w g) = x_aliens g" "y_aliens (win_if w g) = y_aliens g"
  "y_ship (win_if w g) = y_ship g" "move_right (win_if w g) = move_right g" "move_left (win_if w g) = move_left g"
  "move_down (win_if w g) = move_down g" "LOSE (win_if w g) = LOSE g" "last_shoot (win_if w g) = last_shoot g"
  "shoot_pointer (win_if w g) = shoot_pointer g" "WIN (win_if w g) = (if w then 1 else WIN g)"
  "alloc_at (win_if w g) = alloc_at g" "frames (win_if w g) = frames g" "pages (win_if w g) = pages g"
  by (simp_all add: win_if_def)

lemma move_aliens_kept:
  assumes "field_ok g" "x_aliens g \<le> 17"
  shows "\<exists>g'. move_aliens g = Some g' \<and> field_ok g' \<and> moves_left g' = moves_left g - 1
     \<and> (x_aliens g' = 18 \<longrightarrow> LOSE g' = 1) \<and> (LOSE g = 1 \<longrightarrow> LOSE g' = 1) \<and> alloc_at g' = alloc_at g \<and> frames g' = frames g
     \<and> pages g' = pages g"
proof -
  let ?x = "x_aliens g" and ?y = "y_aliens g"
  have f: "arena ?x ?y (y_ship g) (board g)" "3 \<le> ?x" "dir_ok g" using assms(1) by (simp_all add: field_ok_def)
  note a = arena_march[OF f(1)] and fm = arena_formation[OF f(1)]
  consider (down) "move_down g = 1" "move_right g = 0" "move_left g = 0" "?y = 2 \<or> ?y = 29"
    | (right) "move_down g = 0" "move_right g = 1" "move_left g = 0" "2 \<le> ?y" "?y \<le> 28"
    | (left) "move_down g = 0" "move_right g = 0" "move_left g = 1" "3 \<le> ?y" "?y \<le> 29"
    using f(3) unfolding dir_ok_def by blast
  then show ?thesis
  proof cases
    case down
    have y: "2 \<le> ?y" "?y \<le> 29" using down(4) by auto
    note r = aliens_down_run[OF fm f(2) assms(2) y] and ar = a[of 1 0 "\<lambda>c. c_ship_shoot c = 1"]
    show ?thesis using down assms f(2) ar
      by (auto simp: move_aliens_def r field_ok_def dir_ok_def moves_left_def Let_def)
  next
    case right
    note r = aliens_right_run[OF fm f(2) assms(2) right(4,5)] and ar = a[of 0 1 "\<lambda>_. False"]
    show ?thesis using right assms f(2) ar
      by (auto simp: move_aliens_def r field_ok_def dir_ok_def moves_left_def Let_def)
  next
    case left
    note r = aliens_left_run[OF fm f(2) assms(2) left(4,5)] and ar = a[of 0 "-1" "\<lambda>_. False"]
    show ?thesis using left assms f(2) ar
      by (auto simp: move_aliens_def r field_ok_def dir_ok_def moves_left_def Let_def)
  qed
qed

section \<open>The aliens shoot\<close>

lemma scan_alien_kept:
  assumes "\<And>k. ia k \<noteq> 0 \<Longrightarrow> inside (ia k) k" "inside i j"
  shows "\<exists>ia'. scan_alien i j g ia = Some ia' \<and> (\<forall>k. ia' k \<noteq> 0 \<longrightarrow> inside (ia' k) k)"
  using assms by (auto simp: scan_alien_def cell_of_def inside_def)

definition course :: "game \<Rightarrow> game" where
  "course g = g\<lparr>board := (\<lambda>_ _. \<lparr>c_alien = 0, c_alien_shoot = 0, c_shield = 0, c_ship = 0, c_ship_shoot = 0, c_wall = 0\<rparr>),
     last_shoot := 0, shoot_pointer := 0, clk_reads := 0\<rparr>"

definition same_course :: "game \<Rightarrow> game \<Rightarrow> bool" where
  "same_course g0 g \<longleftrightarrow> course g = course g0"

lemma same_course_refl [simp]: "same_course g g"
  by (simp add: same_course_def)

lemma same_course_simps:
  assumes "same_course g0 g"
  shows "x_aliens g = x_aliens g0" "y_aliens g = y_aliens g0" "y_ship g = y_ship g0" "LOSE g = LOSE g0" "WIN g = WIN g0"
    "dir_ok g = dir_ok g0" "moves_left g = moves_left g0" "alloc_at g = alloc_at g0" "frames g = frames g0"
    "pages g = pages g0"
proof -
  note c = arg_cong[OF assms[unfolded same_course_def]]
  show "x_aliens g = x_aliens g0" "y_aliens g = y_aliens g0" "y_ship g = y_ship g0" "LOSE g = LOSE g0" "WIN g = WIN g0"
    "alloc_at g = alloc_at g0" "frames g = frames g0" "pages g = pages g0"
    using c[of x_aliens] c[of y_aliens] c[of y_ship] c[of LOSE] c[of WIN] c[of alloc_at] c[of frames] c[of pages]
    by (simp_all add: course_def)
  show "dir_ok g = dir_ok g0" "moves_left g = moves_left g0"
    using c[of x_aliens] c[of y_aliens] c[of move_down] c[of move_right] c[of move_left]
    by (simp_all add: dir_ok_def moves_left_def course_def)
qed

lemma same_course_upd [simp]:
  "same_course g0 (g\<lparr>board := b\<rparr>) = same_course g0 g" "same_course g0 (g\<lparr>last_shoot := l\<rparr>) = same_course g0 g"
  "same_course g0 (g\<lparr>shoot_pointer := p\<rparr>) = same_course g0 g" "same_course g0 (g\<lparr>clk_reads := n\<rparr>) = same_course g0 g"
  by (simp_all add: same_course_def course_def)

lemma shoot_from_kept:
  assumes "field_ok g" "same_course g0 g" "\<And>k. ia k \<noteq> 0 \<Longrightarrow> inside (ia k) k" "0 \<le> k" "k \<le> 79"
  shows "\<exists>n' g'. shoot_from ia m k (n, g) = Some (n', g') \<and> field_ok g' \<and> same_course g0 g'"
proof (cases "n < m \<and> 0 < ia k")
  case True
  then have i: "inside (ia k) k" using assms(3) by auto
  let ?b = "upd_board (ia k) k (set_alien_shoot 1) (board g)" and ?p = "shoot_pointer g + 1"
  let ?g = "g\<lparr>board := ?b, last_shoot := y_aliens g + (49 - 50 div ?p), shoot_pointer := ?p mod 5\<rparr>"
  have f: "arena (x_aliens g) (y_aliens g) (y_ship g) (board g)" "0 \<le> shoot_pointer g" "shoot_pointer g \<le> 4" "2 \<le> y_aliens g"
    using assms(1) by (auto simp: field_ok_def dir_ok_def)
  have "50 div ?p \<le> 50" using f(2) zdiv_mono2[of 50 1 ?p] by simp
  then have "0 \<le> last_shoot ?g" using f(4) by simp
  moreover have "0 \<le> ?p mod 5" "?p mod 5 < 5" by simp_all
  then have "0 \<le> shoot_pointer ?g" "shoot_pointer ?g \<le> 4" by simp_all
  ultimately have "field_ok ?g" using assms(1) arena_shoot(1)[OF f(1) i] by (simp add: field_ok_def dir_ok_def)
  moreover have "shoot_from ia m k (n, g) = Some (n + 1, ?g)"
    using True i assms(4,5) f(2) by (simp add: shoot_from_def upd_cell_def Let_def)
  ultimately show ?thesis using assms(2) by (intro exI[of _ "n + 1"] exI[of _ ?g]) simp
next
  case False
  then show ?thesis using assms by (auto simp: shoot_from_def)
qed

lemma ia_shoot_alien_kept:
  assumes "field_ok g"
  shows "\<exists>g'. ia_shoot_alien g = Some g' \<and> field_ok g' \<and> same_course g g'"
proof -
  let ?g = "g\<lparr>clk_reads := clk_reads g + 1\<rparr>"
  have g: "field_ok ?g" "same_course g ?g"
    using assms by (simp_all add: field_ok_def dir_ok_def)
  have "\<exists>ia. mfold (\<lambda>i. mfold (\<lambda>j. scan_alien i j ?g) [2..NUM_COLUMNS_user - 3]) (rev [2..23]) (\<lambda>_. 0) = Some ia
     \<and> (\<forall>k. ia k \<noteq> 0 \<longrightarrow> inside (ia k) k)"
  proof (rule grid_preserves[where I = "\<lambda>ia. \<forall>k. ia k \<noteq> 0 \<longrightarrow> inside (ia k) k"])
    fix i j and ia :: "int \<Rightarrow> int"
    assume "i \<in> set (rev [2..23])" "j \<in> set [2..NUM_COLUMNS_user - 3]" and ia: "\<forall>k. ia k \<noteq> 0 \<longrightarrow> inside (ia k) k"
    then have ij: "inside i j" by (simp add: inside_def NUM_COLUMNS_user_def)
    show "\<exists>ia'. scan_alien i j ?g ia = Some ia' \<and> (\<forall>k. ia' k \<noteq> 0 \<longrightarrow> inside (ia' k) k)"
      by (rule scan_alien_kept[OF _ ij]) (use ia in blast)
  qed simp
  then obtain ia where ia: "mfold (\<lambda>i. mfold (\<lambda>j. scan_alien i j ?g) [2..NUM_COLUMNS_user - 3]) (rev [2..23]) (\<lambda>_. 0) = Some ia"
     "\<And>k. ia k \<noteq> 0 \<Longrightarrow> inside (ia k) k" by blast
  have "\<exists>s'. mfold (shoot_from ia 1) [last_shoot ?g..79] (0, ?g) = Some s' \<and> (field_ok (snd s') \<and> same_course g (snd s'))"
  proof (rule mfold_preserves[where I = "\<lambda>s. field_ok (snd s) \<and> same_course g (snd s)"])
    fix k and s :: "int \<times> game" assume k: "k \<in> set [last_shoot ?g..79]" and s: "field_ok (snd s) \<and> same_course g (snd s)"
    obtain n h where h: "s = (n, h)" by (cases s)
    have "0 \<le> k" "k \<le> 79" using k g(1) by (auto simp: field_ok_def)
    from shoot_from_kept[OF _ _ ia(2) this, of h g 1 n] s
    show "\<exists>s'. shoot_from ia 1 k s = Some s' \<and> field_ok (snd s') \<and> same_course g (snd s')" unfolding h by fastforce
  qed (use g in simp)
  then obtain n g' where "mfold (shoot_from ia 1) [last_shoot ?g..79] (0, ?g) = Some (n, g')" "field_ok g'" "same_course g g'"
    by auto
  then show ?thesis using ia(1) g by (auto simp: ia_shoot_alien_def gettime_def EASY_def Let_def)
qed

section \<open>A turn of the aliens\<close>

lemma ia_move_kept:
  assumes "game_ok g" "x_aliens g \<le> 17"
  shows "\<exists>g'. ia_move g = Some g' \<and> game_ok g' \<and> moves_left g' = moves_left g - 1
     \<and> alloc_at g' = alloc_at g \<and> frames g' = frames g \<and> pages g' = pages g"
proof -
  have f: "field_ok g" "x_aliens g \<le> 17" "LOSE g \<in> {0, 1}" using assms by (simp_all add: game_ok_def field_ok_def)
  then obtain g1 where g1: "move_shoots g = Some g1" "shots_kept (x_aliens g) (y_aliens g) (y_ship g) g g1"
    using move_shoots_kept[of "x_aliens g" "y_aliens g" "y_ship g" g] by (auto simp: field_ok_def)
  have r: "rest g1 = rest g" "arena (x_aliens g) (y_aliens g) (y_ship g) (board g1)" "LOSE g1 \<in> {0, 1}"
    using g1(2) f(3) by (auto simp: shots_kept_def)
  note rf = rest_fields[OF r(1)]
  have "field_ok g1" using f(1) r(2,3) by (simp add: field_ok_def dir_ok_def rf)
  then obtain g2 where g2: "move_aliens g1 = Some g2" "field_ok g2" "moves_left g2 = moves_left g1 - 1"
    "x_aliens g2 = 18 \<longrightarrow> LOSE g2 = 1" "alloc_at g2 = alloc_at g1" "frames g2 = frames g1"
    "pages g2 = pages g1"
    using move_aliens_kept[of g1] f(2) by (auto simp: rf)
  have m: "moves_left g1 = moves_left g" by (simp add: moves_left_def rf)
  obtain g3 where g3: "ia_shoot_alien g2 = Some g3" "field_ok g3" "same_course g2 g3"
    using ia_shoot_alien_kept[OF g2(2)] by blast
  note sc = same_course_simps[OF g3(3)]
  have "x_aliens g3 \<le> 18" using g3(2) by (simp add: field_ok_def)
  then have "LOSE g3 = 0 \<longrightarrow> x_aliens g3 \<le> 17" using g2(4) sc(1,4) by auto
  then have "game_ok g3" using g3(2) by (simp add: game_ok_def)
  then show ?thesis using g1(1) g2 g3(1) m sc by (simp add: ia_move_def rf)
qed

lemma moves_left_pos: "game_ok g \<Longrightarrow> x_aliens g \<le> 17 \<Longrightarrow> 1 \<le> moves_left g"
  by (auto simp: game_ok_def field_ok_def dir_ok_def moves_left_def)

section \<open>The board at the start\<close>

definition alien_start :: "int \<Rightarrow> int \<Rightarrow> bool" where
  "alien_start i j \<longleftrightarrow> (i = 3 \<or> i = 7) \<and> 2 \<le> j \<and> j mod 2 = 0 \<and> j < 52 \<or> i = 5 \<and> 2 \<le> j \<and> j mod 2 = 1 \<and> j < 51"

definition shield_start :: "int \<Rightarrow> int \<Rightarrow> bool" where
  "shield_start i j \<longleftrightarrow> (9 < j \<and> j < 18 \<or> 27 < j \<and> j < 36 \<or> 45 < j \<and> j < 54 \<or> 63 < j \<and> j < 72) \<and> (i = 19 \<or> i = 18)"

definition start_cells :: "(int \<Rightarrow> int \<Rightarrow> bool) \<Rightarrow> board" where
  "start_cells P = (\<lambda>i j. \<lparr>c_alien = of_bool (P i j \<and> alien_start i j), c_alien_shoot = 0,
     c_shield = of_bool (P i j \<and> shield_start i j), c_ship = of_bool (P 23 40 \<and> ship_shape 40 i j), c_ship_shoot = 0,
     c_wall = of_bool (P i j \<and> is_wall i j)\<rparr>)"

lemma upd_cell_if: "in_board i j \<Longrightarrow> (if p then upd_cell i j f g else Some g) = Some (g\<lparr>board := upd_board i j (\<lambda>c. if p then f c else c) (board g)\<rparr>)"
  by (auto simp: upd_cell_def upd_board_def)

text \<open>What a step of \<open>init_board\<close> makes of its own cell, and what the cell of the ship adds.\<close>

definition own_cell :: "int \<Rightarrow> int \<Rightarrow> cell \<Rightarrow> cell" where
  "own_cell i j c = c\<lparr>c_alien := of_bool (alien_start i j), c_shield := of_bool (shield_start i j), c_wall := of_bool (is_wall i j)\<rparr>"

definition with_ship :: "int \<Rightarrow> int \<Rightarrow> board \<Rightarrow> board" where
  "with_ship i j b = (\<lambda>r c. if i = 23 \<and> j = 40 \<and> ship_shape 40 r c then set_ship 1 (b r c) else b r c)"

lemma init_cell_ship:
  assumes "x_aliens g = 3" "y_aliens g = 2" "y_ship g = 40" "\<not> P 23 40"
  shows "init_cell 23 40 (g\<lparr>board := start_cells P\<rparr>) = Some (g\<lparr>board := upd_board 23 40 (own_cell 23 40) (with_ship 23 40 (start_cells P))\<rparr>)"
proof -
  have x: "x_ship = 23" "dead_zone = 19" by (simp_all add: x_ship_def NUM_ROWS_user_def dead_zone_def)
  have nw: "\<not> is_wall 23 40" "\<not> alien_start 23 40" "\<not> shield_start 23 40"
    by (simp_all add: is_wall_def NUM_ROWS_user_def NUM_COLUMNS_user_def alien_start_def shield_start_def)
  let ?b = "upd_board 23 42 (set_ship 1) (upd_board 23 38 (set_ship 1) (upd_board 23 41 (set_ship 1)
      (upd_board 23 39 (set_ship 1) (upd_board 22 40 (set_ship 1) (upd_board 23 40 (set_ship 1) (start_cells P))))))"
  have "init_cell 23 40 (g\<lparr>board := start_cells P\<rparr>) = Some (g\<lparr>board := ?b\<rparr>)"
    using nw(1) assms(1-3) by (simp add: init_cell_def x upd_cell_def)
  moreover have "?b = upd_board 23 40 (own_cell 23 40) (with_ship 23 40 (start_cells P))"
    using nw assms(4) by (intro ext) (auto simp: own_cell_def with_ship_def ship_shape_def start_cells_def set_ship_def)
  ultimately show ?thesis by simp
qed

lemma init_cell_other:
  assumes "x_aliens g = 3" "y_aliens g = 2" "y_ship g = 40" "in_board i j" "\<not> P i j" "\<not> (i = 23 \<and> j = 40)"
  shows "init_cell i j (g\<lparr>board := start_cells P\<rparr>) = Some (g\<lparr>board := upd_board i j (own_cell i j) (with_ship i j (start_cells P))\<rparr>)"
proof -
  have x: "x_ship = 23" "dead_zone = 19" by (simp_all add: x_ship_def NUM_ROWS_user_def dead_zone_def)
  have fld: "x_aliens (g\<lparr>board := b\<rparr>) = 3" "y_aliens (g\<lparr>board := b\<rparr>) = 2" "y_ship (g\<lparr>board := b\<rparr>) = 40"
    "board (g\<lparr>board := b\<rparr>) = b" "(g\<lparr>board := b\<rparr>)\<lparr>board := b'\<rparr> = g\<lparr>board := b'\<rparr>" for b b'
    using assms(1-3) by simp_all
  have sh: "(9 < j \<and> j < 9 * 2 \<or> 9 * 3 < j \<and> j < 9 * 4 \<or> 9 * 5 < j \<and> j < 9 * 6 \<or> 9 * 7 < j \<and> j < 9 * 8)
    \<and> (i = 19 \<or> i = 19 - 1) \<longleftrightarrow> shield_start i j" by (simp add: shield_start_def)
  let ?steps = "\<lambda>c. let c = (if is_wall i j then set_wall 1 c else c);
        c = (if (i = 3 \<or> i = 3 + 4) \<and> 2 \<le> j \<and> j mod 2 = 0 \<and> j < 52 then set_alien 1 c else c);
        c = (if i = 3 + 2 \<and> 2 \<le> j \<and> j mod 2 = 1 \<and> j < 51 then set_alien 1 c else c)
    in if shield_start i j then set_shield 1 c else c"
  have "init_cell i j (g\<lparr>board := start_cells P\<rparr>) = Some (g\<lparr>board := upd_board i j ?steps (start_cells P)\<rparr>)"
    unfolding init_cell_def upd_cell_if[OF assms(4)] x fld bind.bind_lunit if_not_P[OF assms(6)] sh upd_upd_board Let_def ..
  moreover have "?steps (start_cells P i j) = own_cell i j (start_cells P i j)"
    using assms(5) by (simp add: own_cell_def start_cells_def set_field_defs alien_start_def Let_def)
  then have "upd_board i j ?steps (start_cells P) = upd_board i j (own_cell i j) (start_cells P)"
    by (intro ext) (simp only: upd_board_at if_cancel)
  moreover have "with_ship i j (start_cells P) = start_cells P" using assms(6) by (intro ext) (auto simp: with_ship_def)
  ultimately show ?thesis by simp
qed

lemma init_cell_step:
  assumes "x_aliens g = 3" "y_aliens g = 2" "y_ship g = 40" "in_board i j" "\<not> P i j"
  shows "init_cell i j (g\<lparr>board := start_cells P\<rparr>) = Some (g\<lparr>board := start_cells (visit i j P)\<rparr>)"
proof -
  have "init_cell i j (g\<lparr>board := start_cells P\<rparr>) = Some (g\<lparr>board := upd_board i j (own_cell i j) (with_ship i j (start_cells P))\<rparr>)"
    using init_cell_ship[OF assms(1-3), of P] init_cell_other[OF assms(1-4), of P] assms(5) by (cases "i = 23 \<and> j = 40") auto
  moreover have "upd_board i j (own_cell i j) (with_ship i j (start_cells P)) = start_cells (visit i j P)"
    using assms(5) by (intro ext) (auto simp: own_cell_def with_ship_def start_cells_def visit_def set_ship_def)
  ultimately show ?thesis by simp
qed

lemma init_board_run:
  assumes "x_aliens g = 3" "y_aliens g = 2" "y_ship g = 40" "board g = start_cells (\<lambda>_ _. False)"
  shows "init_board g = Some (g\<lparr>board := start_cells (\<lambda>i j. 0 \<le> i \<and> i \<le> 24 \<and> 0 \<le> j \<and> j \<le> 79)\<rparr>)"
proof -
  let ?at = "\<lambda>P. g\<lparr>board := start_cells P\<rparr>"
  let ?I = "\<lambda>i s. s = ?at (\<lambda>r c. 0 \<le> r \<and> r < i \<and> 0 \<le> c \<and> c \<le> 79)"
  let ?J = "\<lambda>i k s. s = ?at (\<lambda>r c. 0 \<le> r \<and> r < i \<and> 0 \<le> c \<and> c \<le> 79 \<or> r = i \<and> 0 \<le> c \<and> c < k)"
  have same: "?at P = ?at Q" if "\<And>r c. P r c \<longleftrightarrow> Q r c" for P Q
  proof -
    have "P = Q" using that by (intro ext) simp
    then show ?thesis by simp
  qed
  have row: "\<exists>s'. mfold (init_cell i) [0..79] s = Some s' \<and> ?I (i + 1) s'" if i: "0 \<le> i" "i \<le> 24" and s: "?I i s" for i s
  proof -
    have s0: "?J i 0 s" unfolding s by (rule same) auto
    have "\<exists>s'. mfold (init_cell i) [0..79] s = Some s' \<and> ?J i (79 + 1) s'"
    proof (rule upto_loop[where I = "?J i", OF _ s0])
      fix k s assume k: "0 \<le> k" "k \<le> (79::int)" "?J i k s"
      let ?P = "\<lambda>r c. 0 \<le> r \<and> r < i \<and> 0 \<le> c \<and> c \<le> 79 \<or> r = i \<and> 0 \<le> c \<and> c < k"
      have "init_cell i k (?at ?P) = Some (?at (visit i k ?P))"
        by (rule init_cell_step) (use assms k(1,2) i in simp_all)
      moreover have "?J i (k + 1) (?at (visit i k ?P))" by (rule same) (use k(1) in \<open>auto simp: visit_def\<close>)
      ultimately show "\<exists>s'. init_cell i k s = Some s' \<and> ?J i (k + 1) s'" using k(3) by blast
    qed simp
    then obtain s' where s': "mfold (init_cell i) [0..79] s = Some s'" "?J i (79 + 1) s'" by blast
    have "?I (i + 1) s'" unfolding s'(2) by (rule same) (use i in auto)
    then show ?thesis using s'(1) by blast
  qed
  have g: "g = ?at (\<lambda>_ _. False)" using assms(4) by (cases g) simp
  have start: "?I 0 g" by (subst g) (rule same, auto)
  have "\<exists>s'. mfold (\<lambda>i. mfold (init_cell i) [0..79]) [0..24] g = Some s' \<and> ?I (24 + 1) s'"
    by (rule upto_loop[where I = ?I, OF _ start row]) simp_all
  then obtain s' where s': "mfold (\<lambda>i. mfold (init_cell i) [0..79]) [0..24] g = Some s'" "?I (24 + 1) s'" by blast
  note s'(1)[unfolded s'(2)]
  also have "?at (\<lambda>r c. 0 \<le> r \<and> r < 24 + 1 \<and> 0 \<le> c \<and> c \<le> 79) = ?at (\<lambda>i j. 0 \<le> i \<and> i \<le> 24 \<and> 0 \<le> j \<and> j \<le> 79)"
    by (rule same) auto
  finally show ?thesis by (simp add: init_board_def NUM_ROWS_user_def NUM_COLUMNS_user_def)
qed

lemma start_arena: "arena 3 2 40 (start_cells (\<lambda>i j. 0 \<le> i \<and> i \<le> 24 \<and> 0 \<le> j \<and> j \<le> 79))"
proof -
  have "in_board i j \<longleftrightarrow> 0 \<le> i \<and> i \<le> 24 \<and> 0 \<le> j \<and> j \<le> 79" for i j
    by (auto simp: in_board_def NUM_ROWS_user_def NUM_COLUMNS_user_def)
  moreover have "i \<ge> 3 \<and> i \<le> 7 \<and> j \<ge> 2 \<and> j \<le> 50" if "alien_start i j" for i j
  proof -
    have "j \<noteq> 51 \<or> i = 5" using that by (auto simp: alien_start_def)
    then show ?thesis using that unfolding alien_start_def by linarith
  qed
  moreover have "(i = 18 \<or> i = 19) \<and> 10 \<le> j \<and> j \<le> 71" if "shield_start i j" for i j
    using that unfolding shield_start_def by linarith
  ultimately show ?thesis
    unfolding arena_def cell_ok_def start_cells_def by simp blast
qed

end
