(* ===== verification/Libc.thy ===== *)
theory Libc
  imports Prelude
begin

text \<open>
  The user library \<open>libc.c\<close>: conversion of numbers to decimal, string length, the report of
  \<open>errno\<close>, the wrapper every thread starts in, and the coloured characters of the screen.
  A \<open>char *\<close> argument is the memory from that address on, a function of the offset.
\<close>

section \<open>The functions\<close>

type_synonym chars_at = "nat \<Rightarrow> Byte"

text \<open>The first loop of \<open>itoa\<close>: digits from the least significant on. For \<open>a > 0\<close> the division of C is \<open>div\<close>.\<close>

function itoa_digits :: "int \<Rightarrow> nat \<Rightarrow> chars_at \<Rightarrow> nat \<times> chars_at" where
  "itoa_digits a i b =
     (if a > 0 then itoa_digits (a div 10) (i + 1) (b(i := of_int (a mod 10) + 48)) else (i, b))"
  by pat_completeness auto
termination by (relation "measure (\<lambda>(a, i, b). nat a)") auto

declare itoa_digits.simps [simp del]

definition swap_chars :: "nat \<Rightarrow> nat \<Rightarrow> chars_at \<Rightarrow> chars_at" where
  "swap_chars i i1 b = (let c = b i1; b = b(i1 := b (i - i1 - 1)) in b(i - i1 - 1 := c))"

definition itoa :: "DWord \<Rightarrow> chars_at \<Rightarrow> chars_at" where
  "itoa a b =
     (if a = 0 then b(0 := 48, 1 := 0)
      else let (i, b) = itoa_digits (sint a) 0 b;
               b = fold (swap_chars i) [0..<i div 2] b
           in b(i := 0))"

text \<open>\<^const>\<open>None\<close>: no byte is 0, and the loop does not end.\<close>

partial_function (option) strlen_from :: "chars_at \<Rightarrow> nat \<Rightarrow> nat option" where
  "strlen_from a i = (if a i \<noteq> 0 then strlen_from a (i + 1) else Some i)"

definition strlen :: "chars_at \<Rightarrow> nat option" where
  "strlen a = strlen_from a 0"

text \<open>\<open>perror\<close>: the bytes it passes to \<open>write(1, buffer, strlen(buffer))\<close>; \<open>buffer\<close> is not initialised.\<close>

definition perror :: "DWord \<Rightarrow> chars_at \<Rightarrow> Byte list option" where
  "perror errno buffer = do {
     let buffer = itoa errno buffer;
     n \<leftarrow> strlen buffer;
     Some (map buffer [0..<n]) }"

definition twrap :: "('p \<Rightarrow> 's \<Rightarrow> 's option) \<Rightarrow> ('s \<Rightarrow> 'r option) \<Rightarrow> 'p \<Rightarrow> 's \<Rightarrow> 'r option" where
  "twrap function terminatethread param s = do { s \<leftarrow> function param s; terminatethread s }"

text \<open>\<open>char\<close> is signed: both arguments are sign extended.\<close>

definition stos :: "Byte \<Rightarrow> Byte \<Rightarrow> Word16" where
  "stos ch color = (let col = push_bit 8 (scast color) in scast ch OR col)"

section \<open>Decimal digits\<close>

definition digit_char :: "int \<Rightarrow> Byte" where
  "digit_char d = of_int d + 48"

definition decimal_value :: "Byte list \<Rightarrow> int" where
  "decimal_value cs = foldl (\<lambda>v c. 10 * v + (uint c - 48)) 0 cs"

lemma uint_digit_char: "0 \<le> d \<Longrightarrow> d < 10 \<Longrightarrow> uint (digit_char d) = d + 48"
  by (simp add: digit_char_def uint_word_ariths uint_word_of_int)

text \<open>The digits of \<open>a\<close>, least significant first.\<close>

function low_digits :: "int \<Rightarrow> int list" where
  "low_digits a = (if a > 0 then a mod 10 # low_digits (a div 10) else [])"
  by pat_completeness auto
termination by (relation "measure nat") auto

declare low_digits.simps [simp del]

lemma low_digits_range: "d \<in> set (low_digits a) \<Longrightarrow> 0 \<le> d \<and> d < 10"
proof (induction a rule: low_digits.induct)
  case (1 a)
  then show ?case by (subst (asm) low_digits.simps) (auto split: if_splits)
qed

lemma low_digits_value: "decimal_value (map digit_char (rev (low_digits a))) = max a 0"
proof (induction a rule: low_digits.induct)
  case (1 a)
  show ?case
  proof (cases "a > 0")
    case True
    have "low_digits a = a mod 10 # low_digits (a div 10)" using True by (subst low_digits.simps) simp
    moreover have "decimal_value (cs @ [c]) = 10 * decimal_value cs + (uint c - 48)" for cs c
      by (simp add: decimal_value_def)
    ultimately show ?thesis using 1[OF True] True by (simp add: uint_digit_char)
  next
    case False
    then show ?thesis by (subst low_digits.simps) (simp add: decimal_value_def)
  qed
qed

lemma low_digits_length: "a < 10 ^ n \<Longrightarrow> length (low_digits a) \<le> n"
proof (induction n arbitrary: a)
  case 0
  then show ?case by (subst low_digits.simps) simp
next
  case (Suc n)
  then have "a div 10 < 10 ^ n" by (simp add: div_less_iff_less_mult mult.commute)
  then show ?case using Suc.IH by (subst low_digits.simps) simp
qed

lemma itoa_digits_run:
  "itoa_digits a i b = (i + length (low_digits a),
     \<lambda>k. if i \<le> k \<and> k < i + length (low_digits a) then digit_char (low_digits a ! (k - i)) else b k)"
proof (induction a i b rule: itoa_digits.induct)
  case (1 a i b)
  show ?case
  proof (cases "a > 0")
    case True
    have l: "low_digits a = a mod 10 # low_digits (a div 10)" using True by (subst low_digits.simps) simp
    have "itoa_digits a i b = itoa_digits (a div 10) (i + 1) (b(i := of_int (a mod 10) + 48))"
      using True by (subst itoa_digits.simps) simp
    then show ?thesis unfolding 1[OF True] l by (auto simp: fun_eq_iff nth_Cons' digit_char_def)
  next
    case False
    then have "itoa_digits a i b = (i, b)" by (subst itoa_digits.simps) simp
    moreover have "low_digits a = []" using False by (subst low_digits.simps) simp
    ultimately show ?thesis by (auto simp: fun_eq_iff)
  qed
qed

text \<open>The swaps reverse the first \<open>i\<close> bytes.\<close>

lemma swap_chars_run:
  "m \<le> i div 2 \<Longrightarrow> fold (swap_chars i) [0..<m] b =
     (\<lambda>k. if k < m \<or> i - m \<le> k \<and> k < i then b (i - k - 1) else b k)"
proof (induction m)
  case 0
  then show ?case by (auto simp: fun_eq_iff)
next
  case (Suc m)
  then have IH: "fold (swap_chars i) [0..<m] b = (\<lambda>k. if k < m \<or> i - m \<le> k \<and> k < i then b (i - k - 1) else b k)"
    by simp
  have m: "2 * Suc m \<le> i" using Suc.prems by (simp add: less_eq_div_iff_mult_less_eq)
  have "fold (swap_chars i) [0..<Suc m] b k = (if k < Suc m \<or> i - Suc m \<le> k \<and> k < i then b (i - k - 1) else b k)" for k
  proof -
    have k: "i - (i - m - 1) - 1 = m" "i - m - 1 \<noteq> m" "\<not> i - m \<le> m" using m by auto
    consider "k = m" | "k = i - m - 1" | "k \<noteq> m" "k \<noteq> i - m - 1" by blast
    then show ?thesis
      using k m by cases (auto simp: IH swap_chars_def Let_def)
  qed
  then show ?case by blast
qed

lemma itoa_run:
  assumes "a \<noteq> 0"
  shows "itoa a b = (let ds = map digit_char (rev (low_digits (sint a)))
     in (\<lambda>k. if k < length ds then ds ! k else if k = length ds then 0 else b k))"
proof -
  let ?n = "length (low_digits (sint a))"
  have "itoa a b k = (if k < ?n then map digit_char (rev (low_digits (sint a))) ! k else if k = ?n then 0 else b k)" for k
  proof -
    have r: "itoa a b k = (if k = ?n then 0 else
        let c = (\<lambda>k. if k < ?n then digit_char (low_digits (sint a) ! k) else b k)
        in if k < ?n div 2 \<or> ?n - ?n div 2 \<le> k \<and> k < ?n then c (?n - k - 1) else c k)"
      using assms by (simp add: itoa_def itoa_digits_run swap_chars_run)
    show ?thesis
    proof (cases "k < ?n")
      case True
      have "?n - k - 1 = k" if "\<not> k < ?n div 2" "\<not> ?n - ?n div 2 \<le> k" using that by linarith
      then show ?thesis using True unfolding r by (auto simp: rev_nth Let_def)
    next
      case False
      then have "\<not> k < ?n div 2" by linarith
      then show ?thesis using False unfolding r by (simp add: Let_def)
    qed
  qed
  then show ?thesis by (simp add: Let_def fun_eq_iff)
qed

lemma strlen_from_first: "(\<And>k. i \<le> k \<Longrightarrow> k < n \<Longrightarrow> a k \<noteq> 0) \<Longrightarrow> i \<le> n \<Longrightarrow> a n = 0 \<Longrightarrow> strlen_from a i = Some n"
proof (induction "n - i" arbitrary: i)
  case 0
  then show ?case by (subst strlen_from.simps) simp
next
  case (Suc m)
  then have "strlen_from a (i + 1) = Some n" by (intro Suc.hyps(1)) simp_all
  moreover have "a i \<noteq> 0" using Suc.prems(1)[of i] Suc.hyps(2) by simp
  ultimately show ?case by (subst strlen_from.simps) simp
qed

lemma low_digits_head:
  assumes "0 < a"
  shows "low_digits a \<noteq> []" "last (low_digits a) \<noteq> 0"
proof -
  have "low_digits a \<noteq> [] \<and> last (low_digits a) \<noteq> 0"
    using assms
  proof (induction a rule: low_digits.induct)
    case (1 a)
    have l: "low_digits a = a mod 10 # low_digits (a div 10)" using 1(2) by (subst low_digits.simps) simp
    show ?case
    proof (cases "0 < a div 10")
      case True
      then show ?thesis using 1(1)[OF 1(2) True] l by simp
    next
      case False
      then have "low_digits (a div 10) = []" by (subst low_digits.simps) simp
      moreover have "a < 10" using False by (simp add: pos_imp_zdiv_pos_iff)
      then have "a mod 10 \<noteq> 0" using 1(2) by simp
      ultimately show ?thesis using l by simp
    qed
  qed
  then show "low_digits a \<noteq> []" "last (low_digits a) \<noteq> 0" by blast+
qed

text \<open>What \<open>itoa\<close> leaves in memory, and what \<open>strlen\<close> makes of it.\<close>

definition decimal :: "int \<Rightarrow> Byte list" where
  "decimal a = (if a = 0 then [48] else map digit_char (rev (low_digits a)))"

lemma decimal_chars: "c \<in> set (decimal a) \<Longrightarrow> 48 \<le> c \<and> c \<le> 57"
  using low_digits_range[of _ a] by (fastforce simp: decimal_def word_le_def uint_digit_char split: if_splits)

lemma itoa_decimal:
  "itoa a b = (\<lambda>k. if k < length (decimal (sint a)) then decimal (sint a) ! k
     else if k = length (decimal (sint a)) then 0 else b k)"
proof (cases "a = 0")
  case True
  then show ?thesis by (auto simp: itoa_def decimal_def fun_eq_iff)
next
  case False
  then have "sint a \<noteq> 0" by (simp add: signed_eq_0_iff)
  then have d: "decimal (sint a) = map digit_char (rev (low_digits (sint a)))" by (simp add: decimal_def)
  show ?thesis using itoa_run[OF False, of b] unfolding d Let_def .
qed

lemma strlen_itoa: "strlen (itoa a b) = Some (length (decimal (sint a)))"
  unfolding strlen_def itoa_decimal
proof (rule strlen_from_first)
  fix k assume "k < length (decimal (sint a))"
  then have "48 \<le> decimal (sint a) ! k" using decimal_chars nth_mem by blast
  then show "(if k < length (decimal (sint a)) then decimal (sint a) ! k
     else if k = length (decimal (sint a)) then 0 else b k) \<noteq> 0"
    using \<open>k < _\<close> by (auto simp: word_le_def)
qed simp_all

section \<open>Properties\<close>



end
