(* ===== verification/Game.thy ===== *)
theory Game
  imports Game_Steps Libc
begin

text \<open>
  The rest of \<open>user.c\<close>: the queue of frames between the thread that plays and the thread that
  shows, the drawing of a frame, and the main loop. What one thread does between \<open>sem_wait(0)\<close> and
  \<open>sem_signal(0)\<close> is one step. A frame is written to the page \<open>alloc\<close> gave; a failed \<open>alloc\<close>
  returns -1, and the program then faults at its first store.
\<close>

section \<open>The queue of frames\<close>

definition FRAME_BUFF_SIZE :: nat where "FRAME_BUFF_SIZE = 64"

definition pending_frames :: "DWord ring \<Rightarrow> int" where
  "pending_frames r =
     (if Head r < Tail r then int (Head r + FRAME_BUFF_SIZE) - int (Tail r)
      else if Tail r < Head r then int (Head r) - int (Tail r)
      else if IsFull_Flag r \<noteq> 0 then int FRAME_BUFF_SIZE else 0)"

definition push_frame :: "DWord \<Rightarrow> DWord ring \<Rightarrow> DWord ring" where
  "push_frame mat r =
     (if IsFull_Flag r = 0
      then let r1 = r\<lparr>buff := (buff r)(Head r := mat), Head := (Head r + 1) mod FRAME_BUFF_SIZE\<rparr>
           in if Head r1 = Tail r1 then r1\<lparr>IsFull_Flag := 1\<rparr> else r1
      else r)"

definition read_frame :: "DWord ring \<Rightarrow> DWord \<times> DWord ring" where
  "read_frame r =
     (if Head r = Tail r \<and> IsFull_Flag r \<noteq> 1 then (0, r)
      else (buff r (Tail r), r\<lparr>Tail := (Tail r + 1) mod FRAME_BUFF_SIZE, IsFull_Flag := 0\<rparr>))"

section \<open>Drawing\<close>

definition alien :: Word16 where "alien = 0x0A00 OR of_char CHR ''w''"
definition ship :: Word16 where "ship = 0x0900 OR of_char CHR ''x''"
definition shield :: Word16 where "shield = 0x0800 OR of_char CHR ''o''"
definition alien_shoot :: Word16 where "alien_shoot = 0x0E00 OR of_char CHR ''t''"
definition ship_shoot :: Word16 where "ship_shoot = 0x0C00 OR of_char CHR ''i''"
definition wall :: Word16 where "wall = 0x1000 OR 0"

definition SEG_ZEOS :: int where "SEG_ZEOS = 18"

definition alloc :: "game \<Rightarrow> DWord \<times> game" where
  "alloc g = (alloc_at g (allocs g), g\<lparr>allocs := allocs g + 1\<rparr>)"

text \<open>\<open>*(mat + k) = v\<close> on the page at \<open>mat\<close>, of 2048 cells.\<close>

definition put_short :: "DWord \<Rightarrow> nat \<Rightarrow> Word16 \<Rightarrow> game \<Rightarrow> game option" where
  "put_short mat k v g = (if mat = -1 \<or> 2048 \<le> k then None
     else Some (g\<lparr>pages := (pages g)(mat := (pages g mat)(k := v))\<rparr>))"

definition put_shorts :: "DWord \<Rightarrow> (nat \<times> Word16) list \<Rightarrow> game \<Rightarrow> game option" where
  "put_shorts mat kvs g = mfold (\<lambda>(k, v). put_short mat k v) kvs g"

definition compute_fps :: "game \<Rightarrow> game" where
  "compute_fps g =
     (let (ticks, g) = gettime g in
      if SEG_ZEOS \<le> sint (ticks - ticks_prveis g)
      then g\<lparr>ticks_prveis := ticks, fps := total_frames g, total_frames := 0\<rparr> else g)"

text \<open>The character \<open>itoa(a, &cent)\<close> leaves in \<open>cent\<close>; the 0 byte behind it is written over a neighbour.\<close>

definition itoa_char :: "int \<Rightarrow> Byte" where
  "itoa_char a = itoa (of_int a) (\<lambda>_. 0) 0"

abbreviation "chr c \<equiv> (of_char c :: Byte)"

definition cell_code :: "cell \<Rightarrow> Word16" where
  "cell_code c =
     (if c_alien c = 1 then alien else if c_wall c = 1 then wall else if c_ship c = 1 then ship
      else if c_shield c = 1 then shield else if c_alien_shoot c = 1 then alien_shoot
      else if c_ship_shoot c = 1 then ship_shoot else 0)"

definition draw_board_cell :: "DWord \<Rightarrow> int \<Rightarrow> int \<Rightarrow> game \<Rightarrow> game option" where
  "draw_board_cell matrix i j g = do { c \<leftarrow> cell_of i j g; put_short matrix (nat (NUM_COLUMNS_user * i + j)) (cell_code c) g }"

definition board_to_screen :: "DWord \<Rightarrow> game \<Rightarrow> game option" where
  "board_to_screen matrix g = do {
     let a = 0; let b = 7;
     g \<leftarrow> put_shorts matrix [(0, stos (chr CHR ''x'') 6), (1, stos (chr CHR '':'') 7),
       (2, stos (itoa_char (y_ship g div 10)) 6), (3, stos (itoa_char (y_ship g mod 10)) 6),
       (5, stos (chr CHR ''y'') 6), (6, stos (chr CHR '':'') 7), (7, stos (chr CHR ''2'') 6), (8, stos (chr CHR ''2'') 6)] g;
     let g = compute_fps g;
     g \<leftarrow> put_shorts matrix [(10 + a, stos (chr CHR ''f'') 4), (11 + a, stos (chr CHR ''p'') 4),
       (12 + a, stos (chr CHR ''s'') 4), (13 + a, stos (chr CHR '':'') 7),
       (14 + a, stos (itoa_char (fps g div 10)) 4), (15 + a, stos (itoa_char (fps g mod 10)) 4)] g;
     let g = g\<lparr>pfd := pending_frames (frames g)\<rparr>;
     g \<leftarrow> put_shorts matrix [(10 + a + b, stos (chr CHR ''p'') 12), (11 + a + b, stos (chr CHR ''f'') 12),
       (12 + a + b, stos (chr CHR ''d'') 12), (13 + a + b, stos (chr CHR '':'') 7),
       (14 + a + b, stos (itoa_char (pfd g div 10)) 12), (15 + a + b, stos (itoa_char (pfd g mod 10)) 12)] g;
     let auxxx = 7; let Hd = int (Head (frames g)); let Tl = int (Tail (frames g));
     g \<leftarrow> put_shorts matrix [(10 + a + b + auxxx, stos (chr CHR ''h'') 12), (11 + a + b + auxxx, stos (chr CHR ''e'') 12),
       (12 + a + b + auxxx, stos (chr CHR ''a'') 12), (13 + a + b + auxxx, stos (chr CHR ''d'') 12),
       (14 + a + b + auxxx, stos (chr CHR '':'') 7), (15 + a + b + auxxx, stos (itoa_char (Hd div 10)) 12),
       (16 + a + b + auxxx, stos (itoa_char (Hd mod 10)) 12)] g;
     let auxxx2 = 15;
     g \<leftarrow> put_shorts matrix [(10 + a + b + auxxx2, stos (chr CHR ''t'') 12), (11 + a + b + auxxx2, stos (chr CHR ''a'') 12),
       (12 + a + b + auxxx2, stos (chr CHR ''i'') 12), (13 + a + b + auxxx2, stos (chr CHR ''l'') 12),
       (14 + a + b + auxxx2, stos (chr CHR '':'') 7), (15 + a + b + auxxx2, stos (itoa_char (Tl div 10)) 12),
       (16 + a + b + auxxx2, stos (itoa_char (Tl mod 10)) 12)] g;
     mfold (\<lambda>i. mfold (draw_board_cell matrix i) [0..NUM_COLUMNS_user - 1]) [1..NUM_ROWS_user - 1] g }"

section \<open>The threads\<close>

definition thread_push :: "game \<Rightarrow> game option" where
  "thread_push g = do {
     let (mat, g) = alloc g;
     g \<leftarrow> board_to_screen mat g;
     Some (g\<lparr>frames := push_frame mat (frames g)\<rparr>) }"

text \<open>One round of \<open>thread_dump\<close>: the cells it shows, if a frame was waiting. Its page is given back.\<close>

definition thread_dump :: "game \<Rightarrow> (nat \<Rightarrow> Word16) option \<times> game" where
  "thread_dump g =
     (let (tmp, r) = read_frame (frames g); g = g\<lparr>frames := r\<rparr> in
      if tmp \<noteq> 0 then (Some (pages g tmp), g\<lparr>total_frames := total_frames g + 1\<rparr>) else (None, g))"

section \<open>Banners\<close>

definition WHITE :: Byte where "WHITE = 0xF"
definition GREENBG :: Byte where "GREENBG = 0x20"
definition REDBG :: Byte where "REDBG = 0x40"
definition BLACKFLASBG :: Byte where "BLACKFLASBG = 0x80"
definition REDFLASHBG :: Byte where "REDFLASHBG = 0xC0"

definition welcome_art :: "(nat \<times> (Byte \<times> nat list) list) list" where
  "welcome_art = [
     (6, [(REDBG, [31, 32, 33, 35, 36, 37, 39, 40, 41, 43, 44, 45, 47, 48, 49])]),
     (7, [(REDBG, [31, 35, 37, 39, 41, 43, 47])]),
     (8, [(GREENBG, [9, 15]), (REDBG, [31, 32, 33, 35, 36, 37, 39, 40, 41, 43, 47, 48]), (GREENBG, [64, 70])]),
     (9, [(GREENBG, [10, 14]), (REDBG, [33, 35, 39, 41, 43, 47]), (GREENBG, [65, 69])]),
     (10, [(GREENBG, [9, 10, 11, 12, 13, 14, 15]), (REDBG, [31, 32, 33, 35, 39, 41, 43, 44, 45, 47, 48, 49]),
        (GREENBG, [64, 65, 66, 67, 68, 69, 70])]),
     (11, [(GREENBG, [8, 9, 11, 12, 13, 15, 16, 63, 64, 66, 67, 68, 70, 71])]),
     (12, [(GREENBG, [7, 8, 9, 10, 11, 12, 13, 14, 15, 16, 17, 62, 63, 64, 65, 66, 67, 68, 69, 70, 71, 72])]),
     (13, [(GREENBG, [7, 9, 10, 11, 12, 13, 14, 15, 17]), (REDBG, [24, 25, 26, 28, 31, 33, 35, 37, 38, 39, 41,
        42, 45, 46, 47, 49, 50, 51, 53, 54, 55]), (GREENBG, [62, 64, 65, 66, 67, 68, 69, 70, 72])]),
     (14, [(GREENBG, [7, 9, 15, 17]), (REDBG, [25, 28, 29, 31, 33, 35, 37, 39, 41, 43, 45, 49, 51, 53]),
        (GREENBG, [62, 64, 70, 72])]),
     (15, [(GREENBG, [10, 11, 13, 14]), (REDBG, [25, 28, 30, 31, 33, 35, 37, 38, 39, 41, 43, 45, 46, 49, 50, 51,
        53, 54, 55]), (GREENBG, [65, 66, 68, 69])]),
     (16, [(REDBG, [25, 28, 30, 31, 33, 35, 37, 39, 41, 43, 45, 49, 50, 55])]),
     (17, [(REDBG, [24, 25, 26, 28, 31, 34, 37, 39, 41, 42, 45, 46, 47, 49, 51, 53, 54, 55])])]"

definition welcome_screen :: "game \<Rightarrow> game option" where
  "welcome_screen g = do {
     let (mat, g) = alloc g;
     g \<leftarrow> put_shorts mat (concat (map (\<lambda>i. map (\<lambda>j. (80 * i + j, stos (chr CHR '' '') BLACKFLASBG)) [0..<80]) [0..<25])) g;
     g \<leftarrow> put_shorts mat (concat (map (\<lambda>(i, segs). concat (map (\<lambda>(bg, cols).
            map (\<lambda>j. (80 * i + j, stos (chr CHR '' '') bg)) cols) segs)) welcome_art)) g;
     Some (g\<lparr>frames := push_frame mat (frames g)\<rparr>) }"

text \<open>The text of the two verdicts, from column 36 of row 13 on.\<close>

definition banner :: "string \<Rightarrow> (nat \<times> Word16) list" where
  "banner s = map (\<lambda>off. (80 * 13 + off + 36, stos (chr (s ! off)) (REDFLASHBG + WHITE))) [0..<length s]"

definition game_win :: "game \<Rightarrow> game option" where
  "game_win g = do {
     let (mat, g) = alloc g;
     g \<leftarrow> board_to_screen mat g;
     g \<leftarrow> put_shorts mat (banner ''YOU WIN'') g;
     Some (g\<lparr>frames := push_frame mat (frames g)\<rparr>) }"

definition game_over :: "game \<Rightarrow> game option" where
  "game_over g = do {
     let (mat, g) = alloc g;
     g \<leftarrow> board_to_screen mat g;
     g \<leftarrow> put_shorts mat (banner ''GAME OVER'') g;
     Some (g\<lparr>frames := push_frame mat (frames g)\<rparr>) }"

section \<open>The main loop\<close>

text \<open>\<open>while (gettime() < SEG_ZEOS*20);\<close>\<close>

partial_function (option) delay :: "game \<Rightarrow> game option" where
  "delay g = (case gettime g of (t, g) \<Rightarrow> if sint t < SEG_ZEOS * 20 then delay g else Some g)"

definition setup_game :: "game \<Rightarrow> game option" where
  "setup_game g = do { g \<leftarrow> welcome_screen g; g \<leftarrow> delay g; g \<leftarrow> init_board g; thread_push g }"

text \<open>\<open>get_key\<close> gave no character or the one in \<open>c\<close>.\<close>

definition on_key :: "Byte option \<Rightarrow> game \<Rightarrow> game option" where
  "on_key key g =
     (case key of None \<Rightarrow> Some g
      | Some c \<Rightarrow>
          if c = chr CHR ''a'' then do { g \<leftarrow> ship_left g; thread_push g }
          else if c = chr CHR ''d'' then do { g \<leftarrow> ship_right g; thread_push g }
          else if c = chr CHR ''w'' then do { g \<leftarrow> make_ship_shoot g; thread_push g }
          else Some g)"

definition on_time :: "game \<Rightarrow> game option" where
  "on_time g =
     (let (now, g) = gettime g in
      if SEG < sint (now - t0 g) then do {
        g \<leftarrow> ia_move g;
        g \<leftarrow> thread_push g;
        let (now, g) = gettime g;
        Some (g\<lparr>t0 := now\<rparr>) }
      else Some g)"

text \<open>The inner loop of \<open>main\<close>, with what \<open>get_key\<close> gives in each of its rounds.\<close>

fun play :: "Byte option list \<Rightarrow> game \<Rightarrow> game option" where
  "play [] g = Some g"
| "play (key # keys) g =
     (if LOSE g = 0 \<and> WIN g = 0 then do { g \<leftarrow> on_key key g; g \<leftarrow> on_time g; play keys g } else Some g)"

definition verdict :: "game \<Rightarrow> game option" where
  "verdict g = (if LOSE g \<noteq> 0 then game_over g else if WIN g \<noteq> 0 then game_win g else Some g)"

section \<open>The queue is a bounded list\<close>

text \<open>A read that takes a frame, in the shape of the contract: \<open>Tail\<close> moves.\<close>

definition frame_pop :: "DWord ring \<Rightarrow> (DWord \<times> DWord ring) option" where
  "frame_pop r = (case read_frame r of (tmp, r') \<Rightarrow> if Tail r' = Tail r then None else Some (tmp, r'))"

abbreviation frame_contents :: "DWord ring \<Rightarrow> DWord list" where
  "frame_contents \<equiv> ring_contents FRAME_BUFF_SIZE"

abbreviation frame_wf :: "DWord ring \<Rightarrow> bool" where
  "frame_wf \<equiv> ring_wf FRAME_BUFF_SIZE"

lemma push_frame_put: "push_frame = ring_put FRAME_BUFF_SIZE"
  by (intro ext) (simp add: push_frame_def ring_put_def)

lemma read_frame_take: "read_frame r = (case ring_take FRAME_BUFF_SIZE r of None \<Rightarrow> (0, r) | Some p \<Rightarrow> p)"
  by (simp add: read_frame_def ring_take_def)

lemma frame_pop_take: "frame_pop = ring_take FRAME_BUFF_SIZE"
proof
  fix r :: "DWord ring"
  have "Suc t mod 64 \<noteq> t" for t :: nat
    using suc_mod_cases[of t 64] mod_less_divisor[of 64 "Suc t"] by (cases "t < 64") auto
  then show "frame_pop r = ring_take FRAME_BUFF_SIZE r"
    by (simp add: frame_pop_def read_frame_take ring_take_def FRAME_BUFF_SIZE_def)
qed

interpretation frame_queue: bounded_fifo FRAME_BUFF_SIZE frame_wf frame_contents push_frame frame_pop
  by unfold_locales (simp_all add: push_frame_put frame_pop_take ring_laws)

lemma pending_frames_count: "frame_wf r \<Longrightarrow> pending_frames r = int (length (frame_contents r))"
  by (auto simp: ring_wf_def pending_frames_def ring_count_def)

section \<open>What drawing changes\<close>

text \<open>Drawing on the page at \<open>m\<close> changes that page and the counters of the first line.\<close>

definition undrawn :: "DWord \<Rightarrow> game \<Rightarrow> game" where
  "undrawn m g = g\<lparr>pages := (pages g)(m := (\<lambda>_. 0)), fps := 0, total_frames := 0, ticks_prveis := 0, clk_reads := 0, pfd := 0\<rparr>"

definition drawn :: "DWord \<Rightarrow> game \<Rightarrow> game \<Rightarrow> bool" where
  "drawn m g g' \<longleftrightarrow> undrawn m g' = undrawn m g"

lemma drawn_upd [simp]:
  "drawn m g (g'\<lparr>pages := (pages g')(m := p)\<rparr>) = drawn m g g'" "drawn m g (g'\<lparr>fps := f\<rparr>) = drawn m g g'"
  "drawn m g (g'\<lparr>total_frames := t\<rparr>) = drawn m g g'" "drawn m g (g'\<lparr>ticks_prveis := k\<rparr>) = drawn m g g'"
  "drawn m g (g'\<lparr>clk_reads := c\<rparr>) = drawn m g g'" "drawn m g (g'\<lparr>pfd := d\<rparr>) = drawn m g g'" "drawn m g g"
  by (simp_all add: drawn_def undrawn_def)

lemma drawn_fields:
  assumes "drawn m g g'"
  shows "board g' = board g" "frames g' = frames g" "alloc_at g' = alloc_at g" "allocs g' = allocs g" "LOSE g' = LOSE g"
    "WIN g' = WIN g" "x_aliens g' = x_aliens g" "y_aliens g' = y_aliens g" "y_ship g' = y_ship g" "move_right g' = move_right g"
    "move_left g' = move_left g" "move_down g' = move_down g" "last_shoot g' = last_shoot g"
    "shoot_pointer g' = shoot_pointer g" "clk g' = clk g" "t0 g' = t0 g" "a \<noteq> m \<Longrightarrow> pages g' a = pages g a"
proof -
  note c = arg_cong[OF assms[unfolded drawn_def]]
  show "board g' = board g" "frames g' = frames g" "alloc_at g' = alloc_at g" "allocs g' = allocs g" "LOSE g' = LOSE g"
    "WIN g' = WIN g" "x_aliens g' = x_aliens g" "y_aliens g' = y_aliens g" "y_ship g' = y_ship g" "move_right g' = move_right g"
    "move_left g' = move_left g" "move_down g' = move_down g" "last_shoot g' = last_shoot g"
    "shoot_pointer g' = shoot_pointer g" "clk g' = clk g" "t0 g' = t0 g"
    using c[of board] c[of frames] c[of alloc_at] c[of allocs] c[of LOSE] c[of WIN] c[of x_aliens] c[of y_aliens]
      c[of y_ship] c[of move_right] c[of move_left] c[of move_down] c[of last_shoot] c[of shoot_pointer] c[of clk] c[of t0]
    by (simp_all add: undrawn_def)
  show "pages g' a = pages g a" if "a \<noteq> m" using c[of "\<lambda>g. pages g a"] that by (simp add: undrawn_def)
qed

lemma put_short_drawn:
  "m \<noteq> -1 \<Longrightarrow> k < 2048 \<Longrightarrow> drawn m g0 g \<Longrightarrow> \<exists>g'. put_short m k v g = Some g' \<and> drawn m g0 g'
     \<and> pages g' m = (pages g m)(k := v)"
  by (simp add: put_short_def)

lemma put_shorts_drawn:
  assumes "m \<noteq> -1" "list_all (\<lambda>kv. fst kv < 2048) kvs" "drawn m g0 g"
  shows "\<exists>g'. put_shorts m kvs g = Some g' \<and> drawn m g0 g'"
  unfolding put_shorts_def
proof (rule mfold_preserves[where I = "drawn m g0", OF assms(3)])
  fix kv and s :: game assume "kv \<in> set kvs" "drawn m g0 s"
  then show "\<exists>s'. (case kv of (k, v) \<Rightarrow> put_short m k v) s = Some s' \<and> drawn m g0 s'"
    using put_short_drawn[OF assms(1), of "fst kv" g0 s "snd kv"] assms(2) by (auto simp: list_all_iff split: prod.split)
qed

lemma compute_fps_drawn: "drawn m g0 g \<Longrightarrow> drawn m g0 (compute_fps g)"
  by (simp add: compute_fps_def gettime_def Let_def)

text \<open>The part of the screen that shows the board: rows 1 to 24.\<close>

definition shown :: "(nat \<Rightarrow> Word16) \<Rightarrow> Word16 list" where
  "shown p = map p [80..<2000]"

definition picture :: "board \<Rightarrow> Word16 list" where
  "picture b = map (\<lambda>k. cell_code (b (int (k div 80)) (int (k mod 80)))) [80..<2000]"

text \<open>The cells drawn so far: those before \<open>n\<close> in the order of the screen.\<close>

definition drawn_to :: "DWord \<Rightarrow> game \<Rightarrow> int \<Rightarrow> game \<Rightarrow> bool" where
  "drawn_to m g0 n g \<longleftrightarrow> drawn m g0 g
     \<and> (\<forall>k. 80 \<le> k \<and> int k < n \<longrightarrow> pages g m k = cell_code (board g0 (int (k div 80)) (int (k mod 80))))"

lemma draw_board_cell_step:
  assumes "m \<noteq> -1" "1 \<le> i" "i \<le> 24" "0 \<le> j" "j \<le> 79" "drawn_to m g0 (80 * i + j) g"
  shows "\<exists>g'. draw_board_cell m i j g = Some g' \<and> drawn_to m g0 (80 * i + (j + 1)) g'"
proof -
  let ?n = "nat (80 * i + j)"
  have d: "drawn m g0 g" using assms(6) by (simp add: drawn_to_def)
  have n: "?n < 2048" "int ?n = 80 * i + j" using assms by simp_all
  have ij: "int (?n div 80) = i" "int (?n mod 80) = j" using assms unfolding zdiv_int zmod_int n(2) by simp_all
  obtain g' where g': "put_short m ?n (cell_code (board g i j)) g = Some g'" "drawn m g0 g'"
    "pages g' m = (pages g m)(?n := cell_code (board g i j))"
    using put_short_drawn[OF assms(1) n(1) d] by blast
  have "draw_board_cell m i j g = Some g'"
    using assms g'(1) by (simp add: draw_board_cell_def cell_of_def NUM_COLUMNS_user_def)
  moreover have "drawn_to m g0 (80 * i + (j + 1)) g'"
    unfolding drawn_to_def
  proof (intro conjI allI impI)
    fix k :: nat assume k: "80 \<le> k \<and> int k < 80 * i + (j + 1)"
    show "pages g' m k = cell_code (board g0 (int (k div 80)) (int (k mod 80)))"
    proof (cases "k = ?n")
      case True
      then show ?thesis using g'(3) ij drawn_fields(1)[OF d] by simp
    next
      case False
      then have "int k < 80 * i + j" using k n(2) by linarith
      then show ?thesis using False k g'(3) assms(6) by (simp add: drawn_to_def)
    qed
  qed (rule g'(2))
  ultimately show ?thesis by blast
qed

lemma board_drawn:
  assumes "m \<noteq> -1" "drawn m g0 g"
  shows "\<exists>g'. mfold (\<lambda>i. mfold (draw_board_cell m i) [0..NUM_COLUMNS_user - 1]) [1..NUM_ROWS_user - 1] g = Some g'
     \<and> drawn m g0 g' \<and> shown (pages g' m) = picture (board g0)"
proof -
  have row: "\<exists>g'. mfold (draw_board_cell m i) [0..79] g = Some g' \<and> drawn_to m g0 (80 * (i + 1)) g'"
    if "1 \<le> i" "i \<le> 24" "drawn_to m g0 (80 * i) g" for i g
  proof -
    have "\<exists>g'. mfold (draw_board_cell m i) [0..79] g = Some g' \<and> drawn_to m g0 (80 * i + (79 + 1)) g'"
      by (rule upto_loop[where I = "\<lambda>j. drawn_to m g0 (80 * i + j)"])
        (use that draw_board_cell_step[OF assms(1)] in auto)
    then show ?thesis by (simp add: algebra_simps)
  qed
  have start: "drawn_to m g0 (80 * 1) g" using assms(2) by (auto simp: drawn_to_def)
  have "\<exists>g'. mfold (\<lambda>i. mfold (draw_board_cell m i) [0..79]) [1..24] g = Some g' \<and> drawn_to m g0 (80 * (24 + 1)) g'"
    by (rule upto_loop[where I = "\<lambda>i. drawn_to m g0 (80 * i)", OF _ start row]) simp_all
  then obtain g' where g': "mfold (\<lambda>i. mfold (draw_board_cell m i) [0..79]) [1..24] g = Some g'" "drawn_to m g0 2000 g'"
    by auto
  then have "shown (pages g' m) = picture (board g0)"
    unfolding shown_def picture_def
  proof (intro map_cong refl)
    fix k :: nat assume "k \<in> set [80..<2000]"
    then have "80 \<le> k" "int k < 2000" unfolding set_upt by simp_all
    then show "pages g' m k = cell_code (board g0 (int (k div 80)) (int (k mod 80)))" using g'(2) by (simp add: drawn_to_def)
  qed
  then show ?thesis using g' by (auto simp: NUM_COLUMNS_user_def NUM_ROWS_user_def drawn_to_def)
qed

lemma board_to_screen_drawn:
  assumes "m \<noteq> -1" "drawn m g0 g"
  shows "\<exists>g'. board_to_screen m g = Some g' \<and> drawn m g0 g' \<and> shown (pages g' m) = picture (board g0)"
proof -
  note put = put_shorts_drawn[OF assms(1)]
  have put_ex: "\<exists>g'. (do { g' \<leftarrow> put_shorts m kvs s; f g' }) = Some g' \<and> P g'"
    if "list_all (\<lambda>kv. fst kv < 2048) kvs" "drawn m g0 s" "\<And>g'. drawn m g0 g' \<Longrightarrow> \<exists>h. f g' = Some h \<and> P h" for kvs s f P
    using put[OF that(1,2)] that(3) by fastforce
  show ?thesis
    unfolding board_to_screen_def Let_def
    by (intro put_ex board_drawn[OF assms(1)]) (simp_all add: assms(2) compute_fps_drawn)
qed

section \<open>The queue of pictures\<close>

definition pictures :: "game \<Rightarrow> Word16 list list" where
  "pictures g = map (\<lambda>m. shown (pages g m)) (frame_contents (frames g))"

definition queue_ok :: "game \<Rightarrow> bool" where
  "queue_ok g \<longleftrightarrow> frame_wf (frames g) \<and> 0 \<notin> set (frame_contents (frames g))"

text \<open>The page the next \<open>alloc\<close> gives is none of those whose frames wait to be shown.\<close>

definition page_fresh :: "game \<Rightarrow> bool" where
  "page_fresh g \<longleftrightarrow> alloc_at g (allocs g) \<notin> insert 0 (insert (-1) (set (frame_contents (frames g))))"

lemma thread_push_drawn:
  assumes "alloc_at g (allocs g) \<noteq> -1"
  shows "\<exists>g1. drawn (alloc_at g (allocs g)) (g\<lparr>allocs := allocs g + 1\<rparr>) g1
     \<and> shown (pages g1 (alloc_at g (allocs g))) = picture (board g)
     \<and> thread_push g = Some (g1\<lparr>frames := push_frame (alloc_at g (allocs g)) (frames g)\<rparr>)"
proof -
  let ?m = "alloc_at g (allocs g)" and ?g = "g\<lparr>allocs := allocs g + 1\<rparr>"
  have d: "drawn ?m ?g ?g" by simp
  obtain g1 where g1: "board_to_screen ?m ?g = Some g1" "drawn ?m ?g g1" "shown (pages g1 ?m) = picture (board ?g)"
    using board_to_screen_drawn[OF assms d] by blast
  moreover have "frames g1 = frames g" using drawn_fields(2)[OF g1(2)] by simp
  ultimately show ?thesis by (auto simp: thread_push_def alloc_def)
qed

text \<open>Drawing on a page that no waiting frame has does not change the pictures that wait.\<close>

lemma drawn_pictures:
  assumes "drawn m g g'" "m \<notin> set (frame_contents (frames g))"
  shows "pictures g' = pictures g" "queue_ok g' = queue_ok g"
proof -
  have f: "frames g' = frames g" by (rule drawn_fields(2)[OF assms(1)])
  show "pictures g' = pictures g"
    unfolding pictures_def f
  proof (intro map_cong refl)
    fix a assume "a \<in> set (frame_contents (frames g))"
    then have "pages g' a = pages g a" using assms(2) drawn_fields(17)[OF assms(1), of a] by auto
    then show "shown (pages g' a) = shown (pages g a)" by simp
  qed
  show "queue_ok g' = queue_ok g" by (simp add: queue_ok_def f)
qed

text \<open>The queue after a page is put into it, and what is at its front.\<close>

lemma push_queues_page:
  assumes "queue_ok g" "m \<noteq> 0"
  shows "queue_ok (g\<lparr>frames := push_frame m (frames g)\<rparr>)"
    "pictures (g\<lparr>frames := push_frame m (frames g)\<rparr>) = spec_push FRAME_BUFF_SIZE (shown (pages g m)) (pictures g)"
proof -
  have wf: "frame_wf (frames g)" using assms(1) by (simp add: queue_ok_def)
  note c = frame_queue.push_contents[OF wf, of m]
  show "queue_ok (g\<lparr>frames := push_frame m (frames g)\<rparr>)"
    using assms frame_queue.push_inv[OF wf] by (auto simp: queue_ok_def c spec_push_def)
  show "pictures (g\<lparr>frames := push_frame m (frames g)\<rparr>) = spec_push FRAME_BUFF_SIZE (shown (pages g m)) (pictures g)"
    by (simp add: pictures_def c spec_push_def)
qed

lemma read_takes_oldest:
  assumes "queue_ok g"
  shows "case pictures g of [] \<Rightarrow> read_frame (frames g) = (0, frames g)
     | p # ps \<Rightarrow> \<exists>m r. read_frame (frames g) = (m, r) \<and> m \<noteq> 0 \<and> shown (pages g m) = p
         \<and> queue_ok (g\<lparr>frames := r\<rparr>) \<and> pictures (g\<lparr>frames := r\<rparr>) = ps"
proof (cases "frame_contents (frames g)")
  case Nil
  then have "frame_pop (frames g) = None" using assms frame_queue.pop_empty by (simp add: queue_ok_def)
  then have "read_frame (frames g) = (0, frames g)" by (simp add: frame_pop_take read_frame_take)
  then show ?thesis using Nil by (simp add: pictures_def)
next
  case (Cons m ms)
  have "frame_wf (frames g)" using assms by (simp add: queue_ok_def)
  from frame_queue.pop_cons[OF this Cons]
  obtain r where r: "frame_pop (frames g) = Some (m, r)" "frame_wf r" "frame_contents r = ms" by blast
  then have "read_frame (frames g) = (m, r)" by (simp add: frame_pop_take read_frame_take)
  moreover have "m \<noteq> 0" "0 \<notin> set ms" using assms Cons by (auto simp: queue_ok_def)
  ultimately show ?thesis using r(2,3) Cons by (simp add: pictures_def queue_ok_def)
qed

lemma push_queues_picture:
  assumes "queue_ok g" "page_fresh g"
  shows "\<exists>g'. thread_push g = Some g' \<and> queue_ok g' \<and> pictures g' = spec_push FRAME_BUFF_SIZE (picture (board g)) (pictures g)
     \<and> board g' = board g"
proof -
  let ?m = "alloc_at g (allocs g)" and ?g = "g\<lparr>allocs := allocs g + 1\<rparr>"
  have m: "?m \<noteq> 0" "?m \<noteq> -1" "?m \<notin> set (frame_contents (frames ?g))" using assms(2) by (simp_all add: page_fresh_def)
  obtain g1 where g1: "drawn ?m ?g g1" "shown (pages g1 ?m) = picture (board g)"
    "thread_push g = Some (g1\<lparr>frames := push_frame ?m (frames g)\<rparr>)" using thread_push_drawn[OF m(2)] by blast
  have "pictures ?g = pictures g" "queue_ok ?g" using assms(1) by (simp_all add: pictures_def queue_ok_def)
  then show ?thesis
    using push_queues_page[of g1 ?m] drawn_pictures[OF g1(1) m(3)] drawn_fields(1,2)[OF g1(1)] g1(2,3) m(1) by simp
qed

lemma dump_shows_oldest:
  assumes "queue_ok g"
  shows "\<exists>out g'. thread_dump g = (out, g') \<and> queue_ok g' \<and> board g' = board g
     \<and> (case spec_pop (pictures g) of None \<Rightarrow> out = None \<and> pictures g' = []
        | Some (p, ps) \<Rightarrow> map_option shown out = Some p \<and> pictures g' = ps)"
  using read_takes_oldest[OF assms] assms
  by (cases "pictures g") (auto simp: thread_dump_def pictures_def queue_ok_def)

text \<open>
  The two threads of the game share a queue of at most 64 pictures. \<open>thread_push\<close>, given a
  page that is not NULL, not -1 and not the page of a waiting frame, never faults: it appends the
  picture of the board as it is (rows 1 to 24, each cell by its precedence alien, wall, ship, shield,
  shots), or drops it when 64 pictures wait; the pictures already waiting and the board stay as they
  were. A round of \<open>thread_dump\<close> shows the oldest picture waiting and removes it, or shows nothing
  when none waits. The count \<open>pending_frames\<close> of the first line is the number of pictures waiting.
\<close>

theorem frame_queue_shows_boards_in_order:
  assumes "queue_ok g" "page_fresh g"
  shows "(\<exists>g'. thread_push g = Some g' \<and> queue_ok g' \<and> board g' = board g
       \<and> pictures g' = spec_push 64 (picture (board g)) (pictures g))
     \<and> (\<exists>out g'. thread_dump g = (out, g') \<and> queue_ok g' \<and> board g' = board g
       \<and> (case spec_pop (pictures g) of None \<Rightarrow> out = None \<and> pictures g' = []
          | Some (p, ps) \<Rightarrow> map_option shown out = Some p \<and> pictures g' = ps))
     \<and> pending_frames (frames g) = int (length (pictures g)) \<and> length (pictures g) \<le> 64"
proof -
  have wf: "frame_wf (frames g)" using assms(1) by (simp add: queue_ok_def)
  have "pending_frames (frames g) = int (length (pictures g))" using pending_frames_count[OF wf] by (simp add: pictures_def)
  moreover have "length (pictures g) \<le> 64"
    using frame_queue.contents_bound[OF wf] by (simp add: pictures_def FRAME_BUFF_SIZE_def)
  ultimately show ?thesis
    using push_queues_picture[OF assms] dump_shows_oldest[OF assms(1)] unfolding FRAME_BUFF_SIZE_def by blast
qed

text \<open>The state the program is loaded with; the clock and the pages \<open>alloc\<close> gives are left open.\<close>

definition loaded :: "(nat \<Rightarrow> DWord) \<Rightarrow> (nat \<Rightarrow> DWord) \<Rightarrow> (DWord \<Rightarrow> nat \<Rightarrow> Word16) \<Rightarrow> game" where
  "loaded clock addresses memory = \<lparr>board = start_cells (\<lambda>_ _. False), LOSE = 0, WIN = 0, x_aliens = 3, y_aliens = 2,
     y_ship = NUM_COLUMNS_user div 2, move_right = 1, move_left = 0, move_down = 0, last_shoot = 3, shoot_pointer = 1,
     fps = 0, pfd = 0, t0 = 0, frames = \<lparr>buff = (\<lambda>_. 0), Head = 0, Tail = 0, IsFull_Flag = 0\<rparr>, ticks_prveis = 0,
     total_frames = 0, clk = clock, clk_reads = 0, alloc_at = addresses, allocs = 0, pages = memory\<rparr>"

theorem frame_queue_shows_boards_in_order_witness:
  "let g = loaded (\<lambda>_. 360) (\<lambda>_. 0x11C000) (\<lambda>_ _. 0) in queue_ok g \<and> page_fresh g
     \<and> (\<exists>g'. thread_push g = Some g' \<and> pictures g' = spec_push 64 (picture (board g)) (pictures g))"
proof -
  let ?g = "loaded (\<lambda>_. 360) (\<lambda>_. 0x11C000) (\<lambda>_ _. 0)"
  have c: "frame_contents (frames ?g) = []" by (simp add: loaded_def ring_contents_def ring_count_def)
  have q: "queue_ok ?g" unfolding queue_ok_def c by (simp add: loaded_def ring_wf_def FRAME_BUFF_SIZE_def)
  have p: "page_fresh ?g" unfolding page_fresh_def c by (simp add: loaded_def)
  from frame_queue_shows_boards_in_order[OF q p] q p show ?thesis unfolding Let_def by blast
qed

end
