(* ===== verification/Game_Play.thy ===== *)
theory Game_Play
  imports Game
begin

text \<open>
  Whole games. The set-up, any number of rounds of the main loop and the verdict never reach outside
  an array, the board keeps its shape, and the aliens move at most 420 times before the game is over.
\<close>

section \<open>Runs\<close>

text \<open>\<open>main\<close>, with the rounds its inner loop has made.\<close>

definition main_game :: "Byte option list \<Rightarrow> game \<Rightarrow> game option" where
  "main_game keys g = do { g \<leftarrow> setup_game g; g \<leftarrow> play keys g; verdict g }"

definition turn_due :: "game \<Rightarrow> bool" where
  "turn_due g \<longleftrightarrow> SEG < sint (fst (gettime g) - t0 g)"

text \<open>How many of the rounds of \<open>play\<close> moved the aliens.\<close>

fun turns_taken :: "Byte option list \<Rightarrow> game \<Rightarrow> nat" where
  "turns_taken [] g = 0"
| "turns_taken (key # keys) g =
     (if LOSE g = 0 \<and> WIN g = 0 then
        (case on_key key g of None \<Rightarrow> 0
         | Some g1 \<Rightarrow> (case on_time g1 of None \<Rightarrow> 0
            | Some g2 \<Rightarrow> (if turn_due g1 then 1 else 0) + turns_taken keys g2))
      else 0)"

section \<open>What showing leaves alone\<close>

definition onstage :: "game \<Rightarrow> game" where
  "onstage g = g\<lparr>t0 := 0, pages := (\<lambda>_ _. 0), fps := 0, total_frames := 0, ticks_prveis := 0, clk_reads := 0, pfd := 0,
     frames := \<lparr>buff = (\<lambda>_. 0), Head = 0, Tail = 0, IsFull_Flag = 0\<rparr>, allocs := 0\<rparr>"

definition same_play :: "game \<Rightarrow> game \<Rightarrow> bool" where
  "same_play g g' \<longleftrightarrow> onstage g' = onstage g"

lemma same_play_upd [simp]:
  "same_play g (g'\<lparr>t0 := t\<rparr>) = same_play g g'" "same_play g (g'\<lparr>clk_reads := n\<rparr>) = same_play g g'"
  "same_play g (g'\<lparr>frames := r\<rparr>) = same_play g g'" "same_play g (g'\<lparr>allocs := n\<rparr>) = same_play g g'" "same_play g g"
  by (simp_all add: same_play_def onstage_def)

lemma same_play_trans: "same_play g g1 \<Longrightarrow> same_play g1 g2 \<Longrightarrow> same_play g g2"
  by (simp add: same_play_def)

lemma drawn_same_play:
  assumes "drawn m g g'"
  shows "same_play g g'"
proof -
  have "onstage h = onstage (undrawn m h)" for h by (simp add: onstage_def undrawn_def)
  from this[of g'] this[of g] show ?thesis using assms unfolding drawn_def same_play_def by simp
qed

lemma same_play_fields:
  assumes "same_play g g'"
  shows "board g' = board g" "LOSE g' = LOSE g" "WIN g' = WIN g" "x_aliens g' = x_aliens g" "y_aliens g' = y_aliens g"
    "y_ship g' = y_ship g" "move_right g' = move_right g" "move_left g' = move_left g" "move_down g' = move_down g"
    "last_shoot g' = last_shoot g" "shoot_pointer g' = shoot_pointer g" "alloc_at g' = alloc_at g" "clk g' = clk g"
proof -
  note c = arg_cong[OF assms[unfolded same_play_def]]
  show "board g' = board g" "LOSE g' = LOSE g" "WIN g' = WIN g" "x_aliens g' = x_aliens g" "y_aliens g' = y_aliens g"
    "y_ship g' = y_ship g" "move_right g' = move_right g" "move_left g' = move_left g" "move_down g' = move_down g"
    "last_shoot g' = last_shoot g" "shoot_pointer g' = shoot_pointer g" "alloc_at g' = alloc_at g" "clk g' = clk g"
    using c[of board] c[of LOSE] c[of WIN] c[of x_aliens] c[of y_aliens] c[of y_ship] c[of move_right] c[of move_left]
      c[of move_down] c[of last_shoot] c[of shoot_pointer] c[of alloc_at] c[of clk]
    by (simp_all add: onstage_def)
qed

text \<open>A state the main loop may be in: the arena is sound and \<open>alloc\<close> never fails.\<close>

definition sound :: "game \<Rightarrow> bool" where
  "sound g \<longleftrightarrow> game_ok g \<and> (\<forall>n. alloc_at g n \<noteq> -1)"

lemma same_play_sound:
  assumes "same_play g g'"
  shows "sound g' = sound g" "moves_left g' = moves_left g"
  by (simp_all add: sound_def game_ok_def field_ok_def dir_ok_def moves_left_def same_play_fields[OF assms])

lemma thread_push_same:
  assumes "\<forall>n. alloc_at g n \<noteq> -1"
  shows "\<exists>g'. thread_push g = Some g' \<and> same_play g g'"
proof -
  obtain g1 where g1: "drawn (alloc_at g (allocs g)) (g\<lparr>allocs := allocs g + 1\<rparr>) g1"
    "thread_push g = Some (g1\<lparr>frames := push_frame (alloc_at g (allocs g)) (frames g)\<rparr>)"
    using thread_push_drawn[of g] assms by blast
  have "same_play g (g\<lparr>allocs := allocs g + 1\<rparr>)" by simp
  then have "same_play g g1" using drawn_same_play[OF g1(1)] same_play_trans by blast
  then show ?thesis using g1(2) by simp
qed

section \<open>Rounds\<close>

text \<open>The formation has not landed.\<close>

definition live :: "game \<Rightarrow> bool" where
  "live g \<longleftrightarrow> sound g \<and> x_aliens g \<le> 17"

lemma live_if_not_lost: "sound g \<Longrightarrow> LOSE g = 0 \<Longrightarrow> live g"
  by (simp add: live_def sound_def game_ok_def)

text \<open>What the thread that shows does not see of a step.\<close>

definition unshown :: "game \<Rightarrow> game \<Rightarrow> bool" where
  "unshown g g' \<longleftrightarrow> frames g' = frames g \<and> pages g' = pages g"

lemma live_ship:
  assumes "live g" "arena (x_aliens g) (y_aliens g) y b" "4 \<le> y" "y \<le> 75" "l \<in> {LOSE g, 1}"
  shows "live (g\<lparr>board := b, y_ship := y, LOSE := l\<rparr>)" "moves_left (g\<lparr>board := b, y_ship := y, LOSE := l\<rparr>) = moves_left g"
  using assms by (auto simp: live_def sound_def game_ok_def field_ok_def dir_ok_def moves_left_def)

lemma ship_right_live:
  assumes "live g"
  shows "\<exists>g'. ship_right g = Some g' \<and> live g' \<and> moves_left g' = moves_left g \<and> unshown g g'"
proof (cases "y_ship g < 75")
  case True
  have "arena (x_aliens g) (y_aliens g) (y_ship g) (board g)" "4 \<le> y_ship g"
    using assms by (simp_all add: live_def sound_def game_ok_def field_ok_def)
  with ship_right_kept[OF this True] live_ship[OF assms, of "y_ship g + 1"] True show ?thesis by (fastforce simp: unshown_def)
qed (use assms in \<open>simp add: ship_right_def NUM_COLUMNS_user_def unshown_def\<close>)

lemma ship_left_live:
  assumes "live g"
  shows "\<exists>g'. ship_left g = Some g' \<and> live g' \<and> moves_left g' = moves_left g \<and> unshown g g'"
proof (cases "4 < y_ship g")
  case True
  have "arena (x_aliens g) (y_aliens g) (y_ship g) (board g)" "y_ship g \<le> 75"
    using assms by (simp_all add: live_def sound_def game_ok_def field_ok_def)
  with ship_left_kept[OF this(1) True this(2)] live_ship[OF assms, of "y_ship g - 1"] True show ?thesis by (fastforce simp: unshown_def)
qed (use assms in \<open>simp add: ship_left_def unshown_def\<close>)

lemma make_ship_shoot_live:
  assumes "live g"
  shows "\<exists>g'. make_ship_shoot g = Some g' \<and> live g' \<and> moves_left g' = moves_left g \<and> unshown g g'"
proof -
  have f: "arena (x_aliens g) (y_aliens g) (y_ship g) (board g)" "4 \<le> y_ship g" "y_ship g \<le> 75" "field_ok g"
    "LOSE g \<in> {0, 1}" "x_aliens g \<le> 17"
    using assms by (simp_all add: live_def sound_def game_ok_def field_ok_def)
  obtain g' where g': "make_ship_shoot g = Some g'" "shots_kept (x_aliens g) (y_aliens g) (y_ship g) g g'"
    using make_ship_shoot_kept[OF f(1-3)] by blast
  then have r: "rest g' = rest g" "arena (x_aliens g) (y_aliens g) (y_ship g) (board g')" "LOSE g' \<in> {0, 1}"
    using f(5) by (auto simp: shots_kept_def)
  note rf = rest_fields[OF r(1)]
  have "field_ok g'" using f(4) r(2,3) by (simp add: field_ok_def dir_ok_def rf)
  then have "live g'" using assms f(6) by (simp add: live_def sound_def game_ok_def rf)
  moreover have "moves_left g' = moves_left g" "unshown g g'" by (simp_all add: moves_left_def unshown_def rf)
  ultimately show ?thesis using g'(1) by blast
qed

lemma push_after:
  assumes "\<exists>g1. f g = Some g1 \<and> live g1 \<and> moves_left g1 = moves_left g"
  shows "\<exists>g'. do { g \<leftarrow> f g; thread_push g } = Some g' \<and> live g' \<and> moves_left g' = moves_left g"
proof -
  obtain g1 where g1: "f g = Some g1" "live g1" "moves_left g1 = moves_left g" using assms by blast
  then obtain g2 where g2: "thread_push g1 = Some g2" "same_play g1 g2" using thread_push_same by (auto simp: live_def sound_def)
  have "live g2" using g1(2) same_play_sound(1)[OF g2(2)] same_play_fields(4)[OF g2(2)] by (simp add: live_def)
  then show ?thesis using g1 g2 same_play_sound(2)[OF g2(2)] by simp
qed

lemma on_key_live:
  assumes "live g"
  shows "\<exists>g'. on_key key g = Some g' \<and> live g' \<and> moves_left g' = moves_left g"
  using push_after[of ship_left g] push_after[of ship_right g] push_after[of make_ship_shoot g]
    ship_left_live[OF assms] ship_right_live[OF assms] make_ship_shoot_live[OF assms] assms
  by (cases key) (auto simp: on_key_def)

lemma on_time_idle: "\<not> turn_due g \<Longrightarrow> \<exists>g'. on_time g = Some g' \<and> same_play g g'"
  by (simp add: turn_due_def on_time_def gettime_def Let_def)

lemma on_time_turn:
  assumes "live g" "turn_due g"
  shows "\<exists>g'. on_time g = Some g' \<and> sound g' \<and> moves_left g' = moves_left g - 1"
proof -
  let ?g = "g\<lparr>clk_reads := clk_reads g + 1\<rparr>"
  have same: "same_play g ?g" by simp
  have s: "sound ?g" "moves_left ?g = moves_left g" "x_aliens ?g \<le> 17"
    using same_play_sound[OF same] assms(1) by (simp_all add: live_def)
  obtain g1 where g1: "ia_move ?g = Some g1" "game_ok g1" "moves_left g1 = moves_left ?g - 1" "alloc_at g1 = alloc_at ?g"
    using ia_move_kept[OF _ s(3)] s(1) by (auto simp: sound_def)
  have s1: "sound g1" using g1(2,4) s(1) by (simp add: sound_def)
  obtain g2 where g2: "thread_push g1 = Some g2" "same_play g1 g2" using thread_push_same s1 by (auto simp: sound_def)
  let ?g3 = "g2\<lparr>clk_reads := clk_reads g2 + 1, t0 := clk g2 (clk_reads g2)\<rparr>"
  have "same_play g1 ?g3" using g2(2) by simp
  note s3 = same_play_sound[OF this]
  have "on_time g = Some ?g3"
    using assms(2) g1(1) g2(1) by (simp add: turn_due_def on_time_def gettime_def Let_def)
  then show ?thesis using s3 s1 g1(3) s(2) by simp
qed

lemma play_run:
  assumes "sound g" "0 \<le> moves_left g"
  shows "\<exists>g'. play keys g = Some g' \<and> sound g' \<and> moves_left g' = moves_left g - int (turns_taken keys g) \<and> 0 \<le> moves_left g'"
  using assms
proof (induction keys arbitrary: g)
  case (Cons key keys)
  show ?case
  proof (cases "LOSE g = 0 \<and> WIN g = 0")
    case False
    then show ?thesis using Cons.prems by (cases "LOSE g = 0") simp_all
  next
    case True
    then have live: "live g" using live_if_not_lost Cons.prems(1) by blast
    obtain g1 where g1: "on_key key g = Some g1" "live g1" "moves_left g1 = moves_left g"
      using on_key_live[OF live] by blast
    have "\<exists>g2. on_time g1 = Some g2 \<and> sound g2 \<and> moves_left g2 = moves_left g - (if turn_due g1 then 1 else 0)"
    proof (cases "turn_due g1")
      case True
      then show ?thesis using on_time_turn[OF g1(2)] g1(3) by simp
    next
      case False
      then obtain g2 where g2: "on_time g1 = Some g2" "same_play g1 g2" using on_time_idle by blast
      then show ?thesis using same_play_sound[OF g2(2)] g1(2,3) False by (simp add: live_def)
    qed
    then obtain g2 where g2: "on_time g1 = Some g2" "sound g2" "moves_left g2 = moves_left g - (if turn_due g1 then 1 else 0)"
      by blast
    have "1 \<le> moves_left g" using live moves_left_pos by (simp add: live_def sound_def)
    then have "0 \<le> moves_left g2" using g2(3) by simp
    from Cons.IH[OF g2(2) this] show ?thesis using True g1(1) g2 by auto
  qed
qed simp

section \<open>Before and after the main loop\<close>

text \<open>A frame drawn on a fresh page and queued: the shape of every thread that shows something.\<close>

lemma show_same:
  assumes "\<forall>n. alloc_at g n \<noteq> -1"
    and "\<And>m h. m \<noteq> -1 \<Longrightarrow> \<exists>h'. draw m h = Some h' \<and> drawn m h h'"
  shows "\<exists>g'. do { let (mat, g) = alloc g; g \<leftarrow> draw mat g; Some (g\<lparr>frames := push_frame mat (frames g)\<rparr>) } = Some g'
     \<and> same_play g g'"
proof -
  let ?m = "alloc_at g (allocs g)" and ?g = "g\<lparr>allocs := allocs g + 1\<rparr>"
  obtain h where h: "draw ?m ?g = Some h" "drawn ?m ?g h" using assms(2)[of ?m ?g] assms(1) by auto
  have "same_play g ?g" by simp
  then have "same_play g h" using drawn_same_play[OF h(2)] same_play_trans by blast
  then show ?thesis using h(1) by (simp add: alloc_def)
qed

lemma art_on_page: "list_all (\<lambda>(i, segs). list_all (\<lambda>(bg, cols). list_all (\<lambda>j. 80 * i + j < 2048) cols) segs) welcome_art"
  by (simp add: welcome_art_def)

lemma welcome_same:
  assumes "\<forall>n. alloc_at g n \<noteq> -1"
  shows "\<exists>g'. welcome_screen g = Some g' \<and> same_play g g'"
proof -
  let ?blank = "concat (map (\<lambda>i. map (\<lambda>j. (80 * i + j, stos (chr CHR '' '') BLACKFLASBG)) [0..<80]) [0..<25])"
  let ?art = "concat (map (\<lambda>(i, segs). concat (map (\<lambda>(bg, cols).
            map (\<lambda>j. (80 * i + j, stos (chr CHR '' '') bg)) cols) segs)) welcome_art)"
  have b: "list_all (\<lambda>kv. fst kv < 2048) ?blank" unfolding list_all_iff by (auto simp del: upt_rec_numeral)
  have a: "list_all (\<lambda>kv. fst kv < 2048) ?art" using art_on_page unfolding list_all_iff by fastforce
  have "\<exists>h'. (do { h \<leftarrow> put_shorts m ?blank h; put_shorts m ?art h }) = Some h' \<and> drawn m h h'" if m: "m \<noteq> -1" for m h
  proof -
    obtain h1 where h1: "put_shorts m ?blank h = Some h1" "drawn m h h1" using put_shorts_drawn[OF m b, of h h] by auto
    then show ?thesis using put_shorts_drawn[OF m a h1(2)] by simp
  qed
  from show_same[OF assms this] show ?thesis by (simp add: welcome_screen_def)
qed

lemma banner_same:
  assumes "\<forall>n. alloc_at g n \<noteq> -1" "length s \<le> 40"
  shows "\<exists>g'. do { let (mat, g) = alloc g; g \<leftarrow> board_to_screen mat g; g \<leftarrow> put_shorts mat (banner s) g;
     Some (g\<lparr>frames := push_frame mat (frames g)\<rparr>) } = Some g' \<and> same_play g g'"
proof -
  have b: "list_all (\<lambda>kv. fst kv < 2048) (banner s)" using assms(2) by (auto simp: banner_def list_all_iff)
  have "\<exists>h'. (do { h \<leftarrow> board_to_screen m h; put_shorts m (banner s) h }) = Some h' \<and> drawn m h h'" if m: "m \<noteq> -1" for m h
  proof -
    obtain h1 where h1: "board_to_screen m h = Some h1" "drawn m h h1" using board_to_screen_drawn[OF m, of h h] by auto
    then show ?thesis using put_shorts_drawn[OF m b h1(2)] by simp
  qed
  from show_same[OF assms(1) this] show ?thesis by simp
qed

lemma verdict_same:
  assumes "\<forall>n. alloc_at g n \<noteq> -1"
  shows "\<exists>g'. verdict g = Some g' \<and> same_play g g'"
  using banner_same[OF assms, of "''GAME OVER''"] banner_same[OF assms, of "''YOU WIN''"]
  unfolding verdict_def game_over_def game_win_def by simp

lemma delay_same:
  assumes "clk_reads g \<le> n" "360 \<le> sint (clk g n)"
  shows "\<exists>g'. delay g = Some g' \<and> same_play g g'"
  using assms
proof (induction "n - clk_reads g" arbitrary: g)
  case 0
  then have "clk_reads g = n" by simp
  then show ?case using 0 by (subst delay.simps) (simp add: gettime_def SEG_ZEOS_def)
next
  case (Suc k)
  let ?g = "g\<lparr>clk_reads := clk_reads g + 1\<rparr>"
  have "k = n - clk_reads ?g" "clk_reads ?g \<le> n" "360 \<le> sint (clk ?g n)" using Suc by simp_all
  then obtain g' where "delay ?g = Some g'" "same_play ?g g'" using Suc.hyps(1) by blast
  moreover have "same_play g ?g" by simp
  ultimately have "delay ?g = Some g'" "same_play g g'" using same_play_trans by blast+
  then show ?case by (subst delay.simps) (simp add: gettime_def)
qed

text \<open>The board at the start, built while nothing was played.\<close>

lemma opening_board:
  assumes "\<forall>n. addresses n \<noteq> -1" "same_play (loaded clock addresses memory) g"
  shows "\<exists>g'. init_board g = Some g' \<and> sound g' \<and> moves_left g' = 420 \<and> LOSE g' = 0 \<and> WIN g' = 0 \<and> unshown g g'"
proof -
  let ?g = "g\<lparr>board := start_cells (\<lambda>i j. 0 \<le> i \<and> i \<le> 24 \<and> 0 \<le> j \<and> j \<le> 79)\<rparr>"
  note f = same_play_fields[OF assms(2)]
  have "init_board g = Some ?g"
    by (rule init_board_run) (simp_all add: f loaded_def NUM_COLUMNS_user_def)
  moreover have "sound ?g" "moves_left ?g = 420"
    using start_arena assms(1)
    by (simp_all add: sound_def game_ok_def field_ok_def dir_ok_def moves_left_def f loaded_def NUM_COLUMNS_user_def)
  moreover have "LOSE ?g = 0" "WIN ?g = 0" "unshown g ?g" by (simp_all add: f loaded_def unshown_def)
  ultimately show ?thesis by blast
qed

lemma setup_run:
  assumes "\<forall>n. addresses n \<noteq> -1" "\<forall>m. \<exists>n\<ge>m. 360 \<le> sint (clock n)"
  shows "\<exists>g. setup_game (loaded clock addresses memory) = Some g \<and> sound g \<and> moves_left g = 420 \<and> LOSE g = 0 \<and> WIN g = 0"
proof -
  let ?g0 = "loaded clock addresses memory"
  have l: "alloc_at ?g0 = addresses" "clk ?g0 = clock" by (simp_all add: loaded_def)
  obtain g1 where g1: "welcome_screen ?g0 = Some g1" "same_play ?g0 g1" using welcome_same[of ?g0] assms(1) l by auto
  note f1 = same_play_fields[OF g1(2)]
  obtain g2 where g2: "delay g1 = Some g2" "same_play g1 g2" using delay_same[of g1] assms(2) f1(13) l by fastforce
  obtain g3 where g3: "init_board g2 = Some g3" "sound g3" "moves_left g3 = 420" "LOSE g3 = 0" "WIN g3 = 0"
    using opening_board[OF assms(1) same_play_trans[OF g1(2) g2(2)]] by blast
  obtain g4 where g4: "thread_push g3 = Some g4" "same_play g3 g4" using thread_push_same g3(2) by (auto simp: sound_def)
  have "setup_game ?g0 = Some g4" using g1(1) g2(1) g3(1) g4(1) by (simp add: setup_game_def)
  then show ?thesis using g3(2-5) same_play_sound[OF g4(2)] same_play_fields(2,3)[OF g4(2)] by simp
qed

section \<open>Whole games\<close>



text \<open>
  C10: The game ends. From the state the program is loaded with, whatever keys are pressed and
  however the clock runs, the rounds of the main loop move the aliens at most 420 times; when they
  have moved 420 times the aliens have landed, \<open>LOSE\<close> is set and no further round does anything. Each
  round in which the time of a turn has come moves them once, and a key never gives a turn back.
\<close>

theorem game_over_within_420_turns:
  assumes "\<forall>n. addresses n \<noteq> -1" "\<forall>m. \<exists>n\<ge>m. 360 \<le> sint (clock n)"
  shows "\<exists>g1 g2. setup_game (loaded clock addresses memory) = Some g1 \<and> play keys g1 = Some g2
     \<and> turns_taken keys g1 \<le> 420 \<and> (turns_taken keys g1 = 420 \<longrightarrow> LOSE g2 = 1 \<and> play later g2 = Some g2)
     \<and> moves_left g2 = 420 - int (turns_taken keys g1)"
proof -
  obtain g1 where g1: "setup_game (loaded clock addresses memory) = Some g1" "sound g1" "moves_left g1 = 420"
    using setup_run[OF assms] by blast
  obtain g2 where g2: "play keys g1 = Some g2" "sound g2" "moves_left g2 = 420 - int (turns_taken keys g1)" "0 \<le> moves_left g2"
    using play_run[OF g1(2), of keys] g1(3) by auto
  have "LOSE g2 = 1" if "turns_taken keys g1 = 420"
  proof (rule ccontr)
    assume "LOSE g2 \<noteq> 1"
    then have "LOSE g2 = 0" using g2(2) by (simp add: sound_def game_ok_def field_ok_def)
    then have "1 \<le> moves_left g2" using g2(2) live_if_not_lost moves_left_pos by (simp add: live_def sound_def)
    then show False using g2(3) that by simp
  qed
  moreover have "play later g2 = Some g2" if "LOSE g2 = 1" using that by (cases later) simp_all
  ultimately show ?thesis using g1(1) g2 by auto
qed

theorem game_over_within_420_turns_witness:
  "\<exists>g1 g2. setup_game (loaded (\<lambda>_. 360) (\<lambda>_. 0x11C000) (\<lambda>_ _. 0)) = Some g1
     \<and> play [None, Some (chr CHR ''d'')] g1 = Some g2 \<and> turns_taken [None, Some (chr CHR ''d'')] g1 \<le> 420"
proof -
  have "\<forall>n::nat. (0x11C000 :: DWord) \<noteq> -1" "\<forall>m::nat. \<exists>n\<ge>m. 360 \<le> sint (360 :: DWord)" by auto
  from game_over_within_420_turns[OF this, of "\<lambda>_ _. 0" "[None, Some (chr CHR ''d'')]"]
  show ?thesis by blast
qed

end
