(* ===== verification/Game_Screens.thy ===== *)
theory Game_Screens
  imports Game_Play
begin

text \<open>
  The screens of the game: what each frame the program queues shows in rows 1 to 24, be it the title,
  the board or a verdict, and that drawing it on a page makes the page show it.
\<close>

declare upt_rec_numeral [simp del]

section \<open>Screens\<close>

text \<open>What a frame shows: the title, the board at the start, after a key and after a turn, the verdict.\<close>

datatype screen = Title | Opening | Answer | Turn | Lost | Won

definition title_ground :: "(nat \<times> Word16) list" where
  "title_ground = concat (map (\<lambda>i. map (\<lambda>j. (80 * i + j, stos (chr CHR '' '') BLACKFLASBG)) [0..<80]) [0..<25])"

definition title_art :: "(nat \<times> Word16) list" where
  "title_art = concat (map (\<lambda>(i, segs). concat (map (\<lambda>(bg, cols).
     map (\<lambda>j. (80 * i + j, stos (chr CHR '' '') bg)) cols) segs)) welcome_art)"

definition draw :: "screen \<Rightarrow> DWord \<Rightarrow> game \<Rightarrow> game option" where
  "draw k mat g =
     (case k of
        Title \<Rightarrow> do { g \<leftarrow> put_shorts mat title_ground g; put_shorts mat title_art g }
      | Lost \<Rightarrow> do { g \<leftarrow> board_to_screen mat g; put_shorts mat (banner ''GAME OVER'') g }
      | Won \<Rightarrow> do { g \<leftarrow> board_to_screen mat g; put_shorts mat (banner ''YOU WIN'') g }
      | _ \<Rightarrow> board_to_screen mat g)"

text \<open>The critical sections of \<open>main\<close>, run in one go.\<close>

definition framed :: "screen \<Rightarrow> game \<Rightarrow> game option" where
  "framed k g = do { let (mat, g) = alloc g; g \<leftarrow> draw k mat g; Some (g\<lparr>frames := push_frame mat (frames g)\<rparr>) }"

lemma frame_sections:
  "welcome_screen = framed Title" "game_over = framed Lost" "game_win = framed Won"
  "k \<in> {Opening, Answer, Turn} \<Longrightarrow> thread_push = framed k"
  by (auto simp: fun_eq_iff framed_def draw_def welcome_screen_def title_ground_def title_art_def game_over_def game_win_def
      thread_push_def)

section \<open>The posters\<close>

text \<open>Rows 1 to 24 of a screen: the board, or the ground of the title, with what is written over it.\<close>

definition write_all :: "(nat \<times> Word16) list \<Rightarrow> (nat \<Rightarrow> Word16) \<Rightarrow> nat \<Rightarrow> Word16" where
  "write_all kvs p = fold (\<lambda>(k, v) p. p(k := v)) kvs p"

definition overlay :: "screen \<Rightarrow> (nat \<times> Word16) list" where
  "overlay k = (case k of Title \<Rightarrow> title_art | Lost \<Rightarrow> banner ''GAME OVER'' | Won \<Rightarrow> banner ''YOU WIN'' | _ \<Rightarrow> [])"

definition ground :: "screen \<Rightarrow> board \<Rightarrow> nat \<Rightarrow> Word16" where
  "ground k b = (if k = Title then (\<lambda>_. stos (chr CHR '' '') BLACKFLASBG)
     else (\<lambda>n. cell_code (b (int (n div 80)) (int (n mod 80)))))"

definition poster :: "screen \<Rightarrow> board \<Rightarrow> Word16 list" where
  "poster k b = shown (write_all (overlay k) (ground k b))"

lemma write_all_simps [simp]:
  "write_all [] p = p" "write_all (kv # kvs) p = write_all kvs (p(fst kv := snd kv))"
  by (simp_all add: write_all_def split: prod.split)

lemma poster_board: "k \<in> {Opening, Answer, Turn} \<Longrightarrow> poster k b = picture b"
  by (auto simp: poster_def overlay_def ground_def shown_def picture_def)

lemma put_shorts_page: "put_shorts m kvs g = Some g' \<Longrightarrow> pages g' m = write_all kvs (pages g m)"
proof (induction kvs arbitrary: g)
  case (Cons kv kvs)
  then show ?case
    by (cases kv) (auto simp: put_shorts_def put_short_def fun_upd_def split: if_splits bind_splits)
qed (simp add: put_shorts_def)

lemma write_all_local: "p n = q n \<Longrightarrow> write_all kvs p n = write_all kvs q n"
proof (induction kvs arbitrary: p q)
  case (Cons kv kvs)
  have "(p(fst kv := snd kv)) n = (q(fst kv := snd kv)) n" using Cons.prems by simp
  then show ?case unfolding write_all_simps by (rule Cons.IH)
qed simp

lemma shown_write_all: "shown p = shown q \<Longrightarrow> shown (write_all kvs p) = shown (write_all kvs q)"
  unfolding shown_def map_eq_conv by (blast intro: write_all_local)

lemma write_all_const:
  "(\<And>kv. kv \<in> set kvs \<Longrightarrow> snd kv = c) \<Longrightarrow> n \<in> fst ` set kvs \<or> p n = c \<Longrightarrow> write_all kvs p n = c"
  by (induction kvs arbitrary: p) auto

lemma title_ground_shown: "shown (write_all title_ground p) = shown (\<lambda>_. stos (chr CHR '' '') BLACKFLASBG)"
  unfolding shown_def
proof (intro map_cong refl write_all_const disjI1)
  fix n :: nat assume "n \<in> set [80..<2000]"
  then have "n div 80 \<in> set [0..<25]" "n mod 80 \<in> set [0..<80]" "80 * (n div 80) + n mod 80 = n" by auto
  then have "(n, stos (chr CHR '' '') BLACKFLASBG) \<in> set title_ground"
    unfolding title_ground_def set_concat set_map by (force simp: image_iff simp del: set_upt)
  then show "n \<in> fst ` set title_ground" by force
qed (auto simp: title_ground_def)

lemma title_on_page: "list_all (\<lambda>kv. fst kv < 2048) title_ground" "list_all (\<lambda>kv. fst kv < 2048) title_art"
proof -
  show "list_all (\<lambda>kv. fst kv < 2048) title_ground" unfolding title_ground_def list_all_iff by (auto simp del: upt_rec_numeral)
  show "list_all (\<lambda>kv. fst kv < 2048) title_art" using art_on_page unfolding title_art_def list_all_iff by fastforce
qed

lemma title_drawn:
  assumes "m \<noteq> -1"
  shows "\<exists>g'. draw Title m g = Some g' \<and> drawn m g g' \<and> shown (pages g' m) = poster Title (board g)"
proof -
  obtain g1 where g1: "put_shorts m title_ground g = Some g1" "drawn m g g1"
    using put_shorts_drawn[OF assms title_on_page(1), of g g] by auto
  obtain g2 where g2: "put_shorts m title_art g1 = Some g2" "drawn m g g2"
    using put_shorts_drawn[OF assms title_on_page(2) g1(2)] by blast
  have "shown (pages g2 m) = poster Title (board g)"
    unfolding put_shorts_page[OF g2(1)] put_shorts_page[OF g1(1)] poster_def
    by (simp add: overlay_def ground_def shown_write_all[OF title_ground_shown])
  then show ?thesis using g1(1) g2 by (simp add: draw_def)
qed

lemma banner_drawn:
  assumes "m \<noteq> -1" "length s \<le> 40" "k \<noteq> Title"
  shows "\<exists>g'. do { h \<leftarrow> board_to_screen m g; put_shorts m (banner s) h } = Some g' \<and> drawn m g g'
     \<and> shown (pages g' m) = shown (write_all (banner s) (ground k (board g)))"
proof -
  have b: "list_all (\<lambda>kv. fst kv < 2048) (banner s)" using assms(2) by (auto simp: banner_def list_all_iff)
  obtain g1 where g1: "board_to_screen m g = Some g1" "drawn m g g1" "shown (pages g1 m) = picture (board g)"
    using board_to_screen_drawn[OF assms(1), of g g] by auto
  obtain g2 where g2: "put_shorts m (banner s) g1 = Some g2" "drawn m g g2" using put_shorts_drawn[OF assms(1) b g1(2)] by blast
  have "shown (pages g1 m) = shown (ground k (board g))" using g1(3) assms(3) by (simp add: ground_def shown_def picture_def)
  then have "shown (pages g2 m) = shown (write_all (banner s) (ground k (board g)))"
    unfolding put_shorts_page[OF g2(1)] by (rule shown_write_all)
  then show ?thesis using g1(1) g2 by simp
qed

lemma draw_shows:
  assumes "m \<noteq> -1"
  shows "\<exists>g'. draw k m g = Some g' \<and> drawn m g g' \<and> shown (pages g' m) = poster k (board g)"
proof -
  consider "k = Title" | "k = Lost" | "k = Won" | (board) "k \<in> {Opening, Answer, Turn}" by (cases k) auto
  then show ?thesis
  proof cases
    case board
    then have "draw k m g = board_to_screen m g" by (auto simp: draw_def)
    then show ?thesis using board_to_screen_drawn[OF assms, of g g] poster_board[OF board] by simp
  next
    case 1
    then show ?thesis using title_drawn[OF assms] by simp
  next
    case 2
    show ?thesis unfolding 2 draw_def poster_def overlay_def screen.case by (rule banner_drawn[OF assms]) simp_all
  next
    case 3
    show ?thesis unfolding 3 draw_def poster_def overlay_def screen.case by (rule banner_drawn[OF assms]) simp_all
  qed
qed

end
