(* ===== verification/Game_Threads.thy ===== *)
theory Game_Threads
  imports Game_Screens Sem_Spec
begin

text \<open>
  The two threads of the game, interleaved. \<open>main\<close> and \<open>thread_dump\<close> run as two programs over one
  state, and a clock interrupt may pass the processor from one to the other between any two steps.
  They share the pages and the queue of frames, which semaphore 0 protects; the semaphore is the one
  the kernel promises (\<open>take_unit\<close> and \<open>give_unit\<close> of \<^theory_text>\<open>Sem_Spec\<close>). Every call between
  \<open>sem_wait(0)\<close> and \<open>sem_signal(0)\<close> is a step of its own.
\<close>

section \<open>The programs of the two threads\<close>

datatype thread = Player | Shower

datatype main_pc =
    Wait screen | Alloc screen | Draw screen DWord | Push screen DWord | Signal screen
  | Delay | Make_board | Key | Time | Stamp | Halt

datatype dump_pc = D_wait | D_read | D_show DWord | D_free DWord | D_signal

text \<open>
  The state: where the threads are, semaphore 0, the variables and pages they share, and for the
  statements below what was queued and taken and what each round of \<open>thread_dump\<close> showed.
\<close>

record threads =
  main_at :: main_pc
  dump_at :: dump_pc
  mutex :: "int \<times> thread list"
  shared :: game
  history :: "Word16 list ring_op list"
  screens :: "Word16 list option list"

definition waits :: "thread \<Rightarrow> threads \<Rightarrow> bool" where
  "waits i t \<longleftrightarrow> i \<in> set (snd (mutex t))"

text \<open>Where \<open>main\<close> goes on after a frame.\<close>

definition after :: "screen \<Rightarrow> main_pc" where
  "after k = (case k of Title \<Rightarrow> Delay | Opening \<Rightarrow> Key | Answer \<Rightarrow> Time | Turn \<Rightarrow> Stamp | _ \<Rightarrow> Halt)"

definition key_move :: "Byte option \<Rightarrow> game \<Rightarrow> game option" where
  "key_move key g =
     (if key = Some (chr CHR ''a'') then ship_left g
      else if key = Some (chr CHR ''d'') then ship_right g
      else if key = Some (chr CHR ''w'') then make_ship_shoot g
      else Some g)"

definition key_draws :: "Byte option \<Rightarrow> bool" where
  "key_draws key \<longleftrightarrow> key \<in> {Some (chr CHR ''a''), Some (chr CHR ''d''), Some (chr CHR ''w'')}"

lemma on_key_moves:
  "on_key key g = do { g \<leftarrow> key_move key g; if key_draws key then thread_push g else Some g }"
  by (cases key) (auto simp: on_key_def key_move_def key_draws_def split: bind_splits)

text \<open>A step of a thread; \<^const>\<open>None\<close> when it cannot go on.\<close>

definition main_step :: "Byte option \<Rightarrow> threads \<Rightarrow> threads option" where
  "main_step key t =
     (if waits Player t then None
      else let g = shared t in case main_at t of
        Wait k \<Rightarrow> (case take_unit Player (mutex t) of (took, m) \<Rightarrow>
          Some (t\<lparr>mutex := m, main_at := if took then Alloc k else Wait k\<rparr>))
      | Alloc k \<Rightarrow> (case alloc g of (mat, g) \<Rightarrow> Some (t\<lparr>shared := g, main_at := Draw k mat\<rparr>))
      | Draw k mat \<Rightarrow> do { g \<leftarrow> draw k mat g; Some (t\<lparr>shared := g, main_at := Push k mat\<rparr>) }
      | Push k mat \<Rightarrow> Some (t\<lparr>shared := g\<lparr>frames := push_frame mat (frames g)\<rparr>,
          history := history t @ [Put (poster k (board g))], main_at := Signal k\<rparr>)
      | Signal k \<Rightarrow> (case give_unit (mutex t) of (woken, m) \<Rightarrow>
          Some (t\<lparr>mutex := m, main_at := after k, dump_at := if woken = Some Shower then D_read else dump_at t\<rparr>))
      | Delay \<Rightarrow> (case gettime g of (now, g) \<Rightarrow>
          Some (t\<lparr>shared := g, main_at := if sint now < SEG_ZEOS * 20 then Delay else Make_board\<rparr>))
      | Make_board \<Rightarrow> do { g \<leftarrow> init_board g; Some (t\<lparr>shared := g, main_at := Wait Opening\<rparr>) }
      | Key \<Rightarrow>
          if LOSE g = 0 \<and> WIN g = 0
          then do { g \<leftarrow> key_move key g; Some (t\<lparr>shared := g, main_at := if key_draws key then Wait Answer else Time\<rparr>) }
          else Some (t\<lparr>main_at := Wait (if LOSE g \<noteq> 0 then Lost else Won)\<rparr>)
      | Time \<Rightarrow> (case gettime g of (now, g) \<Rightarrow>
          if SEG < sint (now - t0 g) then do { g \<leftarrow> ia_move g; Some (t\<lparr>shared := g, main_at := Wait Turn\<rparr>) }
          else Some (t\<lparr>shared := g, main_at := Key\<rparr>))
      | Stamp \<Rightarrow> (case gettime g of (now, g) \<Rightarrow> Some (t\<lparr>shared := g\<lparr>t0 := now\<rparr>, main_at := Key\<rparr>))
      | Halt \<Rightarrow> Some t)"

definition dump_step :: "threads \<Rightarrow> threads option" where
  "dump_step t =
     (if waits Shower t then None
      else let g = shared t in case dump_at t of
        D_wait \<Rightarrow> (case take_unit Shower (mutex t) of (took, m) \<Rightarrow>
          Some (t\<lparr>mutex := m, dump_at := if took then D_read else D_wait\<rparr>))
      | D_read \<Rightarrow> (case read_frame (frames g) of (tmp, r) \<Rightarrow>
          Some (t\<lparr>shared := g\<lparr>frames := r\<rparr>, history := history t @ [Take],
            screens := if tmp \<noteq> 0 then screens t else screens t @ [None],
            dump_at := if tmp \<noteq> 0 then D_show tmp else D_signal\<rparr>))
      | D_show tmp \<Rightarrow> Some (t\<lparr>shared := g\<lparr>total_frames := total_frames g + 1\<rparr>,
          screens := screens t @ [Some (shown (pages g tmp))], dump_at := D_free tmp\<rparr>)
      | D_free tmp \<Rightarrow> Some (t\<lparr>dump_at := D_signal\<rparr>)
      | D_signal \<Rightarrow> (case give_unit (mutex t) of (woken, m) \<Rightarrow>
          Some (t\<lparr>mutex := m, dump_at := D_wait,
            main_at := (case (woken, main_at t) of (Some Player, Wait k) \<Rightarrow> Alloc k | _ \<Rightarrow> main_at t)\<rparr>)))"

text \<open>
  The states the program may reach from its start, whatever the keys, however long each thread keeps
  the processor, and as long as \<open>alloc\<close> keeps its contract: the page it gives is not NULL, not -1
  and none of those whose frames wait.
\<close>

definition started :: "(nat \<Rightarrow> DWord) \<Rightarrow> (nat \<Rightarrow> DWord) \<Rightarrow> (DWord \<Rightarrow> nat \<Rightarrow> Word16) \<Rightarrow> threads" where
  "started clock addresses memory = \<lparr>main_at = Wait Title, dump_at = D_wait, mutex = (1, []),
     shared = loaded clock addresses memory, history = [], screens = []\<rparr>"

definition alloc_keeps_contract :: "threads \<Rightarrow> bool" where
  "alloc_keeps_contract t \<longleftrightarrow> (case main_at t of Alloc k \<Rightarrow> page_fresh (shared t) | _ \<Rightarrow> True)"

inductive game_run :: "(nat \<Rightarrow> DWord) \<Rightarrow> (nat \<Rightarrow> DWord) \<Rightarrow> (DWord \<Rightarrow> nat \<Rightarrow> Word16) \<Rightarrow> threads \<Rightarrow> bool"
  for clock addresses memory
where
  start: "game_run clock addresses memory (started clock addresses memory)"
| main: "game_run clock addresses memory t \<Longrightarrow> alloc_keeps_contract t \<Longrightarrow> main_step key t = Some t'
     \<Longrightarrow> game_run clock addresses memory t'"
| dump: "game_run clock addresses memory t \<Longrightarrow> dump_step t = Some t' \<Longrightarrow> game_run clock addresses memory t'"

section \<open>The invariant\<close>

fun busy :: "main_pc \<Rightarrow> bool" where
  "busy (Alloc k) = True" | "busy (Draw k m) = True" | "busy (Push k m) = True" | "busy (Signal k) = True"
| "busy _ = False"

definition showing :: "dump_pc \<Rightarrow> bool" where
  "showing d \<longleftrightarrow> d \<noteq> D_wait"

text \<open>One unit: free, or held by a thread for which the other may wait.\<close>

definition lock_ok :: "threads \<Rightarrow> bool" where
  "lock_ok t \<longleftrightarrow>
     mutex t = (1, []) \<and> \<not> busy (main_at t) \<and> \<not> showing (dump_at t)
   \<or> mutex t = (0, []) \<and> busy (main_at t) \<and> \<not> showing (dump_at t)
   \<or> mutex t = (0, []) \<and> \<not> busy (main_at t) \<and> showing (dump_at t)
   \<or> mutex t = (-1, [Player]) \<and> (\<exists>k. main_at t = Wait k) \<and> showing (dump_at t)
   \<or> mutex t = (-1, [Shower]) \<and> busy (main_at t) \<and> dump_at t = D_wait"

text \<open>What \<open>main\<close> knows of the board, by the frame it makes and by where it is.\<close>

definition frame_ok :: "game \<Rightarrow> screen \<Rightarrow> game \<Rightarrow> bool" where
  "frame_ok g0 k g \<longleftrightarrow> (case k of Title \<Rightarrow> same_play g0 g | Answer \<Rightarrow> live g | _ \<Rightarrow> sound g)"

fun stage_ok :: "game \<Rightarrow> main_pc \<Rightarrow> game \<Rightarrow> bool" where
  "stage_ok g0 (Wait k) g = frame_ok g0 k g" | "stage_ok g0 (Alloc k) g = frame_ok g0 k g"
| "stage_ok g0 (Draw k m) g = frame_ok g0 k g" | "stage_ok g0 (Push k m) g = frame_ok g0 k g"
| "stage_ok g0 (Signal k) g = frame_ok g0 k g" | "stage_ok g0 Delay g = same_play g0 g"
| "stage_ok g0 Make_board g = same_play g0 g" | "stage_ok g0 Time g = live g" | "stage_ok g0 _ g = sound g"

text \<open>The page \<open>main\<close> draws on is no waiting one, and is drawn when it is pushed.\<close>

fun page_ok :: "main_pc \<Rightarrow> game \<Rightarrow> bool" where
  "page_ok (Draw k m) g = (m \<notin> {0, -1} \<union> set (frame_contents (frames g)))"
| "page_ok (Push k m) g = (m \<notin> {0, -1} \<union> set (frame_contents (frames g)) \<and> shown (pages g m) = poster k (board g))"
| "page_ok _ g = True"

text \<open>The picture \<open>thread_dump\<close> has taken and not yet shown.\<close>

definition in_hand :: "threads \<Rightarrow> Word16 list option list" where
  "in_hand t = (case dump_at t of D_show m \<Rightarrow> [Some (shown (pages (shared t) m))] | _ \<Rightarrow> [])"

lemma in_hand_upd [simp]:
  "in_hand (t\<lparr>main_at := pc\<rparr>) = in_hand t" "in_hand (t\<lparr>mutex := m\<rparr>) = in_hand t" "in_hand (t\<lparr>history := h\<rparr>) = in_hand t"
  "in_hand (t\<lparr>screens := ss\<rparr>) = in_hand t" "pages g = pages (shared t) \<Longrightarrow> in_hand (t\<lparr>shared := g\<rparr>) = in_hand t"
  by (cases "dump_at t"; simp add: in_hand_def)+

definition queue_kept :: "threads \<Rightarrow> bool" where
  "queue_kept t \<longleftrightarrow> queue_ok (shared t)
     \<and> run_ops (spec_push FRAME_BUFF_SIZE) spec_pop (history t) [] = (screens t @ in_hand t, pictures (shared t))"

definition threads_ok :: "game \<Rightarrow> threads \<Rightarrow> bool" where
  "threads_ok g0 t \<longleftrightarrow> lock_ok t \<and> stage_ok g0 (main_at t) (shared t) \<and> page_ok (main_at t) (shared t) \<and> queue_kept t"

lemma same_play_left: "same_play g g' \<Longrightarrow> same_play g0 g' = same_play g0 g"
  by (simp add: same_play_def)

lemma stage_same:
  assumes "same_play g g'"
  shows "stage_ok g0 pc g' = stage_ok g0 pc g" "frame_ok g0 k g' = frame_ok g0 k g"
proof -
  have l: "live g' = live g" by (simp add: live_def same_play_sound[OF assms] same_play_fields[OF assms])
  show f: "frame_ok g0 k g' = frame_ok g0 k g" for k
    by (cases k) (simp_all add: frame_ok_def l same_play_left[OF assms] same_play_sound[OF assms])
  show "stage_ok g0 pc g' = stage_ok g0 pc g"
    by (cases pc) (simp_all add: l f same_play_left[OF assms] same_play_sound[OF assms])
qed

text \<open>A step of \<open>main\<close> outside its sections: the semaphore and the queue stay.\<close>

lemma aside:
  assumes "threads_ok g0 t" "\<not> busy (main_at t)" "\<nexists>k. main_at t = Wait k" "\<not> busy pc" "unshown (shared t) g" "stage_ok g0 pc g"
  shows "threads_ok g0 (t\<lparr>shared := g, main_at := pc\<rparr>)"
proof -
  have f: "frames g = frames (shared t)" "pages g = pages (shared t)" using assms(5) by (simp_all add: unshown_def)
  have "lock_ok (t\<lparr>shared := g, main_at := pc\<rparr>)" using assms(1-4) by (auto simp: threads_ok_def lock_ok_def)
  moreover have "page_ok pc g" using assms(4) by (cases pc) simp_all
  moreover have "queue_kept (t\<lparr>shared := g, main_at := pc\<rparr>)"
    using assms(1) f by (simp add: threads_ok_def queue_kept_def queue_ok_def pictures_def)
  ultimately show ?thesis using assms(6) by (simp add: threads_ok_def)
qed

lemma unshown_upd [simp]:
  "unshown g g" "unshown g (g'\<lparr>clk_reads := n\<rparr>) = unshown g g'" "unshown g (g'\<lparr>t0 := x\<rparr>) = unshown g g'"
  "unshown (g\<lparr>clk_reads := n\<rparr>) g' = unshown g g'"
  by (simp_all add: unshown_def)

lemma stage_clk [simp]: "stage_ok g0 pc (g\<lparr>clk_reads := n\<rparr>) = stage_ok g0 pc g" "stage_ok g0 pc (g\<lparr>t0 := x\<rparr>) = stage_ok g0 pc g"
  by (rule stage_same, simp)+

lemma live_clk [simp]: "live (g\<lparr>clk_reads := n\<rparr>) = live g"
  using stage_clk(1)[of undefined Time n g] by (simp only: stage_ok.simps)

lemma key_move_live:
  assumes "live g"
  shows "\<exists>g'. key_move key g = Some g' \<and> live g' \<and> unshown g g'"
  using ship_left_live[OF assms] ship_right_live[OF assms] make_ship_shoot_live[OF assms] assms
  by (auto simp: key_move_def)

lemma ia_move_sound:
  assumes "live g"
  shows "\<exists>g'. ia_move g = Some g' \<and> sound g' \<and> unshown g g'"
  using ia_move_kept[of g] assms by (auto simp: live_def sound_def unshown_def)

lemma key_step:
  assumes "threads_ok g0 t" "main_at t = Key" "\<not> waits Player t"
  shows "\<exists>t'. main_step key t = Some t' \<and> threads_ok g0 t'"
proof -
  let ?g = "shared t"
  have go: "threads_ok g0 (t\<lparr>shared := g, main_at := pc\<rparr>)" if "\<not> busy pc" "unshown ?g g" "stage_ok g0 pc g" for g pc
    by (rule aside[OF assms(1) _ _ that]) (simp_all add: assms(2))
  have s: "sound ?g" using assms(1,2) by (simp add: threads_ok_def)
  show ?thesis
  proof (cases "LOSE ?g = 0 \<and> WIN ?g = 0")
    case True
    obtain g where g: "key_move key ?g = Some g" "live g" "unshown ?g g" using key_move_live live_if_not_lost[OF s] True by blast
    then show ?thesis using assms(2,3) True by (auto simp: main_step_def frame_ok_def intro!: go)
  next
    case False
    let ?pc = "Wait (if LOSE ?g \<noteq> 0 then Lost else Won)"
    have "main_step key t = Some (t\<lparr>shared := ?g, main_at := ?pc\<rparr>)" using assms(2,3) False by (simp add: main_step_def)
    moreover have "threads_ok g0 (t\<lparr>shared := ?g, main_at := ?pc\<rparr>)" by (rule go) (use s in \<open>simp_all add: frame_ok_def\<close>)
    ultimately show ?thesis by blast
  qed
qed

lemma main_aside:
  assumes ok: "threads_ok (loaded clock addresses memory) t" and nb: "\<not> busy (main_at t)" and nw: "\<nexists>k. main_at t = Wait k"
    and free: "\<not> waits Player t" and adr: "\<forall>n. addresses n \<noteq> -1"
  shows "\<exists>t'. main_step key t = Some t' \<and> threads_ok (loaded clock addresses memory) t'"
proof -
  let ?start = "loaded clock addresses memory" and ?g = "shared t"
  note go = aside[OF ok nb nw]
  have st: "stage_ok ?start (main_at t) ?g" using ok by (simp add: threads_ok_def)
  show ?thesis
  proof (cases "main_at t")
    case Delay
    then show ?thesis
      using st free by (auto simp: main_step_def gettime_def Let_def intro!: go)
  next
    case Make_board
    then obtain g where g: "init_board ?g = Some g" "sound g" "unshown ?g g"
      using opening_board[OF adr, of clock memory ?g] st by auto
    then show ?thesis using Make_board free by (auto simp: main_step_def frame_ok_def intro!: go)
  next
    case Key
    then show ?thesis by (rule key_step[OF ok _ free])
  next
    case Time
    then have l: "live (?g\<lparr>clk_reads := clk_reads ?g + 1\<rparr>)" using st by simp
    obtain g where g: "ia_move (?g\<lparr>clk_reads := clk_reads ?g + 1\<rparr>) = Some g" "sound g" "unshown ?g g"
      using ia_move_sound[OF l] by auto
    have "stage_ok ?start Key ?g" using st Time by (simp add: live_def)
    then show ?thesis
      using Time free g by (auto simp: main_step_def gettime_def frame_ok_def Let_def intro!: go)
  next
    case Stamp
    then show ?thesis using st free by (auto simp: main_step_def gettime_def Let_def intro!: go)
  next
    case Halt
    then show ?thesis using ok free by (simp add: main_step_def)
  qed (use nb nw in simp_all)
qed

section \<open>The sections\<close>

lemma lockD:
  assumes "lock_ok t"
  shows "busy (main_at t) \<Longrightarrow> dump_at t = D_wait" "busy (main_at t) \<Longrightarrow> \<not> waits Player t"
    "showing (dump_at t) \<Longrightarrow> \<not> busy (main_at t)" "showing (dump_at t) \<Longrightarrow> \<not> waits Shower t"
    "waits Player t \<Longrightarrow> \<exists>k. main_at t = Wait k" "waits Player t \<Longrightarrow> showing (dump_at t)"
    "waits Shower t \<Longrightarrow> busy (main_at t)" "\<not> (waits Player t \<and> waits Shower t)"
  using assms by (auto simp: lock_ok_def waits_def showing_def)

lemma main_waits:
  assumes "threads_ok g0 t" "main_at t = Wait k" "\<not> waits Player t"
  shows "\<exists>t'. main_step key t = Some t' \<and> threads_ok g0 t'"
  using assms
  by (auto simp: main_step_def threads_ok_def lock_ok_def take_unit_def waits_def queue_kept_def)

lemma main_allocs:
  assumes "threads_ok g0 t" "main_at t = Alloc k"
  shows "\<exists>t'. main_step key t = Some t' \<and> (page_fresh (shared t) \<longrightarrow> threads_ok g0 t')"
proof -
  let ?g = "shared t\<lparr>allocs := allocs (shared t) + 1\<rparr>" and ?m = "alloc_at (shared t) (allocs (shared t))"
  have l: "lock_ok t" using assms(1) by (simp add: threads_ok_def)
  have d: "dump_at t = D_wait" "\<not> waits Player t" using lockD(1,2)[OF l] assms(2) by simp_all
  have "main_step key t = Some (t\<lparr>shared := ?g, main_at := Draw k ?m\<rparr>)"
    using assms(2) d(2) by (simp add: main_step_def alloc_def Let_def)
  moreover have "frame_ok g0 k ?g = frame_ok g0 k (shared t)" by (rule stage_same(2)) simp
  ultimately show ?thesis
    using assms d(1) by (auto simp: threads_ok_def lock_ok_def queue_kept_def queue_ok_def pictures_def in_hand_def page_fresh_def)
qed

lemma main_draws:
  assumes "threads_ok g0 t" "main_at t = Draw k m"
  shows "\<exists>t'. main_step key t = Some t' \<and> threads_ok g0 t'"
proof -
  have l: "lock_ok t" and m: "m \<noteq> 0" "m \<noteq> -1" "m \<notin> set (frame_contents (frames (shared t)))"
    using assms by (simp_all add: threads_ok_def)
  have d: "dump_at t = D_wait" "\<not> waits Player t" using lockD(1,2)[OF l] assms(2) by simp_all
  obtain g where g: "draw k m (shared t) = Some g" "drawn m (shared t) g" "shown (pages g m) = poster k (board (shared t))"
    using draw_shows[OF m(2)] by blast
  have "main_step key t = Some (t\<lparr>shared := g, main_at := Push k m\<rparr>)"
    using assms(2) d(2) g(1) by (simp add: main_step_def)
  moreover have "frame_ok g0 k g = frame_ok g0 k (shared t)" by (rule stage_same(2)[OF drawn_same_play[OF g(2)]])
  ultimately show ?thesis
    using assms d(1) m g(3) drawn_pictures[OF g(2) m(3)] drawn_fields(1,2)[OF g(2)]
    by (auto simp: threads_ok_def lock_ok_def queue_kept_def in_hand_def)
qed

lemma main_pushes:
  assumes "threads_ok g0 t" "main_at t = Push k m"
  shows "\<exists>t'. main_step key t = Some t' \<and> threads_ok g0 t'"
proof -
  let ?g = "shared t\<lparr>frames := push_frame m (frames (shared t))\<rparr>"
  have l: "lock_ok t" and q: "queue_ok (shared t)" and m: "m \<noteq> 0" "shown (pages (shared t) m) = poster k (board (shared t))"
    and run: "run_ops (spec_push FRAME_BUFF_SIZE) spec_pop (history t) [] = (screens t @ in_hand t, pictures (shared t))"
    using assms by (simp_all add: threads_ok_def queue_kept_def)
  have d: "dump_at t = D_wait" "\<not> waits Player t" using lockD(1,2)[OF l] assms(2) by simp_all
  have "main_step key t = Some (t\<lparr>shared := ?g, history := history t @ [Put (poster k (board (shared t)))], main_at := Signal k\<rparr>)"
    using assms(2) d(2) by (simp add: main_step_def Let_def)
  moreover have "frame_ok g0 k ?g = frame_ok g0 k (shared t)" by (rule stage_same(2)) simp
  ultimately show ?thesis
    using assms d(1) run push_queues_page[OF q m(1)]
    by (auto simp: threads_ok_def lock_ok_def queue_kept_def in_hand_def run_ops_append m(2))
qed

lemma stage_after: "frame_ok g0 k g \<Longrightarrow> stage_ok g0 (after k) g"
  by (cases k) (simp_all add: after_def frame_ok_def)

lemma after_aside: "\<not> busy (after k)" "after k \<noteq> Wait k'"
  by (cases k; simp add: after_def)+

lemma main_signals:
  assumes "threads_ok g0 t" "main_at t = Signal k"
  shows "\<exists>t'. main_step key t = Some t' \<and> threads_ok g0 t'"
proof -
  have l: "lock_ok t" using assms(1) by (simp add: threads_ok_def)
  have d: "dump_at t = D_wait" "\<not> waits Player t" using lockD(1,2)[OF l] assms(2) by simp_all
  have "page_ok (after k) g" for g by (cases k) (simp_all add: after_def)
  then show ?thesis
    using assms d stage_after[of g0 k "shared t"] after_aside
    by (auto simp: main_step_def threads_ok_def lock_ok_def give_unit_def queue_kept_def in_hand_def showing_def)
qed

lemma main_step_run:
  assumes "threads_ok (loaded clock addresses memory) t" "\<not> waits Player t" "\<forall>n. addresses n \<noteq> -1"
  shows "\<exists>t'. main_step key t = Some t' \<and> (alloc_keeps_contract t \<longrightarrow> threads_ok (loaded clock addresses memory) t')"
proof -
  consider k where "main_at t = Wait k" | k where "main_at t = Alloc k" | k m where "main_at t = Draw k m"
    | k m where "main_at t = Push k m" | k where "main_at t = Signal k" | "\<not> busy (main_at t)" "\<nexists>k. main_at t = Wait k"
    by (cases "main_at t") auto
  then show ?thesis
  proof cases
    case 2
    then show ?thesis using main_allocs[OF assms(1) 2] by (simp add: alloc_keeps_contract_def)
  qed (use main_waits[OF assms(1) _ assms(2)] main_draws[OF assms(1)] main_pushes[OF assms(1)] main_signals[OF assms(1)]
      main_aside[OF assms(1) _ _ assms(2,3)] in blast)+
qed

lemma dump_reads:
  assumes "threads_ok g0 t" "dump_at t = D_read"
  shows "\<exists>t'. dump_step t = Some t' \<and> threads_ok g0 t'"
proof -
  let ?g = "shared t"
  have l: "lock_ok t" and q: "queue_ok ?g"
    and run: "run_ops (spec_push FRAME_BUFF_SIZE) spec_pop (history t) [] = (screens t, pictures ?g)"
    using assms by (simp_all add: threads_ok_def queue_kept_def in_hand_def)
  have d: "\<not> busy (main_at t)" "\<not> waits Shower t" using lockD(3,4)[OF l] assms(2) by (simp_all add: showing_def)
  obtain m r where r: "read_frame (frames ?g) = (m, r)" by fastforce
  let ?t = "t\<lparr>shared := ?g\<lparr>frames := r\<rparr>, history := history t @ [Take], screens := if m \<noteq> 0 then screens t else screens t @ [None],
     dump_at := if m \<noteq> 0 then D_show m else D_signal\<rparr>"
  have s: "dump_step t = Some ?t" using assms(2) d(2) r by (simp add: dump_step_def)
  have "stage_ok g0 (main_at t) (?g\<lparr>frames := r\<rparr>) = stage_ok g0 (main_at t) ?g" by (rule stage_same(1)) simp
  moreover have "page_ok (main_at t) (?g\<lparr>frames := r\<rparr>)" using d(1) by (cases "main_at t") simp_all
  moreover have "lock_ok ?t" using l d(1) assms(2) by (auto simp: lock_ok_def showing_def)
  moreover have "queue_kept ?t"
    using read_takes_oldest[OF q] r q run
    by (cases "pictures ?g") (auto simp: queue_kept_def in_hand_def run_ops_append)
  ultimately show ?thesis using assms(1) s by (auto simp: threads_ok_def)
qed

lemma dump_step_run:
  assumes "threads_ok g0 t" "\<not> waits Shower t"
  shows "\<exists>t'. dump_step t = Some t' \<and> threads_ok g0 t'"
proof -
  have l: "lock_ok t" using assms(1) by (simp add: threads_ok_def)
  have nb: "\<not> busy (main_at t)" if "showing (dump_at t)" using lockD(3)[OF l that] .
  show ?thesis
  proof (cases "dump_at t")
    case D_wait
    then show ?thesis using assms
      by (auto simp: dump_step_def threads_ok_def lock_ok_def take_unit_def waits_def queue_kept_def in_hand_def showing_def)
  next
    case D_read
    then show ?thesis using dump_reads[OF assms(1)] by blast
  next
    case (D_show m)
    let ?g = "shared t\<lparr>total_frames := total_frames (shared t) + 1\<rparr>"
    have "same_play (shared t) ?g" by (simp add: same_play_def onstage_def)
    note s = stage_same(1)[OF this, of g0 "main_at t"]
    have "page_ok (main_at t) ?g" using nb D_show by (cases "main_at t") (simp_all add: showing_def)
    then show ?thesis using assms D_show s
      by (auto simp: dump_step_def threads_ok_def lock_ok_def queue_kept_def queue_ok_def pictures_def in_hand_def showing_def Let_def)
  next
    case (D_free m)
    then show ?thesis using assms
      by (auto simp: dump_step_def threads_ok_def lock_ok_def queue_kept_def in_hand_def showing_def)
  next
    case D_signal
    then show ?thesis using assms
      by (auto simp: dump_step_def threads_ok_def lock_ok_def give_unit_def queue_kept_def in_hand_def showing_def split: main_pc.splits)
  qed
qed

section \<open>Every interleaving\<close>

lemma started_ok: "threads_ok (loaded clock addresses memory) (started clock addresses memory)"
  by (simp add: threads_ok_def lock_ok_def queue_kept_def queue_ok_def pictures_def in_hand_def frame_ok_def showing_def
      started_def loaded_def ring_wf_def ring_contents_def ring_count_def FRAME_BUFF_SIZE_def)

lemma game_run_ok:
  assumes "\<forall>n. addresses n \<noteq> -1" "game_run clock addresses memory t"
  shows "threads_ok (loaded clock addresses memory) t"
  using assms(2)
proof induction
  case start
  show ?case by (rule started_ok)
next
  case (main t key t')
  then have "\<not> waits Player t" by (auto simp: main_step_def)
  from main_step_run[OF main.IH this assms(1), of key] main.hyps(2,3) show ?case by auto
next
  case (dump t t')
  then have "\<not> waits Shower t" by (auto simp: dump_step_def)
  from dump_step_run[OF dump.IH this] dump.hyps(2) show ?case by auto
qed

text \<open>Some steps of one thread while the other does nothing.\<close>

primrec steps :: "('t \<Rightarrow> 't option) \<Rightarrow> nat \<Rightarrow> 't \<Rightarrow> 't option" where
  "steps f 0 t = Some t"
| "steps f (Suc n) t = do { t \<leftarrow> f t; steps f n t }"

lemma steps_first: "f t = Some t1 \<Longrightarrow> \<exists>t'. steps f n t1 = Some t' \<and> P t' \<Longrightarrow> \<exists>t'. steps f (Suc n) t = Some t' \<and> P t'"
  by simp

lemma signal_wakes:
  assumes "main_at t = Signal k" "mutex t = (-1, [Shower])"
  shows "\<exists>t'. steps (main_step key) 1 t = Some t' \<and> dump_at t' = D_read"
  using assms by (simp add: main_step_def waits_def give_unit_def)

lemma push_wakes:
  assumes "main_at t = Push k m" "mutex t = (-1, [Shower])"
  shows "\<exists>t'. steps (main_step key) 2 t = Some t' \<and> dump_at t' = D_read"
  using assms by (simp add: numeral_2_eq_2 main_step_def waits_def give_unit_def Let_def)

lemma draw_wakes:
  assumes "main_at t = Draw k m" "mutex t = (-1, [Shower])" "m \<noteq> -1"
  shows "\<exists>t'. steps (main_step key) 3 t = Some t' \<and> dump_at t' = D_read"
proof -
  obtain g where "draw k m (shared t) = Some g" using draw_shows[OF assms(3)] by blast
  then have "main_step key t = Some (t\<lparr>shared := g, main_at := Push k m\<rparr>)"
    using assms(1,2) by (simp add: main_step_def waits_def)
  from steps_first[of "main_step key", OF this push_wakes] show ?thesis using assms(2) by (simp add: eval_nat_numeral)
qed

lemma alloc_wakes:
  assumes "main_at t = Alloc k" "mutex t = (-1, [Shower])" "\<forall>n. alloc_at (shared t) n \<noteq> -1"
  shows "\<exists>t'. steps (main_step key) 4 t = Some t' \<and> dump_at t' = D_read"
proof -
  obtain g m where "main_step key t = Some (t\<lparr>shared := g, main_at := Draw k m\<rparr>)" "m \<noteq> -1"
    using assms by (auto simp: main_step_def waits_def alloc_def Let_def)
  from steps_first[of "main_step key", OF this(1) draw_wakes[OF _ _ this(2)]] show ?thesis
    using assms(2) by (simp add: eval_nat_numeral)
qed

lemma frame_alloc:
  assumes "frame_ok (loaded clock addresses memory) k g" "\<forall>n. addresses n \<noteq> -1"
  shows "\<forall>n. alloc_at g n \<noteq> -1"
proof (cases "k = Title")
  case True
  then have "alloc_at g = addresses" using assms(1) same_play_fields(12) by (fastforce simp: frame_ok_def loaded_def)
  then show ?thesis using assms(2) by simp
next
  case False
  then show ?thesis using assms(1) by (cases k) (auto simp: frame_ok_def live_def sound_def)
qed

lemma main_releases:
  assumes "threads_ok (loaded clock addresses memory) t" "waits Shower t" "\<forall>n. addresses n \<noteq> -1"
  shows "\<exists>n\<le>4. \<exists>t'. steps (main_step key) n t = Some t' \<and> dump_at t' = D_read"
proof -
  have ok: "lock_ok t" "stage_ok (loaded clock addresses memory) (main_at t) (shared t)" "page_ok (main_at t) (shared t)"
    using assms(1) by (simp_all add: threads_ok_def)
  have m: "mutex t = (-1, [Shower])" using ok(1) assms(2) by (auto simp: lock_ok_def waits_def)
  have "busy (main_at t)" by (rule lockD(7)[OF ok(1) assms(2)])
  then consider k where "main_at t = Alloc k" | k p where "main_at t = Draw k p" | k p where "main_at t = Push k p"
    | k where "main_at t = Signal k" by (cases "main_at t") auto
  then show ?thesis
  proof cases
    case (1 k)
    have "\<forall>n. alloc_at (shared t) n \<noteq> -1" by (rule frame_alloc[OF _ assms(3)]) (use ok(2) 1 in simp)
    from alloc_wakes[OF 1 m this] show ?thesis by (intro exI[of _ 4]) simp
  next
    case (2 k p)
    have "p \<noteq> -1" using ok(3) 2 by simp
    from draw_wakes[OF 2 m this] show ?thesis by (intro exI[of _ 3]) simp
  next
    case 3
    from push_wakes[OF 3 m] show ?thesis by (intro exI[of _ 2]) simp
  next
    case 4
    from signal_wakes[OF 4 m] show ?thesis by (intro exI[of _ 1]) simp
  qed
qed

text \<open>From each place of its section, \<open>thread_dump\<close> lets a waiting \<open>main\<close> in.\<close>

lemma dump_wakes:
  assumes "mutex t = (-1, [Player])" "main_at t = Wait k"
  shows "dump_at t = D_signal \<Longrightarrow> \<exists>t' k. steps dump_step 1 t = Some t' \<and> main_at t' = Alloc k"
    "dump_at t = D_free p \<Longrightarrow> \<exists>t' k. steps dump_step 2 t = Some t' \<and> main_at t' = Alloc k"
    "dump_at t = D_show p \<Longrightarrow> \<exists>t' k. steps dump_step 3 t = Some t' \<and> main_at t' = Alloc k"
    "dump_at t = D_read \<Longrightarrow> \<exists>n\<le>4. \<exists>t' k. steps dump_step n t = Some t' \<and> main_at t' = Alloc k"
proof -
  show "dump_at t = D_signal \<Longrightarrow> \<exists>t' k. steps dump_step 1 t = Some t' \<and> main_at t' = Alloc k"
    "dump_at t = D_free p \<Longrightarrow> \<exists>t' k. steps dump_step 2 t = Some t' \<and> main_at t' = Alloc k"
    "dump_at t = D_show p \<Longrightarrow> \<exists>t' k. steps dump_step 3 t = Some t' \<and> main_at t' = Alloc k"
    using assms by (simp_all add: eval_nat_numeral dump_step_def waits_def give_unit_def Let_def)
  assume r: "dump_at t = D_read"
  obtain m r where m: "read_frame (frames (shared t)) = (m, r)" by fastforce
  have "\<exists>t' k. steps dump_step (if m = 0 then 2 else 4) t = Some t' \<and> main_at t' = Alloc k"
    using assms r m by (simp add: eval_nat_numeral dump_step_def waits_def give_unit_def Let_def)
  then show "\<exists>n\<le>4. \<exists>t' k. steps dump_step n t = Some t' \<and> main_at t' = Alloc k"
    by (intro exI[of _ "if m = 0 then 2 else 4"] conjI) simp_all
qed

lemma dump_releases:
  assumes "threads_ok g0 t" "waits Player t"
  shows "\<exists>n\<le>4. \<exists>t' k. steps dump_step n t = Some t' \<and> main_at t' = Alloc k"
proof -
  have ok: "lock_ok t" using assms(1) by (simp add: threads_ok_def)
  have m: "mutex t = (-1, [Player])" using ok assms(2) by (auto simp: lock_ok_def waits_def)
  obtain k where k: "main_at t = Wait k" using lockD(5)[OF ok assms(2)] by blast
  note w = dump_wakes[OF m k]
  have le: "1 \<le> (4::nat)" "2 \<le> (4::nat)" "3 \<le> (4::nat)" by simp_all
  show ?thesis
  proof (cases "dump_at t")
    case D_wait
    then show ?thesis using lockD(6)[OF ok assms(2)] by (simp add: showing_def)
  qed (use w le in blast)+
qed

section \<open>Properties\<close>

text \<open>
  C11: However the two threads interleave, the program behaves as one queue of at most 64 pictures:
  what the rounds of \<open>thread_dump\<close> showed, and the picture it has in hand, are what a bounded list
  returns when it is given the pictures \<open>main\<close> made (the title, the board after \<open>init_board\<close>, a key
  or a turn, and the verdict) and is read in the same order. So the pictures shown and those still
  waiting are, in their order, among the pictures made: none is torn by the other thread, shown
  twice or overtaken. The count \<open>pending_frames\<close> is the number of pictures waiting. This needs
  \<open>alloc\<close> never to fail and never to give the page of a waiting frame.
\<close>

theorem frames_shown_in_order:
  assumes "\<forall>n. addresses n \<noteq> -1" "game_run clock addresses memory t"
  shows "run_ops (spec_push 64) spec_pop (history t) [] = (screens t @ in_hand t, pictures (shared t))
     \<and> subseq (received (screens t @ in_hand t) @ pictures (shared t)) (sent (history t))
     \<and> pending_frames (frames (shared t)) = int (length (pictures (shared t))) \<and> length (pictures (shared t)) \<le> 64"
proof -
  have q: "queue_kept t" using game_run_ok[OF assms] by (simp add: threads_ok_def)
  then have run: "run_ops (spec_push 64) spec_pop (history t) [] = (screens t @ in_hand t, pictures (shared t))"
    and wf: "frame_wf (frames (shared t))" by (simp_all add: queue_kept_def queue_ok_def FRAME_BUFF_SIZE_def)
  have "pending_frames (frames (shared t)) = int (length (pictures (shared t)))"
    using pending_frames_count[OF wf] by (simp add: pictures_def)
  moreover have "length (pictures (shared t)) \<le> 64"
    using frame_queue.contents_bound[OF wf] by (simp add: pictures_def FRAME_BUFF_SIZE_def)
  ultimately show ?thesis using run received_in_order[OF run] by simp
qed

text \<open>A run in which the title is drawn, queued and shown, and one in which \<open>main\<close> waits.\<close>

definition example_start :: threads where
  "example_start = started (\<lambda>_. 360) (\<lambda>_. 0x11C000) (\<lambda>_ _. 0)"

lemma example_contents: "frame_contents (frames (shared example_start)) = []"
  by (simp add: example_start_def started_def loaded_def ring_contents_def ring_count_def)

lemma title_reaches_screen:
  "\<exists>t. game_run (\<lambda>_. 360) (\<lambda>_. 0x11C000) (\<lambda>_ _. 0) t \<and> screens t = [Some (poster Title (board (shared example_start)))]
     \<and> history t = [Put (poster Title (board (shared example_start))), Take]"
proof -
  let ?run = "game_run (\<lambda>_. 360) (\<lambda>_. 0x11C000) (\<lambda>_ _. 0)" and ?s = example_start
  note eq = main_step_def dump_step_def waits_def take_unit_def give_unit_def alloc_keeps_contract_def Let_def
  note st = example_start_def started_def loaded_def
  let ?g1 = "shared ?s\<lparr>allocs := 1\<rparr>"
  let ?t1 = "?s\<lparr>mutex := (0, []), main_at := Alloc Title\<rparr>"
  have r0: "?run ?s" unfolding example_start_def by (rule game_run.start)
  have r1: "?run ?t1" by (rule game_run.main[OF r0, of None]) (simp_all add: eq st)
  have f: "page_fresh (shared ?s)" unfolding page_fresh_def example_contents by (simp add: st)
  have r2: "?run (?t1\<lparr>shared := ?g1, main_at := Draw Title 0x11C000\<rparr>)"
    by (rule game_run.main[OF r1, of None]) (use f in \<open>simp_all add: eq st alloc_def\<close>)
  obtain g where g: "draw Title 0x11C000 ?g1 = Some g" "drawn 0x11C000 ?g1 g" "shown (pages g 0x11C000) = poster Title (board ?g1)"
    using draw_shows[of "0x11C000" Title ?g1] by auto
  let ?t3 = "?t1\<lparr>shared := g, main_at := Push Title 0x11C000\<rparr>"
  have r3: "?run ?t3" by (rule game_run.main[OF r2, of None]) (use g(1) in \<open>simp_all add: eq st\<close>)
  let ?g4 = "g\<lparr>frames := push_frame 0x11C000 (frames g)\<rparr>" and ?p = "poster Title (board (shared ?s))"
  have b: "board g = board (shared ?s)" "frames g = frames (shared ?s)" using drawn_fields(1,2)[OF g(2)] by simp_all
  let ?t4 = "?t3\<lparr>shared := ?g4, history := [Put ?p], main_at := Signal Title\<rparr>"
  have r4: "?run ?t4" by (rule game_run.main[OF r3, of None]) (simp_all add: eq st b(1))
  let ?t5 = "?t4\<lparr>mutex := (1, []), main_at := Delay\<rparr>"
  have r5: "?run ?t5" by (rule game_run.main[OF r4, of None]) (simp_all add: eq st after_def)
  let ?t6 = "?t5\<lparr>mutex := (0, []), dump_at := D_read\<rparr>"
  have r6: "?run ?t6" by (rule game_run.dump[OF r5]) (simp add: eq st)
  obtain r where r: "read_frame (frames ?g4) = (0x11C000, r)"
    by (simp add: b(2) st read_frame_def push_frame_def FRAME_BUFF_SIZE_def)
  let ?t7 = "?t6\<lparr>shared := ?g4\<lparr>frames := r\<rparr>, history := [Put ?p, Take], dump_at := D_show 0x11C000\<rparr>"
  have r7: "?run ?t7" by (rule game_run.dump[OF r6]) (use r in \<open>simp add: eq st\<close>)
  have "?run (?t7\<lparr>shared := ?g4\<lparr>frames := r, total_frames := total_frames g + 1\<rparr>, screens := [Some ?p], dump_at := D_free 0x11C000\<rparr>)"
    by (rule game_run.dump[OF r7]) (use g(3) in \<open>simp add: eq st\<close>)
  then show ?thesis by - (rule exI, rule conjI, assumption, simp)
qed

lemma main_may_wait: "\<exists>t. game_run (\<lambda>_. 360) (\<lambda>_. 0x11C000) (\<lambda>_ _. 0) t \<and> waits Player t"
proof -
  note eq = main_step_def dump_step_def waits_def take_unit_def alloc_keeps_contract_def Let_def
  note st = example_start_def started_def
  let ?run = "game_run (\<lambda>_. 360) (\<lambda>_. 0x11C000) (\<lambda>_ _. 0)"
  let ?t1 = "example_start\<lparr>mutex := (0, []), dump_at := D_read\<rparr>"
  have r0: "?run example_start" unfolding example_start_def by (rule game_run.start)
  have r1: "?run ?t1" by (rule game_run.dump[OF r0]) (simp add: eq st)
  have "?run (?t1\<lparr>mutex := (-1, [Player]), main_at := Wait Title\<rparr>)"
    by (rule game_run.main[OF r1, of None]) (simp_all add: eq st)
  then show ?thesis by - (rule exI, rule conjI, assumption, simp add: waits_def)
qed

theorem frames_shown_in_order_witness:
  "\<exists>t. game_run (\<lambda>_. 360) (\<lambda>_. 0x11C000) (\<lambda>_ _. 0) t \<and> screens t = [Some (poster Title (board (shared example_start)))]
     \<and> run_ops (spec_push 64) spec_pop (history t) [] = (screens t @ in_hand t, pictures (shared t))"
proof -
  obtain t where t: "game_run (\<lambda>_. 360) (\<lambda>_. 0x11C000) (\<lambda>_ _. 0) t"
    "screens t = [Some (poster Title (board (shared example_start)))]" using title_reaches_screen by blast
  have "\<forall>n::nat. (0x11C000 :: DWord) \<noteq> -1" by simp
  from frames_shown_in_order[OF this t(1)] t show ?thesis by blast
qed



end
