(* ===== verification/Spec2Isabelle.thy ===== *)
theory Spec2Isabelle
  imports Start_Up Game_Threads
begin

text \<open>
  ZeOS, a teaching kernel for 32-bit x86, and the game that runs on it. The development models the
  code under \<open>src/zeos\<close>: the kernel from its lists and page tables up to complete runs of interrupts
  and system calls, the user library, and the game with its two threads.

  \<^bold>\<open>Parts of the program and their theories.\<close>

  \<^item> \<^theory_text>\<open>Prelude\<close>: the machine types of \<open>include/types.h\<close>, the error numbers of \<open>include/errno.h\<close>, the bit
    fields of page table entries, the loop combinator for bodies that can fault.
  \<^item> \<^theory_text>\<open>Ring_Buffer\<close>: the keyboard buffer of \<open>io.c\<close> and the contract \<open>bounded_fifo\<close> it shares with the
    frame queue of the game.
  \<^item> \<^theory_text>\<open>Linked_List\<close>: the intrusive doubly linked lists of \<open>list.c\<close> over an explicit heap of nodes; the
    kernel queues are families of disjoint lists in one heap.
  \<^item> \<^theory_text>\<open>Utils\<close>: \<open>copy_data\<close>, \<open>copy_from_user\<close>, \<open>copy_to_user\<close>, \<open>access_ok\<close>, \<open>do_div\<close>, \<open>get_ticks\<close>
    of \<open>utils.c\<close> and the statistics of \<open>p_stats.c\<close>.
  \<^item> \<^theory_text>\<open>Paging\<close>: frames and page tables of \<open>mm.c\<close>.
  \<^item> \<^theory_text>\<open>Screen\<close>: the text screen of \<open>io.c\<close>, \<open>sys_write_console\<close> of \<open>devices.c\<close> and the drawing loop of
    \<open>sys_dump_screen\<close>.
  \<^item> \<^theory_text>\<open>Kernel_State\<close>: the global variables of the kernel as one record, the task structures with their
    kernel stacks, the accounting calls.
  \<^item> \<^theory_text>\<open>Sched\<close>: queues, round robin and task switch of \<open>sched.c\<close> and \<open>kernel-utils.S\<close>, and the set-up
    of the first two tasks.
  \<^item> \<^theory_text>\<open>Sem_Spec\<close>, \<^theory_text>\<open>Semaphore\<close>: the contract of a semaphore, and the semaphores of \<open>sys.c\<close>.
  \<^item> \<^theory_text>\<open>Process\<close>, \<^theory_text>\<open>Process_Steps\<close>: \<open>sys_fork\<close>, \<open>sys_exit\<close>, \<open>sys_createthread\<close>, \<open>sys_terminatethread\<close>,
    \<open>sys_alloc\<close>, \<open>sys_dealloc\<close>; the first theory defines them, the second states what they do.
  \<^item> \<^theory_text>\<open>Syscalls\<close>: the other system calls, the table of \<open>sys_call_table.S\<close> and the dispatch of \<open>entry.S\<close>.
  \<^item> \<^theory_text>\<open>Interrupts\<close>: the clock and keyboard routines and their handlers, the IDT, the GDT entry and
    contents of the TSS.
  \<^item> \<^theory_text>\<open>Kernel_Run\<close>: what \<open>main\<close> of \<open>system.c\<close> does to the kernel state, and the runs of the booted kernel.
  \<^item> \<^theory_text>\<open>Build\<close>: \<open>build.c\<close>, the host tool that writes the disk image.
  \<^item> \<^theory_text>\<open>Start_Up\<close>: the processor state of \<open>hardware.c\<close>, all of \<open>main\<close> of \<open>system.c\<close>, and the way from the
    files on the host to the first instruction of the user program.
  \<^item> \<^theory_text>\<open>Libc\<close>: the functions of \<open>libc.c\<close>.
  \<^item> \<^theory_text>\<open>Game_Board\<close>, \<^theory_text>\<open>Game_Steps\<close>, \<^theory_text>\<open>Game\<close>, \<^theory_text>\<open>Game_Play\<close>: the game \<open>user.c\<close>. The first defines the board
    and what happens on it, the second states what every such operation keeps; the third has the queue
    of frames, the drawing and what the threads do in one go, the fourth whole games of \<open>main\<close> alone.
  \<^item> \<^theory_text>\<open>Game_Screens\<close>, \<^theory_text>\<open>Game_Threads\<close>: what each screen of the game shows, and the two threads as programs
    whose steps interleave in any way, with the semaphore that keeps them apart.

  \<^bold>\<open>How state and operations correspond.\<close> A C function is a HOL function of its arguments and of the
  record of the variables it may read or write, with the name it has in C; a name that clashes with
  Isabelle's has a suffix (\<open>welcome_screen\<close>, \<open>setup_game\<close>). \<^const>\<open>None\<close> is a machine fault: a
  dereference of \<open>NULL\<close>, an access to a page that is not present, an index outside an array. An error the
  code reports is a value, the negative error number it returns. An \<open>int\<close> of the kernel is a 32-bit
  word read by \<^const>\<open>sint\<close>. The variables of the game are small, and are integers; its bounds are
  proved in \<^theory_text>\<open>Game_Play\<close>. A loop over an index range is a fold over the list of indices; a loop with a
  condition is a \<^theory_text>\<open>function\<close> with a measure, or a \<^theory_text>\<open>partial_function\<close> where it may run forever
  (\<open>strlen\<close>, the waiting loop of \<open>setup\<close>, the wake-up loop of \<open>sys_sem_destroy\<close>, traversals of a list);
  that each of these returns is proved where it is used. There is no fuel.

  \<^bold>\<open>What the lemmas show.\<close>

  \<^item> Refinements: a clock tick against an abstract round robin, semaphores against a counter with a queue,
    the keyboard buffer against a bounded list, and the two threads of the game, in any interleaving, against
    a bounded list of pictures.
  \<^item> The invariant of the kernel (queues disjoint and well formed, every task in exactly one place, page
    tables, stacks and semaphores consistent) is established by booting and kept by every system
    call and interrupt, hence holds in every run; no handler faults in one.
  \<^item> Each system call on each of its branches: what it returns, what it changes, what it leaves alone.
  \<^item> Termination and liveness: \<open>sys_sem_destroy\<close> returns, the \<open>k\<close>-th ready task runs after \<open>k\<close> slices,
    the aliens of the game land within 420 moves, a thread of the game that waits for the other waits at most
    four of its steps.
  \<^item> Start-up: what \<open>build\<close> writes is what \<open>main\<close> reads, and the user program arrives at its address.
  \<^item> The defects of the code that a theorem pins down: the stale context of a lone yield, large values of
    \<open>sem_init\<close>, frame 256, the pages \<open>fork\<close> overwrites, the off-by-one of the dispatch.

  \<^bold>\<open>Interfaces.\<close> \<open>bounded_fifo\<close> (\<^theory_text>\<open>Ring_Buffer\<close>) is interpreted on the keyboard buffer and on the frame
  queue; the contract of \<^theory_text>\<open>Sem_Spec\<close> is what the system calls are proved to do and what the threads of the
  game run on; \<open>march\<close> (\<^theory_text>\<open>Game_Steps\<close>) on the three ways the formation moves; the contracts of the kernel queues
  on the lists of \<^theory_text>\<open>Linked_List\<close>.

  \<^bold>\<open>Parameters.\<close> What the time stamp counter, the clock, the keyboard port and \<open>alloc\<close> (seen from the
  game) return; the code addresses the kernel stores in stacks and tables; the contents of memory before
  booting; \<open>zeos_show_clock\<close> and \<open>set_handlers\<close>, which come with a binary library; the memory behind
  \<open>char_map\<close> and \<open>sys_call_table\<close>, which the code can reach.

  \<^bold>\<open>Not modelled.\<close>

  \<^item> The saving and restoring of the general registers in \<open>entry.S\<close>; the stubs of \<open>user-utils.S\<close> but for
    their common error exit; \<open>inb\<close>, which reads a port, and the endless loop \<open>cpu_idle\<close>.
  \<^item> The translation buffer: an entry of a page table takes effect at once.
  \<^item> User stores into kernel pages, which a forked process can make because \<open>sys_fork\<close> maps them writable:
    the runs of \<^theory_text>\<open>Kernel_Run\<close> let programs store into their own data pages.
  \<^item> Interrupts inside a call of the game: in \<^theory_text>\<open>Game_Threads\<close> the threads interleave between the calls of
    a critical section and the moves of the board, and each of these is one step. The processes of other
    users of semaphore 0 are left out, and so is the failure of \<open>sem_wait\<close> on a destroyed semaphore,
    which the game never destroys.
  \<^item> \<open>bootsect.S\<close>, 16-bit assembly: that it puts the image behind its first sector at \<open>KERNEL_START\<close> is the
    hypothesis \<open>loaded_from\<close> of the theorem on start-up; the sprite generator \<open>test.cc\<close>, not part of the
    system.
\<close>

end
